(* ===== verification/Py_Text.thy ===== *)
theory Py_Text
  imports Andrix_Prelude
begin

text \<open>
  Python text and byte strings. A \<^verbatim>\<open>bytes\<close> value and a \<^verbatim>\<open>str\<close> of code points below 256 are both a
  \<open>string\<close>; every text that the checkers read is decoded as ASCII first, so nothing outside this
  range reaches a comparison. The operations below are the \<^verbatim>\<open>str\<close> methods that the scripts call.
\<close>

section \<open>Characters\<close>

abbreviation ord_c :: "char \<Rightarrow> nat" where
  "ord_c c \<equiv> of_char c"

definition in_range :: "nat \<Rightarrow> nat \<Rightarrow> char \<Rightarrow> bool" where
  "in_range lo hi c \<longleftrightarrow> lo \<le> ord_c c \<and> ord_c c \<le> hi"

definition is_digit :: "char \<Rightarrow> bool" where
  "is_digit c \<longleftrightarrow> in_range 48 57 c"

definition is_upper :: "char \<Rightarrow> bool" where
  "is_upper c \<longleftrightarrow> in_range 65 90 c"

definition is_lower :: "char \<Rightarrow> bool" where
  "is_lower c \<longleftrightarrow> in_range 97 122 c"

definition is_alpha :: "char \<Rightarrow> bool" where
  "is_alpha c \<longleftrightarrow> is_upper c \<or> is_lower c"

definition is_alnum :: "char \<Rightarrow> bool" where
  "is_alnum c \<longleftrightarrow> is_alpha c \<or> is_digit c"

definition is_hex :: "char \<Rightarrow> bool" where
  "is_hex c \<longleftrightarrow> is_digit c \<or> in_range 97 102 c"

definition is_word :: "char \<Rightarrow> bool" where
  "is_word c \<longleftrightarrow> is_alnum c \<or> c = CHR ''_''"

definition is_ascii :: "char \<Rightarrow> bool" where
  "is_ascii c \<longleftrightarrow> ord_c c < 128"

definition is_space :: "char \<Rightarrow> bool" where
  "is_space c \<longleftrightarrow> in_range 9 13 c \<or> in_range 28 32 c \<or> ord_c c = 133 \<or> ord_c c = 160"

lemmas char_class_defs =
  in_range_def is_digit_def is_upper_def is_lower_def is_alpha_def is_alnum_def is_hex_def
  is_word_def is_ascii_def is_space_def

definition lower_c :: "char \<Rightarrow> char" where
  "lower_c c = (if is_upper c then char_of (ord_c c + 32) else c)"

text \<open>\<^verbatim>\<open>str.lower\<close> on ASCII text.\<close>

definition lower :: "string \<Rightarrow> string" where
  "lower s = map lower_c s"

text \<open>\<^verbatim>\<open>bytes.decode('ascii')\<close>: the same code points, or \<open>UnicodeDecodeError\<close>, a \<open>ValueError\<close>.\<close>

definition decode_ascii :: "string \<Rightarrow> string option" where
  "decode_ascii b = (if list_all is_ascii b then Some b else None)"

lemma decode_ascii_Some [simp]: "decode_ascii b = Some s \<longleftrightarrow> s = b \<and> list_all is_ascii b"
  by (auto simp: decode_ascii_def)

abbreviation nl :: char where
  "nl \<equiv> CHR 0x0A"

section \<open>Prefixes and suffixes\<close>

fun starts_with :: "'a list \<Rightarrow> 'a list \<Rightarrow> bool" where
  "starts_with [] s = True"
| "starts_with (p # ps) [] = False"
| "starts_with (p # ps) (c # cs) = (p = c \<and> starts_with ps cs)"

definition ends_with :: "'a list \<Rightarrow> 'a list \<Rightarrow> bool" where
  "ends_with p s = starts_with (rev p) (rev s)"

lemma starts_with_iff: "starts_with p s \<longleftrightarrow> (\<exists>t. s = p @ t)"
  by (induction p s rule: starts_with.induct) auto

lemma starts_with_append [simp]: "starts_with p (p @ s)"
  by (simp add: starts_with_iff)

lemma starts_with_drop: "starts_with p s \<Longrightarrow> s = p @ drop (length p) s"
  by (auto simp: starts_with_iff)

lemma ends_with_iff: "ends_with p s \<longleftrightarrow> (\<exists>t. s = t @ p)"
proof
  assume "ends_with p s"
  then obtain t where "rev s = rev p @ t"
    by (auto simp: ends_with_def starts_with_iff)
  then have "s = rev t @ p"
    by (metis rev_append rev_rev_ident)
  then show "\<exists>t. s = t @ p" ..
next
  assume "\<exists>t. s = t @ p"
  then show "ends_with p s"
    by (auto simp: ends_with_def)
qed

lemma ends_with_snoc [simp]: "ends_with [c] (s @ [d]) \<longleftrightarrow> c = d"
  by (auto simp: ends_with_def)

section \<open>Splitting and joining\<close>

text \<open>\<^verbatim>\<open>text.split(c)\<close> for a separator of one character, and \<^verbatim>\<open>sep.join(parts)\<close>.\<close>

fun split_char :: "'a \<Rightarrow> 'a list \<Rightarrow> 'a list list" where
  "split_char c [] = [[]]"
| "split_char c (x # xs) =
     (if x = c then [] # split_char c xs
      else (case split_char c xs of [] \<Rightarrow> [[x]] | y # ys \<Rightarrow> (x # y) # ys))"

fun join :: "'a list \<Rightarrow> 'a list list \<Rightarrow> 'a list" where
  "join sep [] = []"
| "join sep [x] = x"
| "join sep (x # y # ys) = x @ sep @ join sep (y # ys)"

lemma split_char_ne [simp]: "split_char c s \<noteq> []"
  by (induction s) (auto split: list.splits)

lemma join_Cons: "xs \<noteq> [] \<Longrightarrow> join sep (x # xs) = x @ sep @ join sep xs"
  by (cases xs) auto

lemma join_split_char [simp]: "join [c] (split_char c s) = s"
proof (induction s)
  case Nil
  then show ?case by simp
next
  case (Cons x s)
  obtain y ys where sp: "split_char c s = y # ys"
    by (cases "split_char c s") auto
  with Cons show ?case
    by (cases ys) (auto simp: join_Cons)
qed

lemma split_char_pieces: "p \<in> set (split_char c s) \<Longrightarrow> c \<notin> set p"
  by (induction s arbitrary: p) (auto split: if_splits list.splits)

lemma split_char_no_sep: "c \<notin> set s \<Longrightarrow> split_char c s = [s]"
  by (induction s) auto

lemma split_char_append:
  "c \<notin> set p \<Longrightarrow> split_char c (p @ c # s) = p # split_char c s"
  by (induction p) auto

lemma split_char_join:
  "xs \<noteq> [] \<Longrightarrow> (\<And>x. x \<in> set xs \<Longrightarrow> c \<notin> set x) \<Longrightarrow> split_char c (join [c] xs) = xs"
  by (induction "[c]" xs rule: join.induct) (auto simp: split_char_no_sep split_char_append)

lemma set_split_char: "p \<in> set (split_char c s) \<Longrightarrow> set p \<subseteq> set s"
  by (induction s arbitrary: p) (fastforce split: if_splits list.splits)+

section \<open>Searching\<close>

text \<open>\<^verbatim>\<open>text.find(sub)\<close> as an option, and \<^verbatim>\<open>sub in text\<close>.\<close>

fun find_sub :: "'a list \<Rightarrow> 'a list \<Rightarrow> nat option" where
  "find_sub p [] = (if p = [] then Some 0 else None)"
| "find_sub p (c # cs) =
     (if starts_with p (c # cs) then Some 0 else map_option Suc (find_sub p cs))"

definition contains :: "'a list \<Rightarrow> 'a list \<Rightarrow> bool" where
  "contains p s = (find_sub p s \<noteq> None)"

lemma find_sub_SomeD: "find_sub p s = Some i \<Longrightarrow> \<exists>t. drop i s = p @ t"
  by (induction s arbitrary: i) (auto simp: starts_with_iff split: if_splits)

lemma contains_iff: "contains p s \<longleftrightarrow> (\<exists>a b. s = a @ p @ b)"
proof
  assume "contains p s"
  then obtain i t where "drop i s = p @ t"
    by (auto simp: contains_def dest: find_sub_SomeD)
  then have "s = take i s @ p @ t"
    by (metis append_take_drop_id)
  then show "\<exists>a b. s = a @ p @ b" by blast
next
  assume "\<exists>a b. s = a @ p @ b"
  then obtain a b where s: "s = a @ p @ b" by blast
  have "find_sub p (a @ p @ b) \<noteq> None"
  proof (induction a)
    case Nil
    have "starts_with p (p @ b)" by simp
    then show ?case by (cases "p @ b") auto
  next
    case (Cons x a)
    then show ?case by auto
  qed
  with s show "contains p s" by (simp add: contains_def)
qed

section \<open>Stripping and padding\<close>

definition lstrip :: "string \<Rightarrow> string" where
  "lstrip s = dropWhile is_space s"

definition rstrip :: "string \<Rightarrow> string" where
  "rstrip s = rev (dropWhile is_space (rev s))"

definition strip :: "string \<Rightarrow> string" where
  "strip s = rstrip (lstrip s)"

definition ljust :: "nat \<Rightarrow> string \<Rightarrow> string" where
  "ljust n s = s @ replicate (n - length s) CHR '' ''"

section \<open>Decimal numbers\<close>

definition digit_char :: "nat \<Rightarrow> char" where
  "digit_char n = char_of (48 + n)"

text \<open>\<^verbatim>\<open>str(n)\<close> of a natural number and of an integer, and \<^verbatim>\<open>int(text)\<close> of a text of ASCII digits.\<close>

fun str_nat :: "nat \<Rightarrow> string" where
  "str_nat n = (if n < 10 then [digit_char n] else str_nat (n div 10) @ [digit_char (n mod 10)])"

declare str_nat.simps [simp del]

definition str_int :: "int \<Rightarrow> string" where
  "str_int i = (if i < 0 then CHR ''-'' # str_nat (nat (- i)) else str_nat (nat i))"

definition digit_val :: "char \<Rightarrow> nat" where
  "digit_val c = ord_c c - 48"

definition nat_of :: "string \<Rightarrow> nat" where
  "nat_of s = foldl (\<lambda>a c. 10 * a + digit_val c) 0 s"

lemma nat_of_Nil [simp]: "nat_of [] = 0"
  by (simp add: nat_of_def)

lemma nat_of_snoc [simp]: "nat_of (s @ [c]) = 10 * nat_of s + digit_val c"
  by (simp add: nat_of_def)

lemma nat_of_append: "nat_of (s @ t) = nat_of s * 10 ^ length t + nat_of t"
  by (induction t rule: rev_induct) (simp_all add: algebra_simps flip: append_assoc)

lemma nat_of_Cons: "nat_of (c # s) = digit_val c * 10 ^ length s + nat_of s"
  using nat_of_append [of "[c]" s] by (simp add: nat_of_def)

lemma digit_val_less: "is_digit c \<Longrightarrow> digit_val c < 10"
  by (auto simp: is_digit_def in_range_def digit_val_def)

lemma nat_of_less: "list_all is_digit s \<Longrightarrow> nat_of s < 10 ^ length s"
proof (induction s rule: rev_induct)
  case Nil
  then show ?case by simp
next
  case (snoc c s)
  then have "nat_of s + 1 \<le> 10 ^ length s" and "digit_val c < 10"
    by (auto simp: digit_val_less)
  then show ?case by simp
qed

lemma ord_digit_char: "n < 10 \<Longrightarrow> ord_c (digit_char n) = 48 + n"
  by (simp add: digit_char_def)

lemma is_digit_digit_char [simp]: "n < 10 \<Longrightarrow> is_digit (digit_char n)"
  by (simp add: is_digit_def in_range_def ord_digit_char)

lemma digit_val_digit_char [simp]: "n < 10 \<Longrightarrow> digit_val (digit_char n) = n"
  by (simp add: digit_val_def ord_digit_char)

lemma digit_char_digit_val [simp]: "is_digit c \<Longrightarrow> digit_char (digit_val c) = c"
  by (simp add: is_digit_def in_range_def digit_val_def digit_char_def)

lemma digits_str_nat [simp]: "list_all is_digit (str_nat n)"
proof (induction n rule: str_nat.induct)
  case (1 n)
  then show ?case by (simp add: str_nat.simps [of n])
qed

lemma nat_of_str_nat [simp]: "nat_of (str_nat n) = n"
proof (induction n rule: str_nat.induct)
  case (1 n)
  then show ?case
    by (cases "n < 10") (simp_all add: str_nat.simps [of n] nat_of_Cons)
qed

lemma str_nat_ne [simp]: "str_nat n \<noteq> []"
  by (simp add: str_nat.simps [of n])

lemma str_nat_inj [simp]: "str_nat m = str_nat n \<longleftrightarrow> m = n"
  by (metis nat_of_str_nat)

text \<open>A text of digits without a leading zero is its own canonical form.\<close>

definition canonical_nat :: "string \<Rightarrow> bool" where
  "canonical_nat s \<longleftrightarrow> s \<noteq> [] \<and> list_all is_digit s \<and> (hd s = CHR ''0'' \<longrightarrow> length s = 1)"

lemma digit_val_0 [simp]: "is_digit c \<Longrightarrow> digit_val c = 0 \<longleftrightarrow> c = CHR ''0''"
proof -
  assume d: "is_digit c"
  have "digit_val c = 0 \<longleftrightarrow> ord_c c = 48"
    using d by (auto simp: is_digit_def in_range_def digit_val_def)
  also have "\<dots> \<longleftrightarrow> ord_c c = ord_c (CHR ''0'')" by simp
  also have "\<dots> \<longleftrightarrow> c = CHR ''0''" by (rule of_char_eq_iff)
  finally show ?thesis .
qed

lemma nat_of_pos: "list_all is_digit s \<Longrightarrow> s \<noteq> [] \<Longrightarrow> hd s \<noteq> CHR ''0'' \<Longrightarrow> 0 < nat_of s"
  by (cases s) (auto simp: nat_of_Cons intro!: gr0I)

lemma str_nat_nat_of: "canonical_nat s \<Longrightarrow> str_nat (nat_of s) = s"
proof (induction s rule: rev_induct)
  case Nil
  then show ?case by (simp add: canonical_nat_def)
next
  case (snoc c s)
  then have c: "is_digit c" by (simp add: canonical_nat_def)
  show ?case
  proof (cases "s = []")
    case True
    with c show ?thesis
      by (simp add: nat_of_Cons str_nat.simps [of "digit_val c"] digit_val_less)
  next
    case False
    with snoc.prems have h: "hd s \<noteq> CHR ''0''" and d: "list_all is_digit s"
      by (auto simp: canonical_nat_def)
    then have s: "canonical_nat s" and p: "0 < nat_of s"
      using False by (auto simp: canonical_nat_def nat_of_pos)
    from snoc.IH [OF s] p c show ?thesis
      by (simp add: str_nat.simps [of "10 * nat_of s + digit_val c"] digit_val_less)
  qed
qed

lemma canonical_str_nat [simp]: "canonical_nat (str_nat n)"
proof (induction n rule: str_nat.induct)
  case (1 n)
  show ?case
  proof (cases "n < 10")
    case True
    then show ?thesis by (simp add: canonical_nat_def str_nat.simps [of n])
  next
    case False
    with 1 have IH: "canonical_nat (str_nat (n div 10))" by simp
    have "hd (str_nat (n div 10)) \<noteq> CHR ''0''"
    proof
      assume z: "hd (str_nat (n div 10)) = CHR ''0''"
      with IH have "length (str_nat (n div 10)) = 1" by (simp add: canonical_nat_def)
      with z have "str_nat (n div 10) = [CHR ''0'']"
        by (cases "str_nat (n div 10)") auto
      then have "nat_of (str_nat (n div 10)) = 0" by (simp add: nat_of_def digit_val_def)
      with False show False by simp
    qed
    with False show ?thesis
      by (auto simp: canonical_nat_def str_nat.simps [of n] hd_append)
  qed
qed

text \<open>Two digit texts of one length compare as their numbers do.\<close>

lemma digit_ord_less: "is_digit a \<Longrightarrow> is_digit b \<Longrightarrow> a < b \<longleftrightarrow> digit_val a < digit_val b"
  by (auto simp: is_digit_def in_range_def digit_val_def less_char_def)

lemma digit_val_inj: "is_digit a \<Longrightarrow> is_digit b \<Longrightarrow> digit_val a = digit_val b \<longleftrightarrow> a = b"
  by (metis digit_char_digit_val)

lemma nat_of_less_iff:
  "list_all is_digit s \<Longrightarrow> list_all is_digit t \<Longrightarrow> length s = length t \<Longrightarrow>
   s < t \<longleftrightarrow> nat_of s < nat_of t"
proof (induction s arbitrary: t)
  case Nil
  then show ?case by simp
next
  case (Cons a s)
  then obtain b u where t: "t = b # u" and l: "length s = length u" by (cases t) auto
  from Cons.prems t have d: "is_digit a" "is_digit b" "list_all is_digit s" "list_all is_digit u"
    by auto
  have IH: "s < u \<longleftrightarrow> nat_of s < nat_of u" using Cons.IH d l by blast
  have bs: "nat_of s < 10 ^ length u" and bu: "nat_of u < 10 ^ length u"
    using nat_of_less d l by fastforce+
  consider "digit_val a < digit_val b" | "a = b" | "digit_val b < digit_val a"
    using d digit_val_inj by (metis linorder_neqE_nat)
  then show ?case
  proof cases
    case 1
    then have "(digit_val a + 1) * 10 ^ length u \<le> digit_val b * 10 ^ length u"
      by (intro mult_le_mono1) simp
    with bs have "nat_of (a # s) < nat_of (b # u)"
      using l by (simp add: nat_of_Cons algebra_simps)
    moreover from 1 d have "a < b" by (simp add: digit_ord_less)
    ultimately show ?thesis using t by simp
  next
    case 2
    with IH t l show ?thesis by (simp add: nat_of_Cons)
  next
    case 3
    then have "(digit_val b + 1) * 10 ^ length u \<le> digit_val a * 10 ^ length u"
      by (intro mult_le_mono1) simp
    with bu have "nat_of (b # u) < nat_of (a # s)"
      using l by (simp add: nat_of_Cons algebra_simps)
    moreover from 3 d have "b < a" by (simp add: digit_ord_less)
    ultimately show ?thesis using t by (auto simp: less_char_def)
  qed
qed

lemma nat_of_eq_iff:
  "list_all is_digit s \<Longrightarrow> list_all is_digit t \<Longrightarrow> length s = length t \<Longrightarrow>
   nat_of s = nat_of t \<longleftrightarrow> s = t"
  by (metis linorder_neqE nat_neq_iff nat_of_less_iff)

end
