(* ===== verification/Py_Re.thy ===== *)
theory Py_Re
  imports Py_Text
begin

text \<open>
  Python's \<^verbatim>\<open>re\<close> matching for the constructs that the scripts use: character classes, sequence,
  ordered choice, greedy and lazy repetition, numbered groups, one character assertions and positive
  lookahead. \<open>rx_run\<close> is the backtracking matcher: it tries the alternatives in Python's order and
  hands each end state to a continuation until one accepts. \<open>outs\<close> is the reference semantics: the
  list of all end states in priority order. The matcher computes the first accepted of them
  (\<open>rx_run_outs\<close>), and for a pattern without assertions a full match exists exactly for the words
  of its language (\<open>fullmatch_lang\<close>).

  A repetition only continues after an iteration that consumed text. Every repeated pattern of the
  scripts consumes text in each iteration, so this is Python's rule for them.
\<close>

section \<open>Patterns and match states\<close>

datatype 'c rx =
    Eps
  | Sym "'c \<Rightarrow> bool"
  | Seq "'c rx" "'c rx"
  | Alt "'c rx" "'c rx"
  | Many bool "'c rx"
  | Grp nat "'c rx"
  | Test "'c list \<Rightarrow> 'c list \<Rightarrow> bool"
  | Ahead "'c rx"

text \<open>
  A state holds the text before the position in reverse, the text after it, and the captured
  groups, newest first. \<open>Test\<close> sees both texts; \<open>Many True\<close> is greedy and \<open>Many False\<close> lazy.
\<close>

datatype 'c mst = MS (pre: "'c list") (post: "'c list") (caps: "(nat \<times> 'c list) list")

definition consumed :: "'c mst \<Rightarrow> 'c mst \<Rightarrow> 'c list" where
  "consumed s t = take (length (post s) - length (post t)) (post s)"

definition set_cap :: "nat \<Rightarrow> 'c list \<Rightarrow> 'c mst \<Rightarrow> 'c mst" where
  "set_cap n x s = MS (pre s) (post s) ((n, x) # caps s)"

section \<open>The backtracking matcher\<close>

type_synonym 'c kont = "'c mst \<Rightarrow> 'c mst option"

definition orelse :: "'a option \<Rightarrow> 'a option \<Rightarrow> 'a option" where
  "orelse a b = (case a of None \<Rightarrow> b | Some x \<Rightarrow> Some x)"

fun many_run :: "bool \<Rightarrow> ('c kont \<Rightarrow> 'c kont) \<Rightarrow> nat \<Rightarrow> 'c kont \<Rightarrow> 'c kont" where
  "many_run g f 0 k s = k s"
| "many_run g f (Suc n) k s =
     (if g
      then (case f (\<lambda>t. if length (post t) < length (post s) then many_run g f n k t else None) s of
              None \<Rightarrow> k s | Some r \<Rightarrow> Some r)
      else (case k s of
              None \<Rightarrow> f (\<lambda>t. if length (post t) < length (post s) then many_run g f n k t else None) s
            | Some r \<Rightarrow> Some r))"

primrec rx_run :: "'c rx \<Rightarrow> 'c kont \<Rightarrow> 'c kont" where
  "rx_run Eps k s = k s"
| "rx_run (Sym P) k s =
     (case post s of [] \<Rightarrow> None
      | c # cs \<Rightarrow> if P c then k (MS (c # pre s) cs (caps s)) else None)"
| "rx_run (Seq a b) k s = rx_run a (rx_run b k) s"
| "rx_run (Alt a b) k s = (case rx_run a k s of None \<Rightarrow> rx_run b k s | Some r \<Rightarrow> Some r)"
| "rx_run (Many g a) k s = many_run g (rx_run a) (length (post s)) k s"
| "rx_run (Grp n a) k s = rx_run a (\<lambda>t. k (set_cap n (consumed s t) t)) s"
| "rx_run (Test P) k s = (if P (pre s) (post s) then k s else None)"
| "rx_run (Ahead a) k s =
     (case rx_run a Some s of None \<Rightarrow> None | Some t \<Rightarrow> k (MS (pre s) (post s) (caps t)))"

section \<open>The reference semantics\<close>

fun many_outs :: "bool \<Rightarrow> ('c mst \<Rightarrow> 'c mst list) \<Rightarrow> nat \<Rightarrow> 'c mst \<Rightarrow> 'c mst list" where
  "many_outs g f 0 s = [s]"
| "many_outs g f (Suc n) s =
     (let more = concat (map (many_outs g f n)
                   (filter (\<lambda>t. length (post t) < length (post s)) (f s)))
      in if g then more @ [s] else s # more)"

primrec outs :: "'c rx \<Rightarrow> 'c mst \<Rightarrow> 'c mst list" where
  "outs Eps s = [s]"
| "outs (Sym P) s =
     (case post s of [] \<Rightarrow> [] | c # cs \<Rightarrow> if P c then [MS (c # pre s) cs (caps s)] else [])"
| "outs (Seq a b) s = concat (map (outs b) (outs a s))"
| "outs (Alt a b) s = outs a s @ outs b s"
| "outs (Many g a) s = many_outs g (outs a) (length (post s)) s"
| "outs (Grp n a) s = map (\<lambda>t. set_cap n (consumed s t) t) (outs a s)"
| "outs (Test P) s = (if P (pre s) (post s) then [s] else [])"
| "outs (Ahead a) s =
     (case outs a s of [] \<Rightarrow> [] | t # _ \<Rightarrow> [MS (pre s) (post s) (caps t)])"

lemma first_some_Some: "first_some Some xs = (case xs of [] \<Rightarrow> None | x # _ \<Rightarrow> Some x)"
  by (cases xs) auto

lemma many_run_outs:
  assumes "\<And>k s. f k s = first_some k (g s)"
  shows "many_run b f n k s = first_some k (many_outs b g n s)"
proof (induction n arbitrary: s)
  case 0
  then show ?case by (simp split: option.splits)
next
  case (Suc n)
  have body: "f (\<lambda>t. if length (post t) < length (post s) then many_run b f n k t else None) s
      = first_some k (concat (map (many_outs b g n)
          (filter (\<lambda>t. length (post t) < length (post s)) (g s))))"
    by (subst assms) (simp add: Suc.IH first_some_concat_map first_some_filter cong: if_cong)
  show ?case
    by (simp only: many_run.simps many_outs.simps body Let_def)
      (simp add: first_some_append split: option.splits)
qed

theorem rx_run_outs: "rx_run r k s = first_some k (outs r s)"
proof (induction r arbitrary: k s)
  case (Seq a b)
  then show ?case by (simp add: first_some_concat_map)
next
  case (Alt a b)
  then show ?case by (simp add: first_some_append split: option.splits)
next
  case (Many g a)
  then show ?case by (simp add: many_run_outs)
next
  case (Grp n a)
  then show ?case by (simp add: first_some_map)
next
  case (Ahead a)
  then show ?case by (simp add: first_some_Some split: list.splits option.splits)
qed (auto split: list.splits option.splits)

section \<open>Match states only move forward\<close>

definition moves :: "'c mst \<Rightarrow> 'c mst \<Rightarrow> bool" where
  "moves s t \<longleftrightarrow> (\<exists>w. post s = w @ post t \<and> pre t = rev w @ pre s)"

lemma moves_refl [simp]: "moves s s"
  by (simp add: moves_def)

lemma moves_trans: "moves s t \<Longrightarrow> moves t u \<Longrightarrow> moves s u"
  by (auto simp: moves_def)

lemma moves_set_cap [simp]: "moves s (set_cap n x t) = moves s t"
  by (simp add: moves_def set_cap_def)

lemma moves_consumed: "moves s t \<Longrightarrow> post s = consumed s t @ post t"
  by (auto simp: moves_def consumed_def)

lemma moves_length: "moves s t \<Longrightarrow> length (post t) \<le> length (post s)"
  by (auto simp: moves_def)

lemma many_outs_moves:
  assumes "\<And>s t. t \<in> set (f s) \<Longrightarrow> moves s t" and "t \<in> set (many_outs g f n s)"
  shows "moves s t"
  using assms(2)
proof (induction n arbitrary: s)
  case 0
  then show ?case by simp
next
  case (Suc n)
  then show ?case
    by (auto simp: Let_def split: if_splits intro: moves_trans assms(1))
qed

lemma outs_moves: "t \<in> set (outs r s) \<Longrightarrow> moves s t"
proof (induction r arbitrary: s t)
  case (Sym P)
  then show ?case by (auto simp: moves_def split: list.splits if_splits)
next
  case (Seq a b)
  then show ?case by (fastforce intro: moves_trans)
next
  case (Many g a)
  then show ?case using many_outs_moves [of "outs a"] by auto
next
  case (Ahead a)
  then show ?case by (auto simp: moves_def split: list.splits)
qed (auto split: if_splits)

text \<open>Fuel: the length of the remaining text is enough for every repetition.\<close>

lemma many_outs_fuel:
  "length (post s) \<le> n \<Longrightarrow> length (post s) \<le> m \<Longrightarrow> many_outs g f n s = many_outs g f m s"
proof (induction n arbitrary: m s)
  case 0
  then show ?case by (cases m) auto
next
  case (Suc n)
  show ?case
  proof (cases m)
    case 0
    with Suc.prems show ?thesis by simp
  next
    case (Suc m')
    have "map (many_outs g f n) (filter (\<lambda>t. length (post t) < length (post s)) (f s))
      = map (many_outs g f m') (filter (\<lambda>t. length (post t) < length (post s)) (f s))"
      using Suc.prems Suc by (intro map_cong refl Suc.IH) auto
    then show ?thesis by (simp only: Suc many_outs.simps)
  qed
qed

section \<open>The methods of a compiled pattern\<close>

definition rx_init :: "'c list \<Rightarrow> 'c mst" where
  "rx_init s = MS [] s []"

text \<open>\<^verbatim>\<open>pattern.match\<close>, \<^verbatim>\<open>pattern.fullmatch\<close>, \<^verbatim>\<open>match[n]\<close> and \<^verbatim>\<open>match.end()\<close>.\<close>

definition rx_match :: "'c rx \<Rightarrow> 'c list \<Rightarrow> 'c mst option" where
  "rx_match r s = rx_run r Some (rx_init s)"

definition at_end :: "'c kont" where
  "at_end t = (if post t = [] then Some t else None)"

definition rx_fullmatch :: "'c rx \<Rightarrow> 'c list \<Rightarrow> 'c mst option" where
  "rx_fullmatch r s = rx_run r at_end (rx_init s)"

definition grp :: "'c mst \<Rightarrow> nat \<Rightarrow> 'c list option" where
  "grp t n = map_of (caps t) n"

definition group :: "'c mst \<Rightarrow> nat \<Rightarrow> 'c list" where
  "group t n = (case grp t n of None \<Rightarrow> [] | Some x \<Rightarrow> x)"

definition matches :: "'c rx \<Rightarrow> 'c list \<Rightarrow> bool" where
  "matches r s = (rx_fullmatch r s \<noteq> None)"

text \<open>\<^verbatim>\<open>pattern.search\<close>: the leftmost position that matches.\<close>

fun rx_search_from :: "'c rx \<Rightarrow> 'c list \<Rightarrow> 'c list \<Rightarrow> 'c mst option" where
  "rx_search_from r p [] = rx_run r Some (MS p [] [])"
| "rx_search_from r p (c # cs) =
     (case rx_run r Some (MS p (c # cs) []) of
        None \<Rightarrow> rx_search_from r (c # p) cs | Some t \<Rightarrow> Some t)"

definition rx_search :: "'c rx \<Rightarrow> 'c list \<Rightarrow> 'c mst option" where
  "rx_search r s = rx_search_from r [] s"

text \<open>
  \<^verbatim>\<open>re.findall\<close> as its matches, for patterns that match no empty text; the multi-line anchors.
\<close>

function rx_findall :: "'c rx \<Rightarrow> 'c list \<Rightarrow> 'c list \<Rightarrow> 'c mst list" where
  "rx_findall r p s =
     (case rx_run r Some (MS p s []) of
        Some t \<Rightarrow>
          if length (post t) < length s then t # rx_findall r (pre t) (post t)
          else t # (case s of [] \<Rightarrow> [] | c # cs \<Rightarrow> rx_findall r (c # p) cs)
      | None \<Rightarrow> (case s of [] \<Rightarrow> [] | c # cs \<Rightarrow> rx_findall r (c # p) cs))"
  by pat_completeness auto
termination by (relation "measure (\<lambda>(r, p, s). length s)") auto

declare rx_findall.simps [simp del]

definition bol :: "char rx" where
  "bol = Test (\<lambda>p s. p = [] \<or> hd p = CHR 0x0A)"

definition eol :: "char rx" where
  "eol = Test (\<lambda>p s. s = [] \<or> hd s = CHR 0x0A)"

section \<open>Derived patterns\<close>

primrec lit :: "'c list \<Rightarrow> 'c rx" where
  "lit [] = Eps"
| "lit (c # cs) = Seq (Sym (\<lambda>x. x = c)) (lit cs)"

primrec rep :: "nat \<Rightarrow> 'c rx \<Rightarrow> 'c rx" where
  "rep 0 r = Eps"
| "rep (Suc n) r = Seq r (rep n r)"

primrec rep_upto :: "nat \<Rightarrow> 'c rx \<Rightarrow> 'c rx" where
  "rep_upto 0 r = Eps"
| "rep_upto (Suc n) r = Alt (Seq r (rep_upto n r)) Eps"

definition between :: "nat \<Rightarrow> nat \<Rightarrow> 'c rx \<Rightarrow> 'c rx" where
  "between lo hi r = Seq (rep lo r) (rep_upto (hi - lo) r)"

definition star :: "'c rx \<Rightarrow> 'c rx" where
  "star r = Many True r"

definition plus :: "'c rx \<Rightarrow> 'c rx" where
  "plus r = Seq r (Many True r)"

definition opt :: "'c rx \<Rightarrow> 'c rx" where
  "opt r = Alt r Eps"

fun alts :: "'c rx list \<Rightarrow> 'c rx" where
  "alts [] = Sym (\<lambda>_. False)"
| "alts [r] = r"
| "alts (r # q # rs) = Alt r (alts (q # rs))"

fun seqs :: "'c rx list \<Rightarrow> 'c rx" where
  "seqs [] = Eps"
| "seqs [r] = r"
| "seqs (r # q # rs) = Seq r (seqs (q # rs))"

text \<open>An alternation of fixed words.\<close>

definition words :: "'c list list \<Rightarrow> 'c rx" where
  "words ws = alts (map lit ws)"

section \<open>Runs and languages\<close>

text \<open>
  \<open>runs r w cs\<close>: the pattern can consume exactly \<open>w\<close> and capture the groups \<open>cs\<close>, whatever
  surrounds the text. Assertions have no such reading, so the correspondence is for plain patterns.
\<close>

inductive runs :: "'c rx \<Rightarrow> 'c list \<Rightarrow> (nat \<times> 'c list) list \<Rightarrow> bool" where
  runs_Eps: "runs Eps [] []"
| runs_Sym: "P c \<Longrightarrow> runs (Sym P) [c] []"
| runs_Seq: "runs a u cs \<Longrightarrow> runs b v ds \<Longrightarrow> runs (Seq a b) (u @ v) (ds @ cs)"
| runs_Alt1: "runs a u cs \<Longrightarrow> runs (Alt a b) u cs"
| runs_Alt2: "runs b u cs \<Longrightarrow> runs (Alt a b) u cs"
| runs_Many0: "runs (Many g a) [] []"
| runs_Many1: "runs a u cs \<Longrightarrow> u \<noteq> [] \<Longrightarrow> runs (Many g a) v ds \<Longrightarrow> runs (Many g a) (u @ v) (ds @ cs)"
| runs_Grp: "runs a u cs \<Longrightarrow> runs (Grp n a) u ((n, u) # cs)"

inductive_simps runs_simps [simp]:
  "runs Eps w cs" "runs (Sym P) w cs" "runs (Alt a b) w cs"
  "runs (Grp n a) w cs" "runs (Test P) w cs" "runs (Ahead a) w cs"

inductive_simps runs_Seq_iff: "runs (Seq a b) w cs"

definition lang :: "'c rx \<Rightarrow> 'c list \<Rightarrow> bool" where
  "lang r w \<longleftrightarrow> (\<exists>cs. runs r w cs)"

primrec plain :: "'c rx \<Rightarrow> bool" where
  "plain Eps = True"
| "plain (Sym P) = True"
| "plain (Seq a b) = (plain a \<and> plain b)"
| "plain (Alt a b) = (plain a \<and> plain b)"
| "plain (Many g a) = plain a"
| "plain (Grp n a) = plain a"
| "plain (Test P) = False"
| "plain (Ahead a) = False"

lemma consumed_trans:
  assumes "moves s t" and "moves t u"
  shows "consumed s u = consumed s t @ consumed t u"
  using assms by (auto simp: moves_def consumed_def)

lemma consumed_set_cap [simp]: "consumed s (set_cap n x t) = consumed s t"
  by (simp add: consumed_def set_cap_def)

text \<open>Every end state of a plain pattern is a run, and every run is an end state.\<close>

lemma many_outs_runs:
  assumes "\<And>s t. t \<in> set (outs a s) \<Longrightarrow> \<exists>cs. runs a (consumed s t) cs \<and> caps t = cs @ caps s"
    and "t \<in> set (many_outs g (outs a) n s)"
  shows "\<exists>cs. runs (Many g a) (consumed s t) cs \<and> caps t = cs @ caps s"
  using assms(2)
proof (induction n arbitrary: s)
  case 0
  then show ?case by (simp add: consumed_def runs_Many0)
next
  case (Suc n)
  show ?case
  proof (cases "t = s")
    case True
    then show ?thesis by (simp add: consumed_def runs_Many0)
  next
    case False
    with Suc.prems obtain u where u: "u \<in> set (outs a s)" "length (post u) < length (post s)"
      and t: "t \<in> set (many_outs g (outs a) n u)"
      by (auto simp: Let_def split: if_splits)
    have mv: "moves s u" "moves u t"
      using u(1) t outs_moves many_outs_moves [of "outs a"] by blast+
    have ne: "consumed s u \<noteq> []"
      using u(2) by (auto simp: consumed_def)
    from assms(1) [OF u(1)] obtain cs where
      cs: "runs a (consumed s u) cs" "caps u = cs @ caps s" by blast
    from Suc.IH [OF t] obtain ds where
      ds: "runs (Many g a) (consumed u t) ds" "caps t = ds @ caps u" by blast
    show ?thesis
      using runs_Many1 [OF cs(1) ne ds(1)] cs(2) ds(2) by (auto simp: consumed_trans [OF mv])
  qed
qed

lemma outs_runs:
  "plain r \<Longrightarrow> t \<in> set (outs r s) \<Longrightarrow> \<exists>cs. runs r (consumed s t) cs \<and> caps t = cs @ caps s"
proof (induction r arbitrary: s t)
  case Eps
  then show ?case by (simp add: consumed_def)
next
  case (Sym P)
  then show ?case by (cases "post s") (auto simp: consumed_def split: if_splits)
next
  case (Seq a b)
  then obtain u where u: "u \<in> set (outs a s)" "t \<in> set (outs b u)" by auto
  then have c: "consumed s t = consumed s u @ consumed u t"
    by (simp add: consumed_trans outs_moves)
  obtain cs where a: "runs a (consumed s u) cs" "caps u = cs @ caps s"
    using Seq.prems(1) Seq.IH(1) [OF _ u(1)] by auto
  obtain ds where b: "runs b (consumed u t) ds" "caps t = ds @ caps u"
    using Seq.prems(1) Seq.IH(2) [OF _ u(2)] by auto
  from runs_Seq [OF a(1) b(1)] a(2) b(2) c show ?case by auto
next
  case (Alt a b)
  then show ?case by (auto dest: Alt.IH)
next
  case (Many g a)
  then show ?case using many_outs_runs [of a] by auto
next
  case (Grp n a)
  then obtain u where u: "u \<in> set (outs a s)" "t = set_cap n (consumed s u) u" by auto
  with Grp obtain cs where "runs a (consumed s u) cs" "caps u = cs @ caps s" by auto
  with u(2) show ?case by (auto simp: set_cap_def consumed_def)
qed auto

lemma many_outs_complete:
  assumes "\<And>u cs s. runs a u cs \<Longrightarrow> starts_with u (post s) \<Longrightarrow>
      \<exists>t \<in> set (outs a s). post t = drop (length u) (post s) \<and> caps t = cs @ caps s"
    and "runs (Many g a) w cs" and "starts_with w (post s)" and "length (post s) \<le> n"
  shows "\<exists>t \<in> set (many_outs g (outs a) n s).
    post t = drop (length w) (post s) \<and> caps t = cs @ caps s"
  using assms(2-4)
proof (induction "Many g a" w cs arbitrary: s n rule: runs.induct)
  case runs_Many0
  have "s \<in> set (many_outs g (outs a) n s)"
    by (cases n) (auto simp: Let_def)
  then show ?case by (intro bexI [of _ s]) auto
next
  case (runs_Many1 u cs v ds)
  from runs_Many1.prems(1) obtain z where ps: "post s = u @ v @ z"
    by (auto simp: starts_with_iff)
  with assms(1) [OF runs_Many1.hyps(1), of s] obtain t where
    t: "t \<in> set (outs a s)" "post t = v @ z" "caps t = cs @ caps s" by auto
  obtain m where n: "n = Suc m"
    using runs_Many1.prems(2) ps runs_Many1.hyps(3) by (cases n) auto
  have "length (post t) \<le> m"
    using runs_Many1.prems(2) ps t(2) runs_Many1.hyps(3) n by (cases u) auto
  with runs_Many1.hyps(5) [of t m] t(2) obtain x where
    x: "x \<in> set (many_outs g (outs a) m t)" "post x = z" "caps x = ds @ caps t" by auto
  have "length (post t) < length (post s)"
    using ps t(2) runs_Many1.hyps(3) by simp
  with t(1) x(1) have "x \<in> set (many_outs g (outs a) n s)"
    by (auto simp: n Let_def)
  with x(2,3) t(3) ps show ?case by (intro bexI [of _ x]) auto
qed

lemma outs_complete:
  "plain r \<Longrightarrow> runs r w cs \<Longrightarrow> starts_with w (post s) \<Longrightarrow>
   \<exists>t \<in> set (outs r s). post t = drop (length w) (post s) \<and> caps t = cs @ caps s"
proof (induction r arbitrary: w cs s)
  case (Sym P)
  then show ?case by (cases "post s") auto
next
  case (Seq a b)
  from Seq.prems obtain u v cu cv where
    w: "w = u @ v" "cs = cv @ cu" "runs a u cu" "runs b v cv" by (auto simp: runs_Seq_iff)
  with Seq.prems obtain z where ps: "post s = u @ v @ z" by (auto simp: starts_with_iff)
  with Seq.IH(1) [of u cu s] Seq.prems w obtain t where
    t: "t \<in> set (outs a s)" "post t = v @ z" "caps t = cu @ caps s" by auto
  with Seq.IH(2) [of v cv t] Seq.prems w obtain x where
    "x \<in> set (outs b t)" "post x = z" "caps x = cv @ caps t" by auto
  with t ps w(1,2) show ?case by auto
next
  case (Alt a b)
  then have "plain a" "plain b" "runs a w cs \<or> runs b w cs" by auto
  then show ?case using Alt.IH [of w cs s] Alt.prems(3) by auto
next
  case (Many g a)
  then show ?case using many_outs_complete [of a g w cs s] by auto
next
  case (Grp n a)
  then obtain ds where "runs a w ds" "cs = (n, w) # ds" by auto
  with Grp.IH [of w ds s] Grp.prems obtain t where
    t: "t \<in> set (outs a s)" "post t = drop (length w) (post s)" "caps t = ds @ caps s" by auto
  have "consumed s t = w"
    using t(2) Grp.prems(3) by (auto simp: consumed_def starts_with_iff)
  with t \<open>cs = (n, w) # ds\<close> show ?case by (auto simp: set_cap_def)
qed auto

text \<open>For evaluation, a match is the first acceptable end state of the reference semantics.\<close>

lemma rx_match_outs [code]: "rx_match r s = first_some Some (outs r (rx_init s))"
  by (simp add: rx_match_def rx_run_outs)

lemma rx_fullmatch_outs [code]: "rx_fullmatch r s = first_some at_end (outs r (rx_init s))"
  by (simp add: rx_fullmatch_def rx_run_outs)

lemma rx_findall_outs [code]:
  "rx_findall r p s =
     (case first_some Some (outs r (MS p s [])) of
        Some t \<Rightarrow>
          if length (post t) < length s then t # rx_findall r (pre t) (post t)
          else t # (case s of [] \<Rightarrow> [] | c # cs \<Rightarrow> rx_findall r (c # p) cs)
      | None \<Rightarrow> (case s of [] \<Rightarrow> [] | c # cs \<Rightarrow> rx_findall r (c # p) cs))"
  unfolding rx_run_outs [symmetric] by (rule rx_findall.simps)

lemma rx_search_from_outs [code]:
  "rx_search_from r p [] = first_some Some (outs r (MS p [] []))"
  "rx_search_from r p (c # cs) =
     (case first_some Some (outs r (MS p (c # cs) [])) of
        None \<Rightarrow> rx_search_from r (c # p) cs | Some t \<Rightarrow> Some t)"
  by (simp_all add: rx_run_outs)

lemma fullmatch_SomeD:
  assumes "rx_fullmatch r s = Some t"
  shows "t \<in> set (outs r (rx_init s)) \<and> post t = []"
  using assms
  by (auto simp: rx_fullmatch_def rx_run_outs at_end_def dest!: first_some_SomeD split: if_splits)

text \<open>A full match is a run, and there is a full match whenever there is a run.\<close>

lemma fullmatch_runs:
  assumes "plain r" and "rx_fullmatch r s = Some t"
  shows "runs r s (caps t)"
proof -
  from fullmatch_SomeD [OF assms(2)] have t: "t \<in> set (outs r (rx_init s))" "post t = []" by auto
  have "consumed (rx_init s) t = s"
    using t(2) by (simp add: consumed_def rx_init_def)
  with outs_runs [OF assms(1) t(1)] show ?thesis by (auto simp: rx_init_def)
qed

lemma runs_fullmatch:
  assumes "plain r" and "runs r s cs"
  shows "\<exists>t. rx_fullmatch r s = Some t \<and> runs r s (caps t)"
proof -
  from outs_complete [OF assms, of "rx_init s"] obtain t where
    "t \<in> set (outs r (rx_init s))" "post t = []"
    by (auto simp: rx_init_def starts_with_iff)
  then have "rx_fullmatch r s \<noteq> None"
    by (auto simp: rx_fullmatch_def rx_run_outs at_end_def first_some_None)
  then show ?thesis using fullmatch_runs [OF assms(1)] by blast
qed

theorem fullmatch_lang:
  assumes "plain r"
  shows "matches r s \<longleftrightarrow> lang r s"
  using fullmatch_runs [OF assms] runs_fullmatch [OF assms]
  by (auto simp: matches_def lang_def) blast

lemma fullmatch_determined:
  assumes "plain r" and "runs r s cs" and "\<And>ds. runs r s ds \<Longrightarrow> ds = cs"
  shows "\<exists>t. rx_fullmatch r s = Some t \<and> caps t = cs"
  using runs_fullmatch [OF assms(1,2)] assms(3) by blast

section \<open>Runs of the derived patterns\<close>

lemma runs_Seq_Sym [simp]:
  "runs (Seq (Sym P) b) w cs \<longleftrightarrow> (\<exists>c v. w = c # v \<and> P c \<and> runs b v cs)"
proof
  assume "\<exists>c v. w = c # v \<and> P c \<and> runs b v cs"
  then obtain c v where "w = c # v" "P c" "runs b v cs" by blast
  with runs_Seq [OF runs_Sym, of P c b v cs] show "runs (Seq (Sym P) b) w cs" by simp
qed (auto simp: runs_Seq_iff)

lemma runs_lit [simp]: "runs (lit s) w cs \<longleftrightarrow> w = s \<and> cs = []"
  by (induction s arbitrary: w cs) auto

declare lit.simps [simp del]

lemma runs_Seq_lit [simp]: "runs (Seq (lit s) b) w cs \<longleftrightarrow> (\<exists>v. w = s @ v \<and> runs b v cs)"
proof
  assume "\<exists>v. w = s @ v \<and> runs b v cs"
  then obtain v where "w = s @ v" "runs b v cs" by blast
  with runs_Seq [of "lit s" s "[]" b v cs] show "runs (Seq (lit s) b) w cs" by simp
qed (auto simp: runs_Seq_iff)

lemma runs_rep_Sym [simp]:
  "runs (rep n (Sym P)) w cs \<longleftrightarrow> length w = n \<and> list_all P w \<and> cs = []"
proof (induction n arbitrary: w cs)
  case 0
  then show ?case by auto
next
  case (Suc n)
  then show ?case by (cases w) auto
qed

lemma runs_rep_upto_Sym [simp]:
  "runs (rep_upto n (Sym P)) w cs \<longleftrightarrow> length w \<le> n \<and> list_all P w \<and> cs = []"
proof (induction n arbitrary: w cs)
  case 0
  then show ?case by auto
next
  case (Suc n)
  then show ?case by (cases w) auto
qed

lemma runs_between_Sym [simp]:
  assumes "lo \<le> hi"
  shows "runs (between lo hi (Sym P)) w cs \<longleftrightarrow>
    lo \<le> length w \<and> length w \<le> hi \<and> list_all P w \<and> cs = []"
proof
  assume "lo \<le> length w \<and> length w \<le> hi \<and> list_all P w \<and> cs = []"
  then show "runs (between lo hi (Sym P)) w cs"
    unfolding between_def
    by (simp add: runs_Seq_iff, intro exI [of _ "take lo w"] exI [of _ "drop lo w"])
      (auto simp: list_all_iff dest: in_set_takeD in_set_dropD)
qed (use assms in \<open>auto simp: between_def runs_Seq_iff\<close>)

lemma runs_Many_Sym [simp]: "runs (Many g (Sym P)) w cs \<longleftrightarrow> list_all P w \<and> cs = []"
proof
  assume "runs (Many g (Sym P)) w cs"
  then show "list_all P w \<and> cs = []"
    by (induction "Many g (Sym P)" w cs rule: runs.induct) auto
next
  assume "list_all P w \<and> cs = []"
  moreover have "list_all P w \<Longrightarrow> runs (Many g (Sym P)) w []"
  proof (induction w)
    case Nil
    show ?case by (rule runs_Many0)
  next
    case (Cons c w)
    then show ?case
      using runs_Many1 [of "Sym P" "[c]" "[]" g w "[]"] by (auto intro: runs_Sym)
  qed
  ultimately show "runs (Many g (Sym P)) w cs" by simp
qed

lemma runs_star_Sym [simp]: "runs (star (Sym P)) w cs \<longleftrightarrow> list_all P w \<and> cs = []"
  by (simp add: star_def)

lemma runs_plus_Sym [simp]: "runs (plus (Sym P)) w cs \<longleftrightarrow> w \<noteq> [] \<and> list_all P w \<and> cs = []"
  by (cases w) (auto simp: plus_def)

lemma runs_Seq_leaf:
  assumes "\<And>w cs. runs a w cs \<longleftrightarrow> L w \<and> cs = []"
  shows "runs (Seq a b) w cs \<longleftrightarrow> (\<exists>u v. w = u @ v \<and> L u \<and> runs b v cs)"
proof
  assume "runs (Seq a b) w cs"
  then obtain u us v vs where "w = u @ v" "cs = vs @ us" "runs a u us" "runs b v vs"
    unfolding runs_Seq_iff by blast
  with assms show "\<exists>u v. w = u @ v \<and> L u \<and> runs b v cs" by (intro exI [of _ u] exI [of _ v]) simp
next
  assume "\<exists>u v. w = u @ v \<and> L u \<and> runs b v cs"
  then obtain u v where "w = u @ v" "L u" "runs b v cs" by blast
  with runs_Seq [of a u "[]" b v cs] assms show "runs (Seq a b) w cs" by simp
qed

lemmas runs_Seq_rep [simp] = runs_Seq_leaf [OF runs_rep_Sym [unfolded conj_assoc [symmetric]]]
lemmas runs_Seq_Many [simp] = runs_Seq_leaf [OF runs_Many_Sym]
lemmas runs_Seq_star [simp] = runs_Seq_leaf [OF runs_star_Sym]
lemmas runs_Seq_plus [simp] = runs_Seq_leaf [OF runs_plus_Sym [unfolded conj_assoc [symmetric]]]

lemma runs_Seq_between [simp]:
  "lo \<le> hi \<Longrightarrow> runs (Seq (between lo hi (Sym P)) b) w cs \<longleftrightarrow>
     (\<exists>u v. w = u @ v \<and> ((lo \<le> length u \<and> length u \<le> hi) \<and> list_all P u) \<and> runs b v cs)"
  by (rule runs_Seq_leaf) simp

lemma runs_Seq_Grp [simp]:
  "runs (Seq (Grp n a) b) w cs \<longleftrightarrow>
     (\<exists>u v us vs. w = u @ v \<and> runs a u us \<and> runs b v vs \<and> cs = vs @ (n, u) # us)"
  by (simp only: runs_Seq_iff runs_simps) blast

lemma runs_opt [simp]: "runs (opt r) w cs \<longleftrightarrow> runs r w cs \<or> w = [] \<and> cs = []"
  by (simp add: opt_def)

lemma runs_words [simp]: "runs (words ws) w cs \<longleftrightarrow> w \<in> set ws \<and> cs = []"
proof (induction ws)
  case Nil
  then show ?case by (simp add: words_def)
next
  case (Cons x ws)
  then show ?case by (cases ws) (auto simp: words_def)
qed

lemmas runs_Seq_words [simp] = runs_Seq_leaf [OF runs_words]

lemma plain_derived [simp]:
  "plain (lit s)" "plain (star r) = plain r" "plain (plus r) = plain r" "plain (opt r) = plain r"
  by (induction s) (auto simp: star_def plus_def opt_def lit.simps)

lemma plain_rep [simp]: "plain r \<Longrightarrow> plain (rep n r)"
  by (induction n) auto

lemma plain_rep_upto [simp]: "plain r \<Longrightarrow> plain (rep_upto n r)"
  by (induction n) auto

lemma plain_between [simp]: "plain r \<Longrightarrow> plain (between lo hi r)"
  by (simp add: between_def)

lemma plain_words [simp]: "plain (words ws)"
proof (induction ws)
  case Nil
  then show ?case by (simp add: words_def)
next
  case (Cons x ws)
  then show ?case by (cases ws) (auto simp: words_def)
qed

text \<open>A pattern without groups captures nothing.\<close>

primrec groupless :: "'c rx \<Rightarrow> bool" where
  "groupless Eps = True"
| "groupless (Sym P) = True"
| "groupless (Seq a b) = (groupless a \<and> groupless b)"
| "groupless (Alt a b) = (groupless a \<and> groupless b)"
| "groupless (Many g a) = groupless a"
| "groupless (Grp n a) = False"
| "groupless (Test P) = True"
| "groupless (Ahead a) = groupless a"

lemma runs_groupless: "runs r w cs \<Longrightarrow> groupless r \<Longrightarrow> cs = []"
  by (induction rule: runs.induct) auto

lemma groupless_derived [simp]:
  "groupless (lit s)" "groupless (star r) = groupless r" "groupless (plus r) = groupless r" "groupless (opt r) = groupless r"
  by (induction s) (auto simp: star_def plus_def opt_def lit.simps)

lemma groupless_rep [simp]: "groupless r \<Longrightarrow> groupless (rep n r)"
  by (induction n) auto

lemma groupless_rep_upto [simp]: "groupless r \<Longrightarrow> groupless (rep_upto n r)"
  by (induction n) auto

lemma groupless_between [simp]: "groupless r \<Longrightarrow> groupless (between lo hi r)"
  by (simp add: between_def)

end
