(* ===== verification/Py_Time.thy ===== *)
theory Py_Time
  imports Py_Re
begin

text \<open>
  The part of Python's \<^verbatim>\<open>datetime\<close> that the checkers use: calendar validity, the proleptic ordinal of
  a date, and the UTC time text \<^verbatim>\<open>YYYY-MM-DDTHH:MM:SSZ\<close> read as seconds. The checkers compare such
  texts directly in places and as times in others; \<open>time_text_order\<close> shows that both orders agree.
\<close>

section \<open>Dates\<close>

definition leap :: "nat \<Rightarrow> bool" where
  "leap y \<longleftrightarrow> y mod 4 = 0 \<and> (y mod 100 \<noteq> 0 \<or> y mod 400 = 0)"

definition days_in_month :: "nat \<Rightarrow> nat \<Rightarrow> nat" where
  "days_in_month y m =
     (if m = 2 then (if leap y then 29 else 28)
      else if m = 4 \<or> m = 6 \<or> m = 9 \<or> m = 11 then 30 else 31)"

definition valid_date :: "nat \<Rightarrow> nat \<Rightarrow> nat \<Rightarrow> bool" where
  "valid_date y m d \<longleftrightarrow>
     1 \<le> y \<and> y \<le> 9999 \<and> 1 \<le> m \<and> m \<le> 12 \<and> 1 \<le> d \<and> d \<le> days_in_month y m"

definition days_before_year :: "nat \<Rightarrow> nat" where
  "days_before_year y = (y - 1) * 365 + (y - 1) div 4 + (y - 1) div 400 - (y - 1) div 100"

primrec days_before_month :: "nat \<Rightarrow> nat \<Rightarrow> nat" where
  "days_before_month y 0 = 0"
| "days_before_month y (Suc m) = (if m = 0 then 0 else days_before_month y m + days_in_month y m)"

definition ordinal :: "nat \<Rightarrow> nat \<Rightarrow> nat \<Rightarrow> nat" where
  "ordinal y m d = days_before_year y + days_before_month y m + d"

lemma leap_count:
  fixes a b c n :: nat
  assumes "P100 \<longrightarrow> P4" and "P400 \<longrightarrow> P100" and "c \<le> n"
  shows "Suc n * 365 + (a + (if P4 then 1 else 0)) + (b + (if P400 then 1 else 0))
      - (c + (if P100 then 1 else 0))
    = n * 365 + a + b - c + (if P4 \<and> (\<not> P100 \<or> P400) then 366 else 365)"
  using assms by (cases P4; cases P100; cases P400; simp)

lemma days_before_year_Suc:
  assumes "1 \<le> y"
  shows "days_before_year (Suc y) = days_before_year y + (if leap y then 366 else 365)"
proof -
  obtain n where y: "y = Suc n" using assms by (cases y) auto
  have q: "Suc n div 4 = n div 4 + (if Suc n mod 4 = 0 then 1 else 0)"
    "Suc n div 100 = n div 100 + (if Suc n mod 100 = 0 then 1 else 0)"
    "Suc n div 400 = n div 400 + (if Suc n mod 400 = 0 then 1 else 0)"
    by (simp_all add: div_Suc)
  have d: "Suc n mod 100 = 0 \<longrightarrow> Suc n mod 4 = 0" "Suc n mod 400 = 0 \<longrightarrow> Suc n mod 100 = 0"
    unfolding mod_eq_0_iff_dvd by (auto intro: dvd_trans [of 4 100] dvd_trans [of 100 400])
  have "n div 100 \<le> n" by simp
  from leap_count [OF d this, of "n div 4" "n div 400"] show ?thesis
    unfolding y days_before_year_def leap_def diff_Suc_1 q .
qed

lemma days_before_month_mono:
  "1 \<le> m \<Longrightarrow> m < n \<Longrightarrow> days_before_month y m + days_in_month y m \<le> days_before_month y n"
proof (induction n)
  case 0
  then show ?case by simp
next
  case (Suc n)
  then show ?case by (cases "m = n") auto
qed

lemma days_before_month_13: "days_before_month y 13 = (if leap y then 366 else 365)"
  by (simp add: eval_nat_numeral days_in_month_def)

lemma day_of_year:
  assumes "valid_date y m d"
  shows "days_before_month y m + d \<le> (if leap y then 366 else 365)"
proof -
  have "days_before_month y m + days_in_month y m \<le> days_before_month y 13"
    using assms by (intro days_before_month_mono) (auto simp: valid_date_def)
  with assms show ?thesis by (simp add: days_before_month_13 valid_date_def split: if_splits)
qed

lemma days_before_year_mono:
  "1 \<le> y \<Longrightarrow> y \<le> z \<Longrightarrow> days_before_year y \<le> days_before_year z"
proof (induction z)
  case 0
  then show ?case by simp
next
  case (Suc z)
  show ?case
  proof (cases "y = Suc z")
    case False
    with Suc.prems have "1 \<le> z" by simp
    with False Suc show ?thesis by (simp add: days_before_year_Suc)
  qed simp
qed

lemma ordinal_less_year:
  assumes "valid_date y m d" and "valid_date y' m' d'" and "y < y'"
  shows "ordinal y m d < ordinal y' m' d'"
proof -
  have "ordinal y m d \<le> days_before_year (Suc y)"
    using day_of_year [OF assms(1)] assms(1)
    by (simp add: ordinal_def days_before_year_Suc valid_date_def)
  also have "\<dots> \<le> days_before_year y'"
    using assms by (intro days_before_year_mono) (auto simp: valid_date_def)
  also have "\<dots> < ordinal y' m' d'"
    using assms(2) by (simp add: ordinal_def valid_date_def)
  finally show ?thesis .
qed

lemma ordinal_less_month:
  assumes "valid_date y m d" and "valid_date y m' d'" and "m < m'"
  shows "ordinal y m d < ordinal y m' d'"
  using assms days_before_month_mono [of m m' y]
  by (simp add: ordinal_def valid_date_def)

lemma ordinal_less_iff:
  assumes "valid_date y m d" and "valid_date y' m' d'"
  shows "ordinal y m d < ordinal y' m' d' \<longleftrightarrow> y < y' \<or> y = y' \<and> (m < m' \<or> m = m' \<and> d < d')"
proof -
  consider "y < y'" | "y' < y" | "y = y'" "m < m'" | "y = y'" "m' < m" | "y = y'" "m = m'"
    by linarith
  then show ?thesis
  proof cases
    case 1
    then show ?thesis using ordinal_less_year [OF assms] by simp
  next
    case 2
    then show ?thesis using ordinal_less_year [OF assms(2,1)] by simp
  next
    case 3
    then show ?thesis using ordinal_less_month [of y m d m' d'] assms by simp
  next
    case 4
    then show ?thesis using ordinal_less_month [of y m' d' m d] assms by simp
  next
    case 5
    then show ?thesis by (simp add: ordinal_def)
  qed
qed

lemma ordinal_eq_iff:
  assumes "valid_date y m d" and "valid_date y' m' d'"
  shows "ordinal y m d = ordinal y' m' d' \<longleftrightarrow> y = y' \<and> m = m' \<and> d = d'"
  using ordinal_less_iff [OF assms] ordinal_less_iff [OF assms(2,1)]
  by (metis linorder_neqE_nat nat_neq_iff)

section \<open>Time texts\<close>

definition digits_rx :: "nat \<Rightarrow> char rx" where
  "digits_rx n = rep n (Sym is_digit)"

text \<open>\<^verbatim>\<open>[0-9]{4}-[0-9]{2}-[0-9]{2}\<close> and \<^verbatim>\<open>[0-9]{4}-[0-9]{2}-[0-9]{2}T[0-9]{2}:[0-9]{2}:[0-9]{2}Z\<close>.\<close>

definition day_rx :: "char rx" where
  "day_rx = Seq (digits_rx 4) (Seq (lit ''-'') (Seq (digits_rx 2) (Seq (lit ''-'') (digits_rx 2))))"

definition time_rx :: "char rx" where
  "time_rx = Seq (digits_rx 4) (Seq (lit ''-'') (Seq (digits_rx 2) (Seq (lit ''-'')
     (Seq (digits_rx 2) (Seq (lit ''T'') (Seq (digits_rx 2) (Seq (lit '':'')
     (Seq (digits_rx 2) (Seq (lit '':'') (Seq (digits_rx 2) (lit ''Z'')))))))))))"

definition sub :: "nat \<Rightarrow> nat \<Rightarrow> string \<Rightarrow> string" where
  "sub i j s = take (j - i) (drop i s)"

text \<open>
  \<^verbatim>\<open>date.fromisoformat\<close> and \<^verbatim>\<open>datetime.strptime\<close> on a text of the right shape: they raise
  \<open>ValueError\<close> for fields out of range.
\<close>

definition date_valid_text :: "string \<Rightarrow> bool" where
  "date_valid_text s = valid_date (nat_of (sub 0 4 s)) (nat_of (sub 5 7 s)) (nat_of (sub 8 10 s))"

definition time_valid_text :: "string \<Rightarrow> bool" where
  "time_valid_text s \<longleftrightarrow> date_valid_text s \<and> nat_of (sub 11 13 s) < 24 \<and>
     nat_of (sub 14 16 s) < 60 \<and> nat_of (sub 17 19 s) < 60"

text \<open>Seconds of a time text since the calendar's start.\<close>

definition time_secs :: "string \<Rightarrow> int" where
  "time_secs s = int (((ordinal (nat_of (sub 0 4 s)) (nat_of (sub 5 7 s)) (nat_of (sub 8 10 s)) * 24
     + nat_of (sub 11 13 s)) * 60 + nat_of (sub 14 16 s)) * 60 + nat_of (sub 17 19 s))"

definition is_time :: "string \<Rightarrow> bool" where
  "is_time s \<longleftrightarrow> matches time_rx s \<and> time_valid_text s"

definition is_day :: "string \<Rightarrow> bool" where
  "is_day s \<longleftrightarrow> matches day_rx s \<and> date_valid_text s"

lemma runs_digits_rx [simp]:
  "runs (digits_rx n) w cs \<longleftrightarrow> length w = n \<and> list_all is_digit w \<and> cs = []"
  by (simp add: digits_rx_def)

lemma plain_digits_rx [simp]: "plain (digits_rx n)"
  by (simp add: digits_rx_def)

lemmas runs_Seq_digits [simp] = runs_Seq_leaf [OF runs_digits_rx [unfolded conj_assoc [symmetric]]]

lemma plain_time_rx [simp]: "plain time_rx" "plain day_rx"
  by (simp_all add: time_rx_def day_rx_def)

lemma time_rxE:
  assumes "matches time_rx s"
  obtains y mo d h mi se where "length y = 4" "length mo = 2" "length d = 2" "length h = 2"
    "length mi = 2" "length se = 2" "list_all is_digit y" "list_all is_digit mo"
    "list_all is_digit d" "list_all is_digit h" "list_all is_digit mi" "list_all is_digit se"
    "s = y @ ''-'' @ mo @ ''-'' @ d @ ''T'' @ h @ '':'' @ mi @ '':'' @ se @ ''Z''"
proof -
  from assms obtain cs where "runs time_rx s cs"
    by (auto simp: fullmatch_lang lang_def)
  then show thesis using that by (auto simp: time_rx_def)
qed

lemma sub_time:
  assumes "length y = 4" "length mo = 2" "length d = 2" "length h = 2" "length mi = 2" "length se = 2"
    and "s = y @ ''-'' @ mo @ ''-'' @ d @ ''T'' @ h @ '':'' @ mi @ '':'' @ se @ ''Z''"
  shows "sub 0 4 s = y" "sub 5 7 s = mo" "sub 8 10 s = d" "sub 11 13 s = h" "sub 14 16 s = mi"
    "sub 17 19 s = se"
  using assms by (simp_all add: sub_def)

lemma less_append_same_length:
  fixes a b c d :: string
  shows "length a = length b \<Longrightarrow> a @ c < b @ d \<longleftrightarrow> a < b \<or> a = b \<and> c < d"
  by (induction a b rule: list_induct2) auto

lemma radix_less:
  fixes a b c d k :: nat
  assumes "c < k" and "d < k"
  shows "a * k + c < b * k + d \<longleftrightarrow> a < b \<or> a = b \<and> c < d"
proof -
  consider "a < b" | "a = b" | "b < a" by linarith
  then show ?thesis
  proof cases
    case 1
    then have "Suc a * k \<le> b * k" by (intro mult_le_mono1) simp
    with assms 1 show ?thesis by simp
  next
    case 3
    then have "Suc b * k \<le> a * k" by (intro mult_le_mono1) simp
    with assms 3 show ?thesis by simp
  qed simp
qed

lemma radix_eq:
  fixes a b c d k :: nat
  assumes "c < k" and "d < k"
  shows "a * k + c = b * k + d \<longleftrightarrow> a = b \<and> c = d"
  using radix_less [OF assms] radix_less [OF assms(2,1)]
  by (metis linorder_neqE_nat nat_neq_iff)

theorem time_text_order:
  assumes "is_time s" and "is_time t"
  shows "s < t \<longleftrightarrow> time_secs s < time_secs t"
proof -
  from assms have m: "matches time_rx s" "matches time_rx t"
    and v: "time_valid_text s" "time_valid_text t" by (auto simp: is_time_def)
  from m(1) obtain y mo d h mi se where
    ls: "length y = 4" "length mo = 2" "length d = 2" "length h = 2" "length mi = 2" "length se = 2"
    and ds: "list_all is_digit y" "list_all is_digit mo" "list_all is_digit d"
      "list_all is_digit h" "list_all is_digit mi" "list_all is_digit se"
    and s: "s = y @ ''-'' @ mo @ ''-'' @ d @ ''T'' @ h @ '':'' @ mi @ '':'' @ se @ ''Z''"
    by (rule time_rxE)
  from m(2) obtain y' mo' d' h' mi' se' where
    lt: "length y' = 4" "length mo' = 2" "length d' = 2" "length h' = 2" "length mi' = 2" "length se' = 2"
    and dt: "list_all is_digit y'" "list_all is_digit mo'" "list_all is_digit d'"
      "list_all is_digit h'" "list_all is_digit mi'" "list_all is_digit se'"
    and t: "t = y' @ ''-'' @ mo' @ ''-'' @ d' @ ''T'' @ h' @ '':'' @ mi' @ '':'' @ se' @ ''Z''"
    by (rule time_rxE)
  note fs = sub_time [OF ls s] note ft = sub_time [OF lt t]
  have vd: "valid_date (nat_of y) (nat_of mo) (nat_of d)" "valid_date (nat_of y') (nat_of mo') (nat_of d')"
    and vt: "nat_of h < 24" "nat_of mi < 60" "nat_of se < 60" "nat_of h' < 24" "nat_of mi' < 60" "nat_of se' < 60"
    using v by (auto simp: time_valid_text_def date_valid_text_def fs ft)
  have "s < t \<longleftrightarrow> y < y' \<or> y = y' \<and> (mo < mo' \<or> mo = mo' \<and> (d < d' \<or> d = d' \<and>
      (h < h' \<or> h = h' \<and> (mi < mi' \<or> mi = mi' \<and> se < se'))))"
    unfolding s t using ls lt by (simp add: less_append_same_length)
  also have "\<dots> \<longleftrightarrow> time_secs s < time_secs t"
    using vt ls lt ds dt
    by (simp only: time_secs_def fs ft of_nat_less_iff radix_less radix_eq ordinal_less_iff [OF vd]
        ordinal_eq_iff [OF vd]) (simp add: nat_of_less_iff nat_of_eq_iff, blast)
  finally show ?thesis .
qed

end
