(* ===== verification/Py_Json.thy ===== *)
theory Py_Json
  imports Py_Text
begin

text \<open>
  The values that \<^verbatim>\<open>json.loads\<close> gives, and the text that \<^verbatim>\<open>json.dumps(value, indent=2, sort_keys=True)\<close>
  writes. The datatype is polymorphic in its texts and floats: the session records use \<open>string\<close> texts
  and keep a float as its \<^verbatim>\<open>repr\<close>, the schema validator uses code point lists and rational values.
\<close>

datatype ('s, 'f) jval =
    JNull
  | JBool bool
  | JInt int
  | JFloat 'f
  | JStr 's
  | JList "('s, 'f) jval list"
  | JDict "('s \<times> ('s, 'f) jval) list"

type_synonym json = "(string, string) jval"

section \<open>Type tests and member access\<close>

definition is_str :: "('s, 'f) jval \<Rightarrow> bool" where
  "is_str v = (case v of JStr _ \<Rightarrow> True | _ \<Rightarrow> False)"

definition is_bool :: "('s, 'f) jval \<Rightarrow> bool" where
  "is_bool v = (case v of JBool _ \<Rightarrow> True | _ \<Rightarrow> False)"

definition is_dict :: "('s, 'f) jval \<Rightarrow> bool" where
  "is_dict v = (case v of JDict _ \<Rightarrow> True | _ \<Rightarrow> False)"

definition is_list :: "('s, 'f) jval \<Rightarrow> bool" where
  "is_list v = (case v of JList _ \<Rightarrow> True | _ \<Rightarrow> False)"

lemma is_str_iff: "is_str v \<longleftrightarrow> (\<exists>s. v = JStr s)"
  by (cases v) (auto simp: is_str_def)

lemma is_bool_iff: "is_bool v \<longleftrightarrow> (\<exists>b. v = JBool b)"
  by (cases v) (auto simp: is_bool_def)

lemma is_dict_iff: "is_dict v \<longleftrightarrow> (\<exists>d. v = JDict d)"
  by (cases v) (auto simp: is_dict_def)

lemma is_list_iff: "is_list v \<longleftrightarrow> (\<exists>xs. v = JList xs)"
  by (cases v) (auto simp: is_list_def)

text \<open>\<^verbatim>\<open>d.get(key)\<close> with its default \<open>None\<close>, and \<^verbatim>\<open>d[key]\<close>, which raises.\<close>

definition jget :: "(string \<times> json) list \<Rightarrow> string \<Rightarrow> json" where
  "jget d k = (case dget d k of None \<Rightarrow> JNull | Some v \<Rightarrow> v)"

definition jitem :: "(string \<times> json) list \<Rightarrow> string \<Rightarrow> json res" where
  "jitem d k = (case dget d k of None \<Rightarrow> Inl (KeyError k) | Some v \<Rightarrow> Inr v)"

lemma jitem_Inr [res_simps]: "jitem d k = Inr v \<longleftrightarrow> dget d k = Some v"
  by (simp add: jitem_def split: option.splits)

text \<open>
  \<^verbatim>\<open>str(value)\<close>. The scripts only match it against patterns that start with a letter or a digit, so
  for a list or a dictionary the opening bracket, which no such pattern accepts, stands for the text.
\<close>

definition py_str :: "json \<Rightarrow> string" where
  "py_str v = (case v of
       JNull \<Rightarrow> ''None''
     | JBool b \<Rightarrow> (if b then ''True'' else ''False'')
     | JInt i \<Rightarrow> str_int i
     | JFloat t \<Rightarrow> t
     | JStr s \<Rightarrow> s
     | JList _ \<Rightarrow> ''[''
     | JDict _ \<Rightarrow> ''{'')"

text \<open>
  Python's \<^verbatim>\<open>==\<close> on such values: dictionaries compare without their order, and a Boolean is the
  integer 0 or 1. A float is kept as its \<^verbatim>\<open>repr\<close>, so floats compare by it.
\<close>

definition num_of :: "json \<Rightarrow> int option" where
  "num_of v = (case v of JBool b \<Rightarrow> Some (if b then 1 else 0) | JInt i \<Rightarrow> Some i | _ \<Rightarrow> None)"

lemma size_snd_dict: "kv \<in> set d \<Longrightarrow> size (snd kv) < size (JDict d)"
proof -
  assume "kv \<in> set d"
  then have "size_prod (\<lambda>_. 0) size kv \<le> size_list (size_prod (\<lambda>_. 0) size) d"
    by (simp add: size_list_estimation')
  then show ?thesis by (cases kv) simp
qed

lemma size_nth_list: "i < length xs \<Longrightarrow> size (xs ! i) < size (JList xs)"
  using size_list_estimation' [OF nth_mem, of i xs "size (xs ! i)" size] by simp

function py_eq :: "json \<Rightarrow> json \<Rightarrow> bool" where
  "py_eq (JDict d) w = (case w of
     JDict e \<Rightarrow> length d = length e \<and> list_all (\<lambda>kv. case dget e (fst kv) of None \<Rightarrow> False | Some x \<Rightarrow> py_eq (snd kv) x) d
   | _ \<Rightarrow> False)"
| "py_eq (JList xs) w = (case w of
     JList ys \<Rightarrow> length xs = length ys \<and> list_all (\<lambda>i. py_eq (xs ! i) (ys ! i)) [0..<length xs]
   | _ \<Rightarrow> False)"
| "py_eq (JStr s) w = (w = JStr s)"
| "py_eq (JFloat t) w = (w = JFloat t)"
| "py_eq JNull w = (w = JNull)"
| "py_eq (JBool b) w = (num_of w = Some (if b then 1 else 0))"
| "py_eq (JInt i) w = (num_of w = Some i)"
  by pat_completeness auto
termination
  by (relation "measure (\<lambda>(v, w). size v)") (auto simp: size_nth_list simp del: jval.size dest: size_snd_dict)

section \<open>Writing\<close>

definition hex_digit :: "nat \<Rightarrow> char" where
  "hex_digit n = (if n < 10 then char_of (48 + n) else char_of (87 + n))"

text \<open>One character of a string with \<^verbatim>\<open>ensure_ascii\<close>.\<close>

text \<open>\<^verbatim>\<open>repr\<close> of a text of code points below 256.\<close>

definition repr_c :: "char \<Rightarrow> char \<Rightarrow> string" where
  "repr_c q c =
     (if c = CHR 0x5C \<or> c = q then [CHR 0x5C, c]
      else if c = CHR 0x09 then [CHR 0x5C, CHR ''t'']
      else if c = nl then [CHR 0x5C, CHR ''n'']
      else if c = CHR 0x0D then [CHR 0x5C, CHR ''r'']
      else if ord_c c < 32 \<or> in_range 127 160 c \<or> ord_c c = 173
      then [CHR 0x5C, CHR ''x'', hex_digit (ord_c c div 16), hex_digit (ord_c c mod 16)]
      else [c])"

definition py_repr :: "string \<Rightarrow> string" where
  "py_repr s = (let q = (if CHR 0x27 \<in> set s \<and> CHR 0x22 \<notin> set s then CHR 0x22 else CHR 0x27)
     in q # concat (map (repr_c q) s) @ [q])"

definition quote_c :: "char \<Rightarrow> string" where
  "quote_c c =
     (if c = CHR 0x22 then [CHR 0x5C, CHR 0x22]
      else if c = CHR 0x5C then [CHR 0x5C, CHR 0x5C]
      else if ord_c c = 10 then [CHR 0x5C, CHR ''n'']
      else if ord_c c = 13 then [CHR 0x5C, CHR ''r'']
      else if ord_c c = 9 then [CHR 0x5C, CHR ''t'']
      else if ord_c c = 12 then [CHR 0x5C, CHR ''f'']
      else if ord_c c = 8 then [CHR 0x5C, CHR ''b'']
      else if in_range 32 126 c then [c]
      else [CHR 0x5C, CHR ''u'', CHR ''0'', CHR ''0'',
            hex_digit (ord_c c div 16), hex_digit (ord_c c mod 16)])"

definition quote :: "string \<Rightarrow> string" where
  "quote s = CHR 0x22 # concat (map quote_c s) @ [CHR 0x22]"

definition float_text :: "string \<Rightarrow> string" where
  "float_text t = (if t = ''inf'' then ''Infinity'' else if t = ''-inf'' then ''-Infinity''
     else if t = ''nan'' then ''NaN'' else t)"

definition margin :: "nat \<Rightarrow> string" where
  "margin n = nl # replicate n CHR '' ''"

fun dumps_at :: "nat \<Rightarrow> json \<Rightarrow> string" where
  "dumps_at n JNull = ''null''"
| "dumps_at n (JBool b) = (if b then ''true'' else ''false'')"
| "dumps_at n (JInt i) = str_int i"
| "dumps_at n (JFloat t) = float_text t"
| "dumps_at n (JStr s) = quote s"
| "dumps_at n (JList xs) =
     (if xs = [] then ''[]''
      else ''['' @ margin (n + 2) @ join ('','' @ margin (n + 2)) (map (dumps_at (n + 2)) xs)
        @ margin n @ '']'')"
| "dumps_at n (JDict kvs) =
     (if kvs = [] then ''{}''
      else ''{'' @ margin (n + 2)
        @ join ('','' @ margin (n + 2))
            (map (\<lambda>(k, t). quote k @ '': '' @ t)
              (sort_key fst (map (\<lambda>kv. (fst kv, dumps_at (n + 2) (snd kv))) kvs)))
        @ margin n @ ''}'')"

end
