(* ===== verification/Caiman.thy ===== *)
theory Caiman
  imports Py_Time Py_Json "HOL-Library.Multiset"
begin

text \<open>
  \<^verbatim>\<open>scripts/pixel/caiman.py\<close>: the strict parsers that the workshop phone checkers share, and the order
  of GrapheneOS releases. A release number is \<^verbatim>\<open>YYYYMMDDNN\<close>; \<^verbatim>\<open>NN\<close> 01 is the security preview of the
  00 release of that day and counts as it.
\<close>

definition DEVICE :: string where
  "DEVICE = ''caiman''"

text \<open>\<^verbatim>\<open>caiman.refuse\<close>: raises \<^verbatim>\<open>Refusal\<close>.\<close>

abbreviation refuse :: "string \<Rightarrow> 'a res" where
  "refuse t \<equiv> Inl (Refusal t)"

section \<open>Releases\<close>

record release =
  number :: string
  base :: string
  preview :: bool

definition RELEASE :: "char rx" where
  "RELEASE = digits_rx 10"

definition BUILD_ID :: "char rx" where
  "BUILD_ID = seqs [Sym is_upper, rep 3 (Sym (\<lambda>c. is_upper c \<or> is_digit c)), lit ''.'', digits_rx 6,
     lit ''.'', digits_rx 3, opt (seqs [lit ''.'', Sym is_upper, Sym is_digit])]"

definition SHA256 :: "char rx" where
  "SHA256 = rep 64 (Sym is_hex)"

definition parse_release :: "json \<Rightarrow> bool \<Rightarrow> release res" where
  "parse_release v allow_preview = (case v of
     JStr text \<Rightarrow>
       if \<not> matches RELEASE text then Inl (Refusal ''is not ten digits'')
       else if \<not> valid_date (nat_of (sub 0 4 text)) (nat_of (sub 4 6 text)) (nat_of (sub 6 8 text))
       then Inl (Refusal ''does not start with a calendar date'')
       else let suffix = drop 8 text in
         if suffix = ''00'' then Inr \<lparr>number = text, base = text, preview = False\<rparr>
         else if suffix = ''01'' then
           (if \<not> allow_preview then Inl (Refusal ''is a security preview, which has no public source'')
            else Inr \<lparr>number = text, base = take 8 text @ ''00'', preview = True\<rparr>)
         else Inl (Refusal ''only 00 and the security preview suffix 01 are known'')
   | _ \<Rightarrow> Inl (Refusal ''is not ten digits''))"

definition newer :: "release \<Rightarrow> release \<Rightarrow> bool" where
  "newer a b \<longleftrightarrow> nat_of (base a) > nat_of (base b)"

definition same_release :: "release \<Rightarrow> release \<Rightarrow> bool" where
  "same_release a b \<longleftrightarrow> base a = base b"

fun newest_from :: "release option \<Rightarrow> release list \<Rightarrow> release option" where
  "newest_from best [] = best"
| "newest_from best (r # rs) =
     (case best of
        None \<Rightarrow> newest_from (Some r) rs
      | Some b \<Rightarrow> if newer r b then newest_from (Some r) rs else newest_from (Some b) rs)"

definition newest :: "release list \<Rightarrow> release option" where
  "newest rs = newest_from None rs"

definition parse_build_id :: "json \<Rightarrow> string res" where
  "parse_build_id v = (case v of
     JStr text \<Rightarrow> if matches BUILD_ID text then Inr text else Inl (Refusal ''is not a stock build ID'')
   | _ \<Rightarrow> Inl (Refusal ''is not a stock build ID''))"

section \<open>android-info.txt\<close>

record android_info =
  board :: string
  bootloader :: string
  baseband :: string
  partitions :: "string list"

definition as_dict :: "android_info \<Rightarrow> json" where
  "as_dict i = JDict [(''board'', JStr (board i)), (''bootloader'', JStr (bootloader i)),
     (''baseband'', JStr (baseband i)), (''partitions'', JList (map JStr (partitions i)))]"

definition is_version_c :: "char \<Rightarrow> bool" where
  "is_version_c c \<longleftrightarrow> is_alnum c \<or> c \<in> set ''._-''"

definition require_keys :: "string list" where
  "require_keys = [''board'', ''version-bootloader'', ''version-baseband'', ''partition-exists'']"

definition REQUIRE :: "char rx" where
  "REQUIRE = seqs [lit ''require '', Grp 1 (words require_keys), lit ''='', Grp 2 (Seq (Sym is_alnum) (star (Sym is_version_c)))]"

definition bad_control :: "string \<Rightarrow> bool" where
  "bad_control text \<longleftrightarrow> CHR 0x0D \<in> set text \<or> CHR 0x00 \<in> set text \<or> CHR 0x09 \<in> set text"

definition info_lines :: "string \<Rightarrow> string list" where
  "info_lines text = (let ls = split_char nl text in if last ls = [] then butlast ls else ls)"

type_synonym info_state = "(string, string) dict \<times> string list"

definition info_line :: "info_state \<Rightarrow> string \<Rightarrow> info_state res" where
  "info_line st line = (case st of (values, parts) \<Rightarrow>
     if line = [] then Inr st
     else (case rx_fullmatch REQUIRE line of
         None \<Rightarrow> Inl (Refusal ''is not a plain requirement'')
       | Some m \<Rightarrow>
           let key = group m 1; value = group m 2 in
           if key = ''partition-exists'' then
             (if value \<in> set parts then Inl (Refusal ''repeats partition-exists'')
              else Inr (values, parts @ [value]))
           else if dget values key \<noteq> None then Inl (Refusal ''repeats'')
           else Inr (dput key value values, parts)))"

definition need_key :: "(string, string) dict \<Rightarrow> string \<Rightarrow> string res" where
  "need_key values key = (case dget values key of
     None \<Rightarrow> Inl (Refusal ''has no requirement'') | Some v \<Rightarrow> Inr v)"

definition parse_android_info :: "string \<Rightarrow> android_info res" where
  "parse_android_info data = (case decode_ascii data of
     None \<Rightarrow> Inl (Refusal ''is not ASCII'')
   | Some text \<Rightarrow>
       if bad_control text then Inl (Refusal ''contains carriage returns, tabs or NUL bytes'')
       else bnd (fold_res info_line ([], []) (info_lines text)) (\<lambda>(values, parts).
         bnd (need_key values ''board'') (\<lambda>b.
         bnd (need_key values ''version-bootloader'') (\<lambda>bl.
         bnd (need_key values ''version-baseband'') (\<lambda>bb.
           if b \<noteq> DEVICE then Inl (Refusal ''names another board'')
           else Inr \<lparr>board = b, bootloader = bl, baseband = bb, partitions = parts\<rparr>)))))"

section \<open>caiman-stable\<close>

definition CHANNEL :: "char rx" where
  "CHANNEL = seqs [Grp 1 (digits_rx 10), lit '' '', Grp 2 (between 1 12 (Sym is_digit)),
     lit ('' '' @ DEVICE @ '' stable''), opt (lit [nl])]"

definition parse_stable_channel :: "string \<Rightarrow> release res" where
  "parse_stable_channel data = (case decode_ascii data of
     None \<Rightarrow> Inl (Refusal ''is not ASCII'')
   | Some text \<Rightarrow>
       (case rx_fullmatch CHANNEL text of
          None \<Rightarrow> Inl (Refusal ''is not one line of BUILD_NUMBER TIMESTAMP caiman stable'')
        | Some m \<Rightarrow> parse_release (JStr (group m 1)) True))"

definition dump :: "json \<Rightarrow> string" where
  "dump v = dumps_at 0 v @ [nl]"

section \<open>Properties of release numbers\<close>

text \<open>What a parsed release is: ten digits that start with a date, and the base that it counts as.\<close>

definition wf_release :: "release \<Rightarrow> bool" where
  "wf_release r \<longleftrightarrow> length (number r) = 10 \<and> list_all is_digit (number r) \<and>
     valid_date (nat_of (sub 0 4 (number r))) (nat_of (sub 4 6 (number r))) (nat_of (sub 6 8 (number r))) \<and>
     base r = take 8 (number r) @ ''00'' \<and> drop 8 (number r) = (if preview r then ''01'' else ''00'')"

lemma plain_BUILD_ID [simp]: "plain BUILD_ID" "groupless BUILD_ID"
  by (simp_all add: BUILD_ID_def digits_rx_def)

lemma matches_RELEASE: "matches RELEASE s \<longleftrightarrow> length s = 10 \<and> list_all is_digit s"
  by (simp add: RELEASE_def fullmatch_lang lang_def)

lemma parse_release_not_str [simp]: "\<not> is_str v \<Longrightarrow> parse_release v ap = Inl (Refusal ''is not ten digits'')"
  by (cases v) (auto simp: parse_release_def is_str_def)

lemma parse_release_iff [res_simps]:
  "parse_release (JStr t) ap = Inr r \<longleftrightarrow> wf_release r \<and> number r = t \<and> (preview r \<longrightarrow> ap)"
proof -
  have "take 8 t @ ''00'' = t" if "length t = 10" "drop 8 t = ''00''"
    using that append_take_drop_id [of 8 t] by simp
  then show ?thesis
    by (cases r) (auto simp: parse_release_def wf_release_def matches_RELEASE Let_def split: if_splits)
qed

lemma parse_release_number: "parse_release v ap = Inr r \<Longrightarrow> v = JStr (number r) \<and> wf_release r"
proof -
  assume a: "parse_release v ap = Inr r"
  then obtain t where v: "v = JStr t"
    by (cases v) (auto simp: parse_release_def)
  with a show ?thesis by (simp add: parse_release_iff)
qed

lemma wf_release_parse: "wf_release r \<Longrightarrow> parse_release (JStr (number r)) True = Inr r"
  by (simp add: parse_release_iff)

lemma wf_release_eq: "wf_release a \<Longrightarrow> wf_release b \<Longrightarrow> number a = number b \<Longrightarrow> a = b"
  by (metis sum.inject(2) wf_release_parse)

lemma wf_release_base: "wf_release r \<Longrightarrow> length (base r) = 10 \<and> list_all is_digit (base r)"
  by (auto simp: wf_release_def list_all_iff is_digit_def in_range_def dest: in_set_takeD)

text \<open>\<open>newer\<close> is a strict order on bases, and on parsed releases its ties are the same release.\<close>

lemma newer_irrefl [simp]: "\<not> newer a a"
  by (simp add: newer_def)

lemma newer_asym: "newer a b \<Longrightarrow> \<not> newer b a"
  by (simp add: newer_def)

lemma newer_trans: "newer a b \<Longrightarrow> newer b c \<Longrightarrow> newer a c"
  by (simp add: newer_def)

lemma same_release_not_newer: "same_release a b \<Longrightarrow> \<not> newer a b"
  by (simp add: newer_def same_release_def)

lemma same_release_iff:
  "wf_release a \<Longrightarrow> wf_release b \<Longrightarrow> same_release a b \<longleftrightarrow> \<not> newer a b \<and> \<not> newer b a"
  using wf_release_base [of a] wf_release_base [of b] nat_of_eq_iff [of "base a" "base b"]
  by (auto simp: same_release_def newer_def)

lemma newer_text: "wf_release a \<Longrightarrow> wf_release b \<Longrightarrow> newer a b \<longleftrightarrow> base b < base a"
  using wf_release_base [of a] wf_release_base [of b] nat_of_less_iff [of "base b" "base a"]
  by (simp add: newer_def)

section \<open>The newest of a list\<close>

text \<open>
  The interface that the session record relies on: a strict order by a key and a selection that is
  never below any member. The session lemmas are proved from these laws.
\<close>

locale newest_of =
  fixes newer_than :: "'r \<Rightarrow> 'r \<Rightarrow> bool" and pick :: "'r list \<Rightarrow> 'r option"
  assumes irrefl: "\<not> newer_than a a"
    and trans: "newer_than a b \<Longrightarrow> newer_than b c \<Longrightarrow> newer_than a c"
    and weak: "\<not> newer_than a b \<Longrightarrow> \<not> newer_than b c \<Longrightarrow> \<not> newer_than a c"
    and pick_None: "pick rs = None \<longleftrightarrow> rs = []"
    and pick_mem: "pick rs = Some b \<Longrightarrow> b \<in> set rs"
    and pick_max: "pick rs = Some b \<Longrightarrow> r \<in> set rs \<Longrightarrow> \<not> newer_than r b"
begin

lemma pick_mono:
  assumes "pick rs = Some a" and "pick (rs @ qs) = Some b"
  shows "\<not> newer_than a b"
  using pick_max [OF assms(2)] pick_mem [OF assms(1)] by simp

lemma pick_subset:
  assumes "set rs \<subseteq> set qs" and "pick rs = Some a" and "pick qs = Some b"
  shows "\<not> newer_than a b"
  using pick_max [OF assms(3)] pick_mem [OF assms(2)] assms(1) by blast

lemma pick_snoc_newer:
  assumes "pick rs = Some a" and "newer_than r a" and "pick (rs @ [r]) = Some b"
  shows "\<not> newer_than r b \<and> \<not> newer_than b r"
proof
  show "\<not> newer_than r b" using assms(3) pick_max by simp
  show "\<not> newer_than b r"
  proof
    assume b: "newer_than b r"
    from pick_mem [OF assms(3)] consider "b = r" | "b \<in> set rs" by auto
    then show False
    proof cases
      case 1
      with b irrefl show False by simp
    next
      case 2
      with pick_max [OF assms(1)] have "\<not> newer_than b a" by blast
      moreover have "newer_than b a" using trans [OF b assms(2)] .
      ultimately show False by contradiction
    qed
  qed
qed

lemma pick_snoc_not_newer:
  assumes "pick rs = Some a" and "\<not> newer_than r a" and "pick (rs @ [r]) = Some b"
  shows "\<not> newer_than a b \<and> \<not> newer_than b a"
proof
  show "\<not> newer_than a b" using pick_mono assms(1,3) by blast
  from pick_mem [OF assms(3)] consider "b = r" | "b \<in> set rs" by auto
  then show "\<not> newer_than b a"
    using assms(2) pick_max [OF assms(1)] by cases auto
qed

end

lemma newest_from_SomeD:
  "newest_from best rs = Some b \<Longrightarrow>
   (best = Some b \<or> b \<in> set rs) \<and> (\<forall>r \<in> set rs. \<not> newer r b) \<and> (\<forall>a. best = Some a \<longrightarrow> \<not> newer a b)"
proof (induction best rs rule: newest_from.induct)
  case (1 best)
  then show ?case by auto
next
  case (2 best r rs)
  then show ?case
    by (cases best) (auto simp: newer_def split: if_splits)
qed

lemma newest_from_None [simp]: "newest_from best rs = None \<longleftrightarrow> best = None \<and> rs = []"
  by (induction best rs rule: newest_from.induct) (auto split: option.splits)

lemma newest_empty [simp]: "newest [] = None"
  by (simp add: newest_def)

interpretation rel: newest_of newer newest
proof
  show "newest rs = None \<longleftrightarrow> rs = []" for rs
    by (simp add: newest_def)
  show "newest rs = Some b \<Longrightarrow> b \<in> set rs" for rs b
    using newest_from_SomeD [of None rs b] by (auto simp: newest_def)
  show "newest rs = Some b \<Longrightarrow> r \<in> set rs \<Longrightarrow> \<not> newer r b" for rs b r
    using newest_from_SomeD [of None rs b] by (auto simp: newest_def)
qed (auto simp: newer_def)

text \<open>Among equal bases the first given wins.\<close>

lemma newest_from_first:
  "newest_from (Some a) rs = Some b \<Longrightarrow> a = b \<or>
   (\<exists>us vs. rs = us @ b # vs \<and> newer b a \<and> (\<forall>u \<in> set us. newer b u))"
proof (induction rs arbitrary: a)
  case Nil
  then show ?case by simp
next
  case (Cons r rs)
  show ?case
  proof (cases "newer r a")
    case True
    with Cons.prems have "newest_from (Some r) rs = Some b" by simp
    from Cons.IH [OF this] show ?thesis
    proof
      assume "r = b"
      with True show ?thesis by (intro disjI2 exI [of _ "[]"] exI [of _ rs]) simp
    next
      assume "\<exists>us vs. rs = us @ b # vs \<and> newer b r \<and> (\<forall>u \<in> set us. newer b u)"
      then obtain us vs where "rs = us @ b # vs" "newer b r" "\<forall>u \<in> set us. newer b u" by blast
      with True show ?thesis
        by (intro disjI2 exI [of _ "r # us"] exI [of _ vs]) (auto intro: newer_trans)
    qed
  next
    case False
    with Cons.prems have "newest_from (Some a) rs = Some b" by simp
    from Cons.IH [OF this] show ?thesis
    proof
      assume "\<exists>us vs. rs = us @ b # vs \<and> newer b a \<and> (\<forall>u \<in> set us. newer b u)"
      then obtain us vs where "rs = us @ b # vs" "newer b a" "\<forall>u \<in> set us. newer b u" by blast
      with False show ?thesis
        by (intro disjI2 exI [of _ "r # us"] exI [of _ vs]) (auto simp: newer_def)
    qed simp
  qed
qed

lemma newest_first_wins:
  assumes "newest rs = Some b"
  shows "\<exists>us vs. rs = us @ b # vs \<and> (\<forall>u \<in> set us. newer b u)"
proof (cases rs)
  case Nil
  with assms show ?thesis by simp
next
  case (Cons r qs)
  with assms have "newest_from (Some r) qs = Some b" by (simp add: newest_def)
  from newest_from_first [OF this] show ?thesis
  proof
    assume "r = b"
    with Cons show ?thesis by (intro exI [of _ "[]"] exI [of _ qs]) simp
  next
    assume "\<exists>us vs. qs = us @ b # vs \<and> newer b r \<and> (\<forall>u \<in> set us. newer b u)"
    then obtain us vs where "qs = us @ b # vs" "newer b r" "\<forall>u \<in> set us. newer b u" by blast
    with Cons show ?thesis by (intro exI [of _ "r # us"] exI [of _ vs]) auto
  qed
qed

section \<open>android-info.txt is read completely\<close>

text \<open>The lines that state a result's requirements.\<close>

definition requirement :: "string \<times> string \<Rightarrow> string" where
  "requirement kv = ''require '' @ fst kv @ ''='' @ snd kv"

definition requirement_lines :: "android_info \<Rightarrow> string list" where
  "requirement_lines i = map requirement
     ([(''board'', board i), (''version-bootloader'', bootloader i), (''version-baseband'', baseband i)]
      @ map (\<lambda>p. (''partition-exists'', p)) (partitions i))"

definition is_version :: "string \<Rightarrow> bool" where
  "is_version s \<longleftrightarrow> s \<noteq> [] \<and> is_alnum (hd s) \<and> list_all is_version_c (tl s)"

lemma is_version_Cons: "is_version v \<longleftrightarrow> (\<exists>c w. v = c # w \<and> is_alnum c \<and> list_all is_version_c w)"
  by (cases v) (auto simp: is_version_def)

lemma REQUIRE_runsE:
  assumes "runs REQUIRE line cs"
  obtains k v where "k \<in> set require_keys" "is_version v" "line = requirement (k, v)"
    "cs = [(2, v), (1, k)]"
  using assms that by (auto simp: REQUIRE_def requirement_def is_version_Cons)

lemma REQUIRE_runsI:
  assumes "k \<in> set require_keys" and "is_version v"
  shows "runs REQUIRE (requirement (k, v)) [(2, v), (1, k)]"
proof -
  have "runs (Seq (Sym is_alnum) (star (Sym is_version_c))) v []"
    using assms(2) by (auto simp: is_version_Cons)
  with assms(1) have "runs REQUIRE (''require '' @ k @ ''='' @ v) ((([(2, v)] @ []) @ [(1, k)]) @ [])"
    unfolding REQUIRE_def seqs.simps
    by (intro runs_Seq runs_Grp) auto
  then show ?thesis by (simp add: requirement_def)
qed

lemma plain_REQUIRE [simp]: "plain REQUIRE"
  by (simp add: REQUIRE_def)

lemma REQUIRE_match:
  assumes "rx_fullmatch REQUIRE line = Some m"
  shows "group m 1 \<in> set require_keys" "is_version (group m 2)" "line = requirement (group m 1, group m 2)"
proof -
  from fullmatch_runs [OF plain_REQUIRE assms] obtain k v where
    "k \<in> set require_keys" "is_version v" "line = requirement (k, v)" "caps m = [(2, v), (1, k)]"
    by (rule REQUIRE_runsE)
  then show "group m 1 \<in> set require_keys" "is_version (group m 2)" "line = requirement (group m 1, group m 2)"
    by (simp_all add: group_def grp_def)
qed

definition single_keys :: "string list" where
  "single_keys = [''board'', ''version-bootloader'', ''version-baseband'']"

lemma require_keys_single: "k \<in> set require_keys \<longleftrightarrow> k \<in> set single_keys \<or> k = ''partition-exists''"
  by (auto simp: require_keys_def single_keys_def)

lemma partition_not_single: "''partition-exists'' \<notin> set single_keys"
  by (simp add: single_keys_def)

definition info_inv :: "string list \<Rightarrow> info_state \<Rightarrow> bool" where
  "info_inv ls st = (case st of (values, parts) \<Rightarrow>
     distinct (map fst values) \<and> distinct parts \<and> fst ` set values \<subseteq> set single_keys \<and>
     mset (filter (\<lambda>l. l \<noteq> []) ls)
       = mset (map requirement values) + mset (map (\<lambda>p. requirement (''partition-exists'', p)) parts))"

lemma dput_new: "dget d k = None \<Longrightarrow> dput k v d = d @ [(k, v)]"
  by (induction d) (auto split: if_splits)

lemma info_line_inv:
  assumes "info_inv ls st" and "info_line st line = Inr st'"
  shows "info_inv (ls @ [line]) st'"
proof -
  obtain vs ps where st: "st = (vs, ps)" by force
  show ?thesis
  proof (cases "line = []")
    case True
    with assms(2) have "st' = st" by (simp add: info_line_def st)
    with assms(1) True show ?thesis by (simp add: st info_inv_def)
  next
    case False
    with assms(2) obtain m where m: "rx_fullmatch REQUIRE line = Some m"
      by (auto simp: info_line_def st split: option.splits)
    note rm = REQUIRE_match [OF m]
    show ?thesis
    proof (cases "group m 1 = ''partition-exists''")
      case True
      with assms(2) False m have "group m 2 \<notin> set ps" "st' = (vs, ps @ [group m 2])"
        by (auto simp: info_line_def st Let_def split: if_splits)
      with assms(1) True rm False show ?thesis by (auto simp: info_inv_def st)
    next
      case False
      with assms(2) \<open>line \<noteq> []\<close> m have d: "dget vs (group m 1) = None" "st' = (dput (group m 1) (group m 2) vs, ps)"
        by (auto simp: info_line_def st Let_def split: if_splits)
      have "group m 1 \<in> set single_keys" using rm(1) False by (simp add: require_keys_single)
      with assms(1) d rm(3) \<open>line \<noteq> []\<close> show ?thesis
        by (auto simp: info_inv_def st dput_new dget_None)
    qed
  qed
qed

lemma info_fold_inv: "fold_res info_line ([], []) ls = Inr st \<Longrightarrow> info_inv ls st"
proof (induction ls arbitrary: st rule: rev_induct)
  case Nil
  then show ?case by (auto simp: info_inv_def)
next
  case (snoc l ls)
  then show ?case by (auto simp: fold_res_append res_simps intro: info_line_inv)
qed

lemma single_values:
  assumes "distinct (map fst vs)" and "fst ` set vs \<subseteq> set single_keys"
    and "dget vs ''board'' = Some b" and "dget vs ''version-bootloader'' = Some bl"
    and "dget vs ''version-baseband'' = Some bb"
  shows "mset vs = mset [(''board'', b), (''version-bootloader'', bl), (''version-baseband'', bb)]"
    (is "_ = mset ?xs")
proof -
  have g: "(k, v) \<in> set vs \<longleftrightarrow> dget vs k = Some v" for k v
    using assms(1) by (simp add: map_of_eq_Some_iff)
  have "(k, v) \<in> set vs \<longleftrightarrow> (k, v) \<in> set ?xs" for k v
  proof
    assume kv: "(k, v) \<in> set vs"
    then have "k \<in> fst ` set vs" by (rule image_eqI [rotated]) simp
    then have "k \<in> set single_keys" using assms(2) by blast
    then consider "k = ''board''" | "k = ''version-bootloader''" | "k = ''version-baseband''"
      by (auto simp: single_keys_def)
    then show "(k, v) \<in> set ?xs" using kv assms(3-5) by cases (simp_all add: g)
  next
    assume "(k, v) \<in> set ?xs"
    then consider "k = ''board''" "v = b" | "k = ''version-bootloader''" "v = bl"
      | "k = ''version-baseband''" "v = bb" by auto
    then show "(k, v) \<in> set vs" using assms(3-5) by cases (simp_all add: g)
  qed
  then have "set vs = set ?xs" by auto
  moreover have "distinct vs" using assms(1) by (simp add: distinct_map)
  ultimately show ?thesis by (subst set_eq_iff_mset_eq_distinct [symmetric]) auto
qed

lemma parse_android_infoD:
  assumes "parse_android_info data = Inr i"
  shows "board i = DEVICE \<and> distinct (partitions i) \<and>
    mset (filter (\<lambda>l. l \<noteq> []) (info_lines data)) = mset (requirement_lines i)"
proof -
  from assms obtain vs where f: "fold_res info_line ([], []) (info_lines data) = Inr (vs, partitions i)"
    and b: "dget vs ''board'' = Some (board i)" "dget vs ''version-bootloader'' = Some (bootloader i)"
      "dget vs ''version-baseband'' = Some (baseband i)" and d: "board i = DEVICE"
    by (auto simp: parse_android_info_def need_key_def res_simps split: option.splits)
  from info_fold_inv [OF f] have inv: "distinct (map fst vs)" "distinct (partitions i)"
      "fst ` set vs \<subseteq> set single_keys"
    and m: "mset (filter (\<lambda>l. l \<noteq> []) (info_lines data))
      = mset (map requirement vs) + mset (map (\<lambda>p. requirement (''partition-exists'', p)) (partitions i))"
    by (auto simp: info_inv_def)
  have "mset (map requirement vs) = mset (map requirement
      [(''board'', board i), (''version-bootloader'', bootloader i), (''version-baseband'', baseband i)])"
    using single_values [OF inv(1,3) b] by (simp only: mset_map)
  with m inv d show ?thesis by (simp add: requirement_lines_def comp_def)
qed

text \<open>A file that states exactly a result's requirements, one per line, reads back as that result.\<close>

definition info_text :: "android_info \<Rightarrow> string" where
  "info_text i = concat (map (\<lambda>l. l @ [nl]) (requirement_lines i))"

definition wf_info :: "android_info \<Rightarrow> bool" where
  "wf_info i \<longleftrightarrow> board i = DEVICE \<and> is_version (bootloader i) \<and> is_version (baseband i) \<and>
     list_all is_version (partitions i) \<and> distinct (partitions i)"

lemma info_lines_text:
  assumes "\<And>l. l \<in> set ls \<Longrightarrow> nl \<notin> set l"
  shows "info_lines (concat (map (\<lambda>l. l @ [nl]) ls)) = ls"
proof -
  have "split_char nl (concat (map (\<lambda>l. l @ [nl]) ls)) = ls @ [[]]"
    using assms by (induction ls) (simp_all add: split_char_append)
  then show ?thesis by (simp add: info_lines_def)
qed

definition plain_c :: "char \<Rightarrow> bool" where
  "plain_c c \<longleftrightarrow> in_range 32 126 c"

lemma version_c_plain: "is_alnum c \<Longrightarrow> plain_c c" "is_version_c c \<Longrightarrow> plain_c c"
  by (auto simp: plain_c_def is_version_c_def char_class_defs)

lemma version_plain: "is_version v \<Longrightarrow> list_all plain_c v"
  by (auto simp: is_version_Cons list_all_iff version_c_plain)

lemma requirement_plain:
  assumes "k \<in> set require_keys" and "is_version v"
  shows "list_all plain_c (requirement (k, v))"
  using assms(1) version_plain [OF assms(2)]
  by (auto simp: requirement_def require_keys_def plain_c_def in_range_def)

lemma plain_c_facts: "plain_c c \<Longrightarrow> is_ascii c \<and> c \<noteq> nl \<and> c \<noteq> CHR 0x0D \<and> c \<noteq> CHR 0x00 \<and> c \<noteq> CHR 0x09"
  by (auto simp: plain_c_def in_range_def is_ascii_def)

lemma info_line_requirement:
  assumes "k \<in> set require_keys" and "is_version v"
  shows "info_line (vs, ps) (requirement (k, v)) =
    (if k = ''partition-exists'' then
       (if v \<in> set ps then Inl (Refusal ''repeats partition-exists'') else Inr (vs, ps @ [v]))
     else if dget vs k \<noteq> None then Inl (Refusal ''repeats'') else Inr (dput k v vs, ps))"
proof -
  have det: "ds = [(2, v), (1, k)]" if "runs REQUIRE (requirement (k, v)) ds" for ds
  proof -
    from that obtain k' v' where k': "k' \<in> set require_keys" "requirement (k, v) = requirement (k', v')"
      "ds = [(2, v'), (1, k')]" by (rule REQUIRE_runsE) auto
    have ne: "CHR ''='' \<notin> set k" "CHR ''='' \<notin> set k'"
      using assms(1) k'(1) by (auto simp: require_keys_def)
    from k'(2) have eq: "k @ CHR ''='' # v = k' @ CHR ''='' # v'"
      by (simp add: requirement_def)
    from split_char_append [OF ne(1), of v] split_char_append [OF ne(2), of v'] eq
    have "k = k'" by simp
    with eq k'(3) show ?thesis by simp
  qed
  from fullmatch_determined [OF plain_REQUIRE REQUIRE_runsI [OF assms] det] obtain m where
    m: "rx_fullmatch REQUIRE (requirement (k, v)) = Some m" "caps m = [(2, v), (1, k)]" by blast
  have "requirement (k, v) \<noteq> []" by (simp add: requirement_def)
  with m show ?thesis by (simp add: info_line_def group_def grp_def Let_def)
qed

lemma info_fold_parts:
  "list_all is_version ps \<Longrightarrow> distinct (qs @ ps) \<Longrightarrow>
   fold_res info_line (vs, qs) (map (\<lambda>p. requirement (''partition-exists'', p)) ps) = Inr (vs, qs @ ps)"
proof (induction ps arbitrary: qs)
  case Nil
  then show ?case by simp
next
  case (Cons p ps)
  then show ?case by (simp add: info_line_requirement require_keys_def)
qed

lemma info_text_plain:
  assumes "wf_info i" and "l \<in> set (requirement_lines i)"
  shows "list_all plain_c l"
proof -
  have "is_version DEVICE" by (simp add: DEVICE_def is_version_def char_class_defs is_version_c_def)
  with assms show ?thesis
    by (auto simp: requirement_lines_def wf_info_def list_all_iff [of is_version] require_keys_def
        intro!: requirement_plain)
qed

lemma parse_info_text:
  assumes "wf_info i"
  shows "parse_android_info (info_text i) = Inr i"
proof -
  note pl = info_text_plain [OF assms]
  have nonl: "nl \<notin> set l" if "l \<in> set (requirement_lines i)" for l
    using pl [OF that] plain_c_facts by (auto simp: list_all_iff)
  have pc: "c = nl \<or> plain_c c" if "c \<in> set (info_text i)" for c
    using that pl by (auto simp: info_text_def list_all_iff split: if_splits)
  have asc: "list_all is_ascii (info_text i)"
    using pc plain_c_facts by (fastforce simp: list_all_iff is_ascii_def)
  have ctl: "\<not> bad_control (info_text i)"
    using pc plain_c_facts unfolding bad_control_def by fastforce
  have dev: "is_version DEVICE" by (simp add: DEVICE_def is_version_def char_class_defs is_version_c_def)
  have il: "info_lines (info_text i) = requirement_lines i"
    unfolding info_text_def by (rule info_lines_text) (rule nonl)
  have "fold_res info_line ([], []) (info_lines (info_text i)) =
      Inr ([(''board'', board i), (''version-bootloader'', bootloader i), (''version-baseband'', baseband i)],
        partitions i)"
    unfolding il using assms dev
    by (simp add: requirement_lines_def wf_info_def info_line_requirement require_keys_def comp_def
        info_fold_parts [where qs = "[]", simplified])
  with asc ctl assms show ?thesis
    by (simp add: parse_android_info_def decode_ascii_def need_key_def wf_info_def)
qed

lemma info_line_versions:
  assumes "info_line (vs, ps) line = Inr (vs', ps')" and "list_all (\<lambda>kv. is_version (snd kv)) vs" and "list_all is_version ps"
  shows "list_all (\<lambda>kv. is_version (snd kv)) vs' \<and> list_all is_version ps'"
proof (cases "line = []")
  case True
  with assms show ?thesis by (simp add: info_line_def)
next
  case False
  with assms(1) obtain m where m: "rx_fullmatch REQUIRE line = Some m"
    by (auto simp: info_line_def split: option.splits)
  note rm = REQUIRE_match [OF m]
  from False m assms rm(2) show ?thesis
    by (auto simp: info_line_def Let_def dput_new split: if_split_asm)
qed

lemma parse_wf_info:
  assumes "parse_android_info data = Inr i"
  shows "wf_info i"
proof -
  from assms obtain vs where f: "fold_res info_line ([], []) (info_lines data) = Inr (vs, partitions i)"
    and b: "dget vs ''version-bootloader'' = Some (bootloader i)" "dget vs ''version-baseband'' = Some (baseband i)"
    by (auto simp: parse_android_info_def need_key_def res_simps split: option.splits)
  have "case (vs, partitions i) of (vs, ps) \<Rightarrow> list_all (\<lambda>kv. is_version (snd kv)) vs \<and> list_all is_version ps"
  proof (rule fold_res_inv [OF f])
    fix s :: info_state and x :: string and t :: info_state
    assume "case s of (vs, ps) \<Rightarrow> list_all (\<lambda>kv. is_version (snd kv)) vs \<and> list_all is_version ps" "info_line s x = Inr t"
    then show "case t of (vs, ps) \<Rightarrow> list_all (\<lambda>kv. is_version (snd kv)) vs \<and> list_all is_version ps"
      using info_line_versions by (cases s; cases t) fastforce
  qed simp
  with b map_of_SomeD parse_android_infoD [OF assms] show ?thesis
    by (fastforce simp: wf_info_def list_all_iff)
qed

section \<open>The properties\<close>

lemma newest_first_max:
  "newest rs = Some b \<longleftrightarrow>
     (\<exists>us vs. rs = us @ b # vs \<and> (\<forall>u \<in> set us. newer b u) \<and> (\<forall>v \<in> set vs. \<not> newer v b))"
proof
  assume a: "newest rs = Some b"
  from newest_first_wins [OF a] obtain us vs where "rs = us @ b # vs" "\<forall>u \<in> set us. newer b u" by blast
  with rel.pick_max [OF a] show "\<exists>us vs. rs = us @ b # vs \<and> (\<forall>u \<in> set us. newer b u) \<and> (\<forall>v \<in> set vs. \<not> newer v b)"
    by (intro exI [of _ us] exI [of _ vs]) simp
next
  assume "\<exists>us vs. rs = us @ b # vs \<and> (\<forall>u \<in> set us. newer b u) \<and> (\<forall>v \<in> set vs. \<not> newer v b)"
  then obtain us vs where rs: "rs = us @ b # vs" and us: "\<forall>u \<in> set us. newer b u"
    and vs: "\<forall>v \<in> set vs. \<not> newer v b" by blast
  obtain c where c: "newest rs = Some c" using rel.pick_None [of rs] rs by (cases "newest rs") auto
  from newest_first_wins [OF c] obtain us' vs' where rs': "rs = us' @ c # vs'" and us': "\<forall>u \<in> set us'. newer c u"
    by blast
  have nb: "\<not> newer b c" using rel.pick_max [OF c] rs by simp
  have "c \<notin> set us" using us nb by blast
  moreover have "b \<notin> set us'" using us' rel.pick_max [OF c] vs us rs rs' newer_asym
    by (metis Un_iff in_set_conv_decomp list.set_intros(1) newer_irrefl set_ConsD set_append)
  ultimately have "b = c"
    using rs rs' by (auto simp: append_eq_append_conv2 append_eq_Cons_conv Cons_eq_append_conv)
  with c show "newest rs = Some b" by simp
qed

text \<open>
  \<^verbatim>\<open>newest\<close> returns the first release of the list that no release of the list is newer than, and
  None for an empty list only.
\<close>

lemma newest_spec:
  "(newest rs = None \<longleftrightarrow> rs = []) \<and>
   (newest rs = Some b \<longleftrightarrow>
     (\<exists>us vs. rs = us @ b # vs \<and> list_all (newer b) us \<and> \<not> list_ex (\<lambda>v. newer v b) vs))"
  using rel.pick_None newest_first_max [of rs b] by (auto simp: list_all_iff list_ex_iff)

text \<open>
  C37: a JSON value parses as a release exactly when it is a text of ten digits whose first eight are a
  calendar date and whose last two say final or, where allowed, preview; among parsed releases newer
  is the text order of the bases, a strict order whose ties are the same release.
\<close>

theorem parse_release_spec:
  "(parse_release v ap = Inr r \<longleftrightarrow> v = JStr (number r) \<and> wf_release r \<and> (preview r \<longrightarrow> ap)) \<and>
   (parse_release v ap = Inr r \<and> parse_release w bp = Inr q \<longrightarrow>
      (newer r q \<longleftrightarrow> base q < base r) \<and> (same_release r q \<longleftrightarrow> \<not> newer r q \<and> \<not> newer q r))"
proof -
  have "parse_release v ap = Inr r \<longleftrightarrow> v = JStr (number r) \<and> wf_release r \<and> (preview r \<longrightarrow> ap)"
    using parse_release_number [of v ap r] by (auto simp: parse_release_iff)
  moreover have "wf_release r" "wf_release q" if "parse_release v ap = Inr r" "parse_release w bp = Inr q"
    using that parse_release_number by blast+
  ultimately show ?thesis using newer_text same_release_iff by metis
qed

definition sample_release :: release where
  "sample_release = \<lparr>number = ''2026010200'', base = ''2026010200'', preview = False\<rparr>"

theorem parse_release_spec_witness:
  "parse_release (JStr ''2026010200'') False = Inr sample_release \<and> \<not> newer sample_release sample_release"
proof -
  have "wf_release sample_release" by code_simp
  then have p: "parse_release (JStr ''2026010200'') False = Inr sample_release"
    using parse_release_spec [of "JStr ''2026010200''" False sample_release]
    by (simp add: sample_release_def)
  with parse_release_spec [of "JStr ''2026010200''" False sample_release "JStr ''2026010200''" False sample_release]
  show ?thesis by auto
qed

text \<open>
  C34: when \<^verbatim>\<open>parse_android_info\<close> accepts a file, its non-empty lines are exactly the requirements of the
  result, each once and nothing else; the board is the supported device.
\<close>

theorem android_info_exact:
  assumes "parse_android_info data = Inr i"
  shows "board i = DEVICE \<and> distinct (partitions i) \<and>
    mset (filter (\<lambda>l. l \<noteq> []) (info_lines data)) = mset (requirement_lines i)"
  by (rule parse_android_infoD) (rule assms)

definition sample_info :: android_info where
  "sample_info = \<lparr>board = ''caiman'', bootloader = ''ripcurrentpro-16.0-1'', baseband = ''g5400c-1'',
     partitions = [''product'', ''vendor'']\<rparr>"

lemma wf_sample_info: "wf_info sample_info"
  by code_simp

theorem android_info_exact_witness:
  "parse_android_info (info_text sample_info) = Inr sample_info \<and>
   mset (filter (\<lambda>l. l \<noteq> []) (info_lines (info_text sample_info))) = mset (requirement_lines sample_info)"
  using android_info_exact [OF parse_info_text [OF wf_sample_info]] parse_info_text [OF wf_sample_info]
  by simp

text \<open>C38: printing the requirements of a well-formed record and parsing them gives the record back.\<close>

theorem android_info_round_trip:
  assumes "wf_info i"
  shows "parse_android_info (info_text i) = Inr i"
  by (rule parse_info_text) (rule assms)

theorem android_info_round_trip_witness:
  "wf_info sample_info \<and> parse_android_info (info_text sample_info) = Inr sample_info"
  using android_info_round_trip [OF wf_sample_info] wf_sample_info by simp

end
