(* ===== verification/Vbmeta.thy ===== *)
theory Vbmeta
  imports Caiman
begin

text \<open>
  The part of \<^verbatim>\<open>scripts/pixel/install_zip.py\<close> that reads a vbmeta image: the parser of its header and
  descriptors, the identity that its signed fingerprints give and the images that it describes. Bytes
  are a \<open>string\<close>; the integers of \<^verbatim>\<open>struct.unpack\<close> are unbounded in Python once they are read, so
  they are \<open>nat\<close>, and no sum below can wrap around.
\<close>

section \<open>Big-endian structures\<close>

definition be :: "string \<Rightarrow> nat" where
  "be s = foldl (\<lambda>a c. a * 256 + ord_c c) 0 s"

text \<open>The formats of \<^verbatim>\<open>struct\<close> that the source uses: \<^verbatim>\<open>L\<close>, \<^verbatim>\<open>Q\<close>, \<^verbatim>\<open>ns\<close> and the padding \<^verbatim>\<open>nx\<close>.\<close>

datatype fmt = FL | FQ | FS nat | FX nat

datatype field = Num nat | Raw string

fun fmt_size :: "fmt \<Rightarrow> nat" where
  "fmt_size FL = 4"
| "fmt_size FQ = 8"
| "fmt_size (FS n) = n"
| "fmt_size (FX n) = n"

fun fmt_value :: "fmt \<Rightarrow> string \<Rightarrow> field list" where
  "fmt_value FL s = [Num (be s)]"
| "fmt_value FQ s = [Num (be s)]"
| "fmt_value (FS n) s = [Raw s]"
| "fmt_value (FX n) s = []"

primrec unpack :: "fmt list \<Rightarrow> string \<Rightarrow> field list" where
  "unpack [] s = []"
| "unpack (f # fs) s = fmt_value f (take (fmt_size f) s) @ unpack fs (drop (fmt_size f) s)"

definition num :: "field list \<Rightarrow> nat \<Rightarrow> nat" where
  "num fs i = (if i < length fs then (case fs ! i of Num n \<Rightarrow> n | Raw _ \<Rightarrow> 0) else 0)"

definition slice :: "nat \<Rightarrow> nat \<Rightarrow> 'a list \<Rightarrow> 'a list" where
  "slice from to s = take (to - from) (drop from s)"

section \<open>Decoded text\<close>

text \<open>
  \<^verbatim>\<open>bytes.decode('utf-8', 'replace')\<close>: each maximal part of an ill-formed sequence becomes U+FFFD.
\<close>

definition conts :: "nat \<Rightarrow> (nat \<times> nat) list" where
  "conts a =
     (if 0xC2 \<le> a \<and> a \<le> 0xDF then [(0x80, 0xBF)]
      else if a = 0xE0 then [(0xA0, 0xBF), (0x80, 0xBF)]
      else if a = 0xED then [(0x80, 0x9F), (0x80, 0xBF)]
      else if 0xE1 \<le> a \<and> a \<le> 0xEF then [(0x80, 0xBF), (0x80, 0xBF)]
      else if a = 0xF0 then [(0x90, 0xBF), (0x80, 0xBF), (0x80, 0xBF)]
      else if 0xF1 \<le> a \<and> a \<le> 0xF3 then [(0x80, 0xBF), (0x80, 0xBF), (0x80, 0xBF)]
      else if a = 0xF4 then [(0x80, 0x8F), (0x80, 0xBF), (0x80, 0xBF)]
      else [])"

fun matched :: "(nat \<times> nat) list \<Rightarrow> nat list \<Rightarrow> nat" where
  "matched ((lo, hi) # rs) (b # bs) = (if lo \<le> b \<and> b \<le> hi then Suc (matched rs bs) else 0)"
| "matched rs bs = 0"

definition lead_bits :: "nat \<Rightarrow> nat" where
  "lead_bits a = (if a < 0xE0 then a - 0xC0 else if a < 0xF0 then a - 0xE0 else a - 0xF0)"

definition REPLACEMENT :: nat where
  "REPLACEMENT = 0xFFFD"

function decode_replace :: "nat list \<Rightarrow> nat list" where
  "decode_replace [] = []"
| "decode_replace (a # s) =
     (if a < 0x80 then a # decode_replace s
      else let n = matched (conts a) s in
        (if conts a \<noteq> [] \<and> n = length (conts a)
         then foldl (\<lambda>v b. v * 64 + (b - 0x80)) (lead_bits a) (take n s)
         else REPLACEMENT) # decode_replace (drop n s))"
  by pat_completeness auto
termination by (relation "measure length") auto

text \<open>
  A decoded text is kept as a \<open>string\<close>: a code point below 256 is itself, and of the others only
  whether \<^verbatim>\<open>\s\<close> matches them, as the no-break space or as a letter outside ASCII. The checks compare
  these texts with ASCII patterns and with each other through such patterns only.
\<close>

definition wide_space :: "nat \<Rightarrow> bool" where
  "wide_space n \<longleftrightarrow> n = 0x1680 \<or> 0x2000 \<le> n \<and> n \<le> 0x200A \<or> n \<in> {0x2028, 0x2029, 0x202F, 0x205F, 0x3000}"

definition narrow :: "nat \<Rightarrow> char" where
  "narrow n = (if n < 256 then char_of n else if wide_space n then CHR 0xA0 else CHR 0xFF)"

definition decode_text :: "string \<Rightarrow> string" where
  "decode_text b = map narrow (decode_replace (map ord_c b))"

section \<open>Descriptors\<close>

datatype descriptor =
    Property string string
  | Hash bool string nat
  | Kernel_cmdline
  | Chain string
  | Unknown nat

text \<open>\<^const>\<open>Hash\<close> \<open>tree name digest_size\<close> is a hashtree descriptor if \<open>tree\<close>, else a hash descriptor.\<close>

definition named :: "string \<Rightarrow> nat \<Rightarrow> fmt list \<Rightarrow> field list res" where
  "named raw fixed layout = (if length raw < fixed then refuse ''descriptor is cut short'' else Inr (unpack layout (take fixed raw)))"

definition property_layout :: "fmt list" where
  "property_layout = [FQ, FQ, FQ, FQ]"

definition hashtree_layout :: "fmt list" where
  "hashtree_layout = [FQ, FQ, FL, FQ, FQ, FQ, FL, FL, FL, FQ, FQ, FS 32, FL, FL, FL, FL, FS 60]"

definition hash_layout :: "fmt list" where
  "hash_layout = [FQ, FQ, FQ, FS 32, FL, FL, FL, FL, FS 60]"

definition cmdline_layout :: "fmt list" where
  "cmdline_layout = [FQ, FQ, FL, FL]"

definition chain_layout :: "fmt list" where
  "chain_layout = [FQ, FQ, FL, FL, FL, FL, FS 60]"

definition hash_descriptor :: "bool \<Rightarrow> string \<Rightarrow> nat \<Rightarrow> nat \<Rightarrow> nat \<Rightarrow> nat \<Rightarrow> descriptor res" where
  "hash_descriptor tree raw fixed name_size salt_size digest_size =
     (if fixed + name_size + salt_size + digest_size > length raw then refuse ''descriptor is malformed''
      else Inr (Hash tree (decode_text (slice fixed (fixed + name_size) raw)) digest_size))"

definition read_descriptor :: "nat \<Rightarrow> string \<Rightarrow> descriptor res" where
  "read_descriptor tag raw =
     (if tag = 0 then
        bnd (named raw 32 property_layout) (\<lambda>fs.
          let key_size = num fs 2; value_size = num fs 3 in
          if 32 + key_size + 1 + value_size + 1 > length raw then refuse ''property descriptor is malformed''
          else Inr (Property (decode_text (slice 32 (32 + key_size) raw))
                 (decode_text (slice (33 + key_size) (33 + key_size + value_size) raw))))
      else if tag = 1 then
        bnd (named raw 180 hashtree_layout) (\<lambda>fs. hash_descriptor True raw 180 (num fs 12) (num fs 13) (num fs 14))
      else if tag = 2 then
        bnd (named raw 132 hash_layout) (\<lambda>fs. hash_descriptor False raw 132 (num fs 4) (num fs 5) (num fs 6))
      else if tag = 3 then bnd (named raw 24 cmdline_layout) (\<lambda>_. Inr Kernel_cmdline)
      else if tag = 4 then
        bnd (named raw 92 chain_layout) (\<lambda>fs. Inr (Chain (decode_text (slice 92 (92 + num fs 3) raw))))
      else Inr (Unknown tag))"

section \<open>The image\<close>

record vbmeta =
  algorithm :: nat
  rollback_index :: nat
  vflags :: nat
  rollback_index_location :: nat
  public_key :: string
  descriptors :: "descriptor list"

definition header_layout :: "fmt list" where
  "header_layout = [FS 4, FL, FL, FQ, FQ, FL, FQ, FQ, FQ, FQ, FQ, FQ, FQ, FQ, FQ, FQ, FQ, FL, FL, FS 47, FX 1, FX 80]"

text \<open>The loop over the descriptors, on what is left of the blob from \<^verbatim>\<open>position\<close> on.\<close>

function walk :: "string \<Rightarrow> descriptor list res" where
  "walk blob =
     (if blob = [] then Inr []
      else if length blob < 16 then refuse ''a vbmeta descriptor header is cut short''
      else let fs = unpack [FQ, FQ] (take 16 blob); tag = num fs 0; following = num fs 1 in
        if following mod 8 \<noteq> 0 \<or> 16 + following > length blob then refuse ''a vbmeta descriptor is malformed''
        else bnd (read_descriptor tag (take (16 + following) blob)) (\<lambda>d.
          bnd (walk (drop (16 + following) blob)) (\<lambda>ds. Inr (d # ds))))"
  by pat_completeness auto
termination by (relation "measure length") auto

declare walk.simps [simp del]

definition parse_vbmeta :: "string \<Rightarrow> vbmeta res" where
  "parse_vbmeta data =
     (if length data < 256 then refuse ''vbmeta.img is shorter than its header''
      else
        let fs = unpack header_layout (take 256 data);
          auth_size = num fs 3; aux_size = num fs 4; algorithm = num fs 5;
          hash_offset = num fs 6; hash_size = num fs 7; signature_offset = num fs 8; signature_size = num fs 9;
          key_offset = num fs 10; key_size = num fs 11; descriptors_offset = num fs 14; descriptors_size = num fs 15
        in
        if fs ! 0 \<noteq> Raw ''AVB0'' then refuse ''vbmeta.img does not start with AVB0''
        else if auth_size mod 64 \<noteq> 0 \<or> aux_size mod 64 \<noteq> 0 \<or> 256 + auth_size + aux_size > length data
        then refuse ''vbmeta.img block sizes are malformed''
        else if hash_offset + hash_size > auth_size \<or> signature_offset + signature_size > auth_size
          \<or> key_offset + key_size > aux_size \<or> descriptors_offset + descriptors_size > aux_size
        then refuse ''vbmeta.img points outside its blocks''
        else
          let aux = slice (256 + auth_size) (256 + auth_size + aux_size) data in
          bnd (walk (slice descriptors_offset (descriptors_offset + descriptors_size) aux)) (\<lambda>ds.
            Inr \<lparr>algorithm = algorithm, rollback_index = num fs 16, vflags = num fs 17,
              rollback_index_location = num fs 18, public_key = slice key_offset (key_offset + key_size) aux,
              descriptors = ds\<rparr>))"

section \<open>The identity inside a vbmeta\<close>

definition not_slash :: "char \<Rightarrow> bool" where
  "not_slash c \<longleftrightarrow> c \<noteq> CHR ''/'' \<and> \<not> is_space c"

definition not_slash_colon :: "char \<Rightarrow> bool" where
  "not_slash_colon c \<longleftrightarrow> not_slash c \<and> c \<noteq> CHR '':''"

definition part_c :: "char \<Rightarrow> bool" where
  "part_c c \<longleftrightarrow> is_lower c \<or> is_digit c \<or> c = CHR ''_''"

definition FINGERPRINT_KEY :: "char rx" where
  "FINGERPRINT_KEY = seqs [lit ''com.android.build.'', Grp 1 (plus (Sym part_c)), lit ''.fingerprint'']"

definition FINGERPRINT :: "char rx" where
  "FINGERPRINT = seqs [Grp 1 (plus (Sym not_slash)), lit ''/'', Grp 2 (plus (Sym not_slash)), lit ''/'',
     Grp 3 (plus (Sym not_slash_colon)), lit '':'', Grp 4 (plus (Sym not_slash)), lit ''/'', Grp 5 BUILD_ID, lit ''/'',
     Grp 6 (digits_rx 10), lit '':'', Grp 7 (plus (Sym is_lower)), lit ''/'', Grp 8 (plus (Sym (\<lambda>c. is_lower c \<or> c = CHR ''-'')))]"

definition PARTITION :: "char rx" where
  "PARTITION = between 1 64 (Sym part_c)"

definition ANDRIX_FINGERPRINT :: "char rx" where
  "ANDRIX_FINGERPRINT = seqs [plus (Sym not_slash), lit ''/'', plus (Sym not_slash), lit ''/'',
     Grp 1 (plus (Sym not_slash_colon)), lit '':'', plus (Sym not_slash), lit ''/'', Grp 2 BUILD_ID, lit ''/'',
     plus (Sym is_version_c), lit '':'', Grp 3 (words [''user'', ''userdebug'']), lit ''/'',
     Grp 4 (plus (Sym (\<lambda>c. is_lower c \<or> c = CHR ''-'')))]"

definition fingerprint_step :: "(string, string) dict \<Rightarrow> descriptor \<Rightarrow> (string, string) dict res" where
  "fingerprint_step found d = (case d of
     Property key value \<Rightarrow>
       (case rx_fullmatch FINGERPRINT_KEY key of
          None \<Rightarrow> Inr found
        | Some m \<Rightarrow>
            if dget found (group m 1) \<noteq> None then refuse ''vbmeta repeats the fingerprint''
            else Inr (dput (group m 1) value found))
   | _ \<Rightarrow> Inr found)"

definition read_fingerprint :: "string \<times> string \<Rightarrow> (string \<times> string) res" where
  "read_fingerprint pv = (case rx_fullmatch FINGERPRINT (snd pv) of
     None \<Rightarrow> refuse ''is not a build fingerprint''
   | Some m \<Rightarrow>
       if group m 3 \<noteq> DEVICE \<or> group m 7 \<noteq> ''user'' \<or> group m 8 \<noteq> ''release-keys''
       then refuse ''is not a user release-keys build of the device''
       else Inr (group m 6, group m 5))"

definition build_identity :: "vbmeta \<Rightarrow> (release \<times> string \<times> string list) res" where
  "build_identity v =
     bnd (fold_res fingerprint_step [] (descriptors v)) (\<lambda>found.
       if dget found ''system'' = None then refuse ''vbmeta carries no system fingerprint''
       else bnd (map_res read_fingerprint (sort_key fst found)) (\<lambda>pairs.
         case (remdups (map fst pairs), remdups (map snd pairs)) of
           ([no], [build]) \<Rightarrow>
             bnd (parse_release (JStr no) True) (\<lambda>inside. Inr (inside, build, sort (map fst found)))
         | _ \<Rightarrow> refuse ''the fingerprints inside the zip disagree''))"

record identity_report =
  build_number :: string
  stock_build :: string
  stable_number :: string
  fingerprints :: "string list"

definition check_release_identity :: "vbmeta \<Rightarrow> release \<Rightarrow> release \<Rightarrow> string option \<Rightarrow> identity_report res" where
  "check_release_identity v rel stab record_stock =
     bnd (build_identity v) (\<lambda>(inside, stock, names).
       if number inside \<noteq> number rel then refuse ''the build number inside the zip is not the expected one''
       else if (case record_stock of None \<Rightarrow> False | Some s \<Rightarrow> stock \<noteq> s)
       then refuse ''the zip is built from another stock build than adevtool records''
       else if newer inside stab then refuse ''caiman-stable is older than the zip release''
       else Inr \<lparr>build_number = number inside, stock_build = stock, stable_number = number stab,
         fingerprints = names\<rparr>)"

definition image_step :: "string list \<Rightarrow> descriptor \<Rightarrow> string list res" where
  "image_step images d = (case d of
     Chain p \<Rightarrow> refuse ''vbmeta chains to a partition''
   | Unknown t \<Rightarrow> refuse ''vbmeta has a descriptor with unknown tag''
   | Hash tree name digest_size \<Rightarrow>
       if \<not> matches PARTITION name \<or> name \<in> set images \<or> name = ''vbmeta''
       then refuse ''vbmeta names a partition that is malformed or repeated''
       else if digest_size = 0 then refuse ''the descriptor has no digest''
       else Inr (images @ [name])
   | _ \<Rightarrow> Inr images)"

definition images_to_verify :: "vbmeta \<Rightarrow> string list res" where
  "images_to_verify v = fold_res image_step [] (descriptors v)"

definition property_values :: "string \<Rightarrow> vbmeta \<Rightarrow> string list" where
  "property_values key v = concat (map (\<lambda>d. case d of Property k x \<Rightarrow> if k = key then [x] else [] | _ \<Rightarrow> []) (descriptors v))"

definition andrix_base_tag :: "vbmeta \<Rightarrow> release res" where
  "andrix_base_tag v = (case property_values ''com.andrix.build.base_tag'' v of
     [tag] \<Rightarrow> parse_release (JStr tag) False
   | _ \<Rightarrow> refuse ''the Andrix zip carries no single signed base tag property'')"

definition fingerprint_values :: "vbmeta \<Rightarrow> string list" where
  "fingerprint_values v =
     concat (map (\<lambda>d. case d of Property k x \<Rightarrow> if matches FINGERPRINT_KEY k then [x] else [] | _ \<Rightarrow> []) (descriptors v))"

definition andrix_stock_build :: "vbmeta \<Rightarrow> string res" where
  "andrix_stock_build v =
     (let parsed = map (rx_fullmatch ANDRIX_FINGERPRINT) (fingerprint_values v); ms = map the parsed in
      if parsed = [] \<or> None \<in> set parsed \<or> remdups (map (\<lambda>m. group m 1) ms) \<noteq> [DEVICE]
        \<or> remdups (map (\<lambda>m. group m 4) ms) \<noteq> [''release-keys''] \<or> length (remdups (map (\<lambda>m. group m 2) ms)) \<noteq> 1
      then refuse ''the Andrix fingerprints are not one caiman release-keys build''
      else Inr (group (hd ms) 2))"

text \<open>\<^verbatim>\<open>patch_timestamp\<close>: midnight of a patch level in GMT, in seconds of the epoch.\<close>

definition patch_timestamp :: "json \<Rightarrow> int res" where
  "patch_timestamp v = (case v of
     JStr t \<Rightarrow>
       if \<not> is_day t then refuse ''is not YYYY-MM-DD''
       else Inr ((int (ordinal (nat_of (sub 0 4 t)) (nat_of (sub 5 7 t)) (nat_of (sub 8 10 t))) - int (ordinal 1970 1 1)) * 86400)
   | _ \<Rightarrow> refuse ''is not YYYY-MM-DD'')"

section \<open>Integers and layouts\<close>

lemma be_Nil [simp]: "be [] = 0"
  by (simp add: be_def)

lemma be_snoc [simp]: "be (s @ [c]) = be s * 256 + ord_c c"
  by (simp add: be_def)

primrec be_bytes :: "nat \<Rightarrow> nat \<Rightarrow> string" where
  "be_bytes 0 n = []"
| "be_bytes (Suc w) n = be_bytes w (n div 256) @ [char_of n]"

lemma length_be_bytes [simp]: "length (be_bytes w n) = w"
  by (induction w arbitrary: n) auto

lemma be_be_bytes: "n < 256 ^ w \<Longrightarrow> be (be_bytes w n) = n"
proof (induction w arbitrary: n)
  case (Suc w)
  then have "n div 256 < 256 ^ w" by (simp add: less_mult_imp_div_less mult.commute)
  with Suc.IH show ?case by simp
qed simp

lemma be_less: "be s < 256 ^ length s"
proof (induction s rule: rev_induct)
  case (snoc c s)
  have "be s + 1 \<le> 256 ^ length s" using snoc by simp
  then have "(be s + 1) * 256 \<le> 256 ^ length s * 256" by (rule mult_right_mono) simp
  then have "be s * 256 + 256 \<le> 256 ^ length (s @ [c])" by simp
  with nat_of_char_less_256 [of c] show ?case unfolding be_snoc by linarith
qed simp

lemma unpack_append:
  assumes "length b = fmt_size f"
  shows "unpack (f # fs) (b @ r) = fmt_value f b @ unpack fs r"
  using assms by simp

lemma slice_append: "length a = from \<Longrightarrow> length b = to - from \<Longrightarrow> slice from to (a @ b @ c) = b"
  by (simp add: slice_def)

section \<open>The descriptors tile their block\<close>

definition describes :: "string \<Rightarrow> descriptor \<Rightarrow> bool" where
  "describes raw d \<longleftrightarrow> 16 \<le> length raw \<and> length raw mod 8 = 0 \<and>
     be (slice 8 16 raw) = length raw - 16 \<and> read_descriptor (be (take 8 raw)) raw = Inr d"

lemma head_fields:
  "num (unpack [FQ, FQ] (take 16 blob)) 0 = be (take 8 blob)"
  "num (unpack [FQ, FQ] (take 16 blob)) 1 = be (take 8 (drop 8 blob))"
  by (simp_all add: num_def drop_take)

lemma walk_step:
  "walk blob =
     (if blob = [] then Inr []
      else if length blob < 16 then refuse ''a vbmeta descriptor header is cut short''
      else if be (take 8 (drop 8 blob)) mod 8 \<noteq> 0 \<or> 16 + be (take 8 (drop 8 blob)) > length blob
      then refuse ''a vbmeta descriptor is malformed''
      else bnd (read_descriptor (be (take 8 blob)) (take (16 + be (take 8 (drop 8 blob))) blob)) (\<lambda>d.
        bnd (walk (drop (16 + be (take 8 (drop 8 blob))) blob)) (\<lambda>ds. Inr (d # ds))))"
  by (subst walk.simps) (simp only: Let_def head_fields)

lemma walk_tiles:
  "walk blob = Inr ds \<Longrightarrow> \<exists>raws. concat raws = blob \<and> list_all2 describes raws ds"
proof (induction blob arbitrary: ds rule: measure_induct_rule [of length])
  case (less blob)
  show ?case
  proof (cases "blob = []")
    case True
    with less.prems show ?thesis by (auto simp: walk.simps [of "[]"] intro!: exI [of _ "[]"])
  next
    case False
    let ?tag = "be (take 8 blob)" and ?n = "be (take 8 (drop 8 blob))"
    from less.prems False obtain d ds' where w: "16 \<le> length blob" "?n mod 8 = 0" "16 + ?n \<le> length blob"
      "read_descriptor ?tag (take (16 + ?n) blob) = Inr d" "walk (drop (16 + ?n) blob) = Inr ds'" "ds = d # ds'"
      unfolding walk_step [of blob] if_not_P [OF False] if_Inl_eq_Inr bnd_eq_Inr by (auto simp: not_less)
    have "\<exists>raws. concat raws = drop (16 + ?n) blob \<and> list_all2 describes raws ds'"
      using w(1,5) by (intro less.IH) simp_all
    then obtain raws where r: "concat raws = drop (16 + ?n) blob" "list_all2 describes raws ds'" by blast
    have "describes (take (16 + ?n) blob) d"
    proof -
      have "take 8 (take (16 + ?n) blob) = take 8 blob" by simp
      moreover have "slice 8 16 (take (16 + ?n) blob) = take 8 (drop 8 blob)"
        by (simp add: slice_def drop_take)
      moreover have "(16 + ?n) mod 8 = 0" using w(2) by presburger
      ultimately show ?thesis using w by (simp add: describes_def)
    qed
    with r w(6) show ?thesis
      by (intro exI [of _ "take (16 + ?n) blob # raws"]) simp
  qed
qed

lemma parse_vbmetaE:
  assumes "parse_vbmeta data = Inr v"
  obtains auth aux koff ksize doff dsize where
    "take 4 data = ''AVB0''" "256 + auth + aux \<le> length data" "koff + ksize \<le> aux" "doff + dsize \<le> aux"
    "public_key v = take ksize (drop (256 + auth + koff) data)"
    "walk (take dsize (drop (256 + auth + doff) data)) = Inr (descriptors v)"
proof -
  define fs where "fs = unpack header_layout (take 256 data)"
  have aux: "slice o' (o' + n) (slice (256 + a) (256 + a + x) data) = take n (drop (256 + a + o') data)" if "o' + n \<le> x" for o' n a x
    using that by (simp add: slice_def drop_take min_def add.commute add.left_commute)
  have f0: "fs ! 0 = Raw (take 4 data)" by (simp add: fs_def header_layout_def)
  from assms obtain ds where d: "take 4 data = ''AVB0''" "256 + num fs 3 + num fs 4 \<le> length data"
      "num fs 10 + num fs 11 \<le> num fs 4" "num fs 14 + num fs 15 \<le> num fs 4"
      "walk (slice (num fs 14) (num fs 14 + num fs 15) (slice (256 + num fs 3) (256 + num fs 3 + num fs 4) data)) = Inr ds"
      "descriptors v = ds" "public_key v = slice (num fs 10) (num fs 10 + num fs 11) (slice (256 + num fs 3) (256 + num fs 3 + num fs 4) data)"
    unfolding parse_vbmeta_def fs_def [symmetric] Let_def f0 if_Inl_eq_Inr bnd_eq_Inr
    by (auto simp: not_less)
  show thesis
    by (rule that [OF d(1-4)]) (use d(3-7) in \<open>simp_all add: aux\<close>)
qed

section \<open>Text\<close>

lemma decode_replace_ascii: "list_all (\<lambda>n. n < 128) s \<Longrightarrow> decode_replace s = s"
  by (induction s) auto

lemma decode_text_ascii: "list_all is_ascii s \<Longrightarrow> decode_text s = s"
proof -
  assume a: "list_all is_ascii s"
  then have "decode_replace (map ord_c s) = map ord_c s"
    by (intro decode_replace_ascii) (simp add: list_all_iff is_ascii_def)
  with a show ?thesis
    by (auto simp: decode_text_def narrow_def intro!: map_idI)
qed

section \<open>An encoder\<close>

definition pad8 :: "nat \<Rightarrow> nat" where
  "pad8 n = (8 - n mod 8) mod 8"

text \<open>A property descriptor as avbtool writes it.\<close>

definition property_bytes :: "string \<times> string \<Rightarrow> string" where
  "property_bytes p = (case p of (k, v) \<Rightarrow>
     let body = length k + length v + 2; n = 16 + body + pad8 body in
     be_bytes 8 0 @ be_bytes 8 n @ be_bytes 8 (length k) @ be_bytes 8 (length v) @
     k @ [CHR 0x00] @ v @ [CHR 0x00] @ replicate (pad8 body) (CHR 0x00))"

definition small_property :: "string \<times> string \<Rightarrow> bool" where
  "small_property p \<longleftrightarrow> length (fst p) + length (snd p) + 32 < 2 ^ 64 \<and> list_all is_ascii (fst p) \<and> list_all is_ascii (snd p)"

lemma pad8_mod: "(n + pad8 n) mod 8 = 0"
proof (cases "n mod 8 = 0")
  case False
  have "n mod 8 < 8" by simp
  with False have "pad8 n = 8 - n mod 8" by (simp add: pad8_def)
  moreover have "n mod 8 \<le> n" by simp
  ultimately have "n + pad8 n = (n - n mod 8) + 8" using \<open>n mod 8 < 8\<close> by linarith
  also have "\<dots> = 8 * (n div 8) + 8" by (simp only: minus_mod_eq_mult_div)
  finally show ?thesis by simp
qed (simp add: pad8_def)

lemma walk_property:
  assumes "small_property (k, v)"
  shows "walk (property_bytes (k, v) @ rest) = bnd (walk rest) (\<lambda>ds. Inr (Property k v # ds))"
proof -
  define body where "body = length k + length v + 2"
  define n where "n = 16 + body + pad8 body"
  let ?b = "property_bytes (k, v)"
  have p: "pad8 body \<le> 7" unfolding pad8_def by (simp add: less_Suc_eq_le [symmetric])
  have n: "n < 256 ^ 8" "length k < 256 ^ 8" "length v < 256 ^ 8"
    using assms p by (auto simp: small_property_def n_def body_def)
  have b: "?b = be_bytes 8 0 @ be_bytes 8 n @ be_bytes 8 (length k) @ be_bytes 8 (length v) @
     k @ [CHR 0x00] @ v @ [CHR 0x00] @ replicate (pad8 body) (CHR 0x00)"
    by (simp add: property_bytes_def Let_def body_def n_def add.assoc)
  have len: "length ?b = 16 + n" unfolding b by (simp add: n_def body_def)
  have n8: "n mod 8 = 0"
    using pad8_mod [of body] unfolding n_def by presburger
  have head: "be (take 8 ?b) = 0" "be (take 8 (drop 8 ?b)) = n"
    unfolding b using n(1) by (simp_all add: be_be_bytes)
  have fields: "unpack property_layout (take 32 ?b) = [Num 0, Num n, Num (length k), Num (length v)]"
    unfolding b property_layout_def using n by (simp add: be_be_bytes)
  have kv: "slice 32 (32 + length k) ?b = k" "slice (33 + length k) (33 + length k + length v) ?b = v"
    unfolding b by (simp_all add: slice_def)
  have ascii: "decode_text k = k" "decode_text v = v"
    using assms by (auto simp: small_property_def decode_text_ascii)
  have "read_descriptor 0 ?b = Inr (Property k v)"
    unfolding read_descriptor_def named_def fields using len kv ascii by (simp add: num_def n_def body_def Let_def numeral_2_eq_2 numeral_3_eq_3)
  moreover have "?b \<noteq> []" using len by auto
  ultimately show ?thesis
    using len n8 by (simp add: walk_step [of "?b @ rest"] head)
qed

lemma walk_properties:
  "list_all small_property ps \<Longrightarrow> walk (concat (map property_bytes ps)) = Inr (map (\<lambda>(k, v). Property k v) ps)"
proof (induction ps)
  case Nil
  then show ?case by (simp add: walk.simps)
next
  case (Cons p ps)
  then show ?case by (cases p) (simp add: walk_property)
qed

definition pad64 :: "nat \<Rightarrow> nat" where
  "pad64 n = 64 * (n div 64 + 1) - n"

text \<open>A whole image: \<open>auth\<close> is the block of the hash and the signature, which no check here reads.\<close>

definition vbmeta_bytes :: "string \<Rightarrow> (string \<times> string) list \<Rightarrow> vbmeta \<Rightarrow> string" where
  "vbmeta_bytes auth ps v =
     (let blob = concat (map property_bytes ps); m = length blob + length (public_key v); aux_size = m + pad64 m in
      ''AVB0'' @ be_bytes 4 1 @ be_bytes 4 0 @ be_bytes 8 (length auth) @ be_bytes 8 aux_size @ be_bytes 4 (algorithm v) @
      be_bytes 8 0 @ be_bytes 8 0 @ be_bytes 8 0 @ be_bytes 8 0 @
      be_bytes 8 (length blob) @ be_bytes 8 (length (public_key v)) @ be_bytes 8 0 @ be_bytes 8 0 @
      be_bytes 8 0 @ be_bytes 8 (length blob) @ be_bytes 8 (rollback_index v) @ be_bytes 4 (vflags v) @
      be_bytes 4 (rollback_index_location v) @ replicate 47 (CHR 0x00) @ replicate 1 (CHR 0x00) @ replicate 80 (CHR 0x00) @
      auth @ blob @ public_key v @ replicate (pad64 m) (CHR 0x00))"

definition encodable :: "string \<Rightarrow> (string \<times> string) list \<Rightarrow> vbmeta \<Rightarrow> bool" where
  "encodable auth ps v \<longleftrightarrow> list_all small_property ps \<and> descriptors v = map (\<lambda>(k, x). Property k x) ps \<and>
     length auth mod 64 = 0 \<and> length auth < 2 ^ 64 \<and> algorithm v < 2 ^ 32 \<and> rollback_index v < 2 ^ 64 \<and> vflags v < 2 ^ 32 \<and>
     rollback_index_location v < 2 ^ 32 \<and> length (concat (map property_bytes ps)) + length (public_key v) + 64 < 2 ^ 64"

lemma pad64: "(n + pad64 n) mod 64 = 0" "pad64 n \<le> 64"
proof -
  have "n < 64 * (n div 64 + 1)" "64 * (n div 64) \<le> n" by (simp_all add: dividend_less_times_div)
  then show "(n + pad64 n) mod 64 = 0" "pad64 n \<le> 64" by (simp_all add: pad64_def)
qed

lemma parse_vbmeta_bytes:
  assumes "encodable auth ps v"
  shows "parse_vbmeta (vbmeta_bytes auth ps v) = Inr v"
proof -
  define blob where "blob = concat (map property_bytes ps)"
  define m where "m = length blob + length (public_key v)"
  let ?d = "vbmeta_bytes auth ps v"
  have e: "list_all small_property ps" "descriptors v = map (\<lambda>(k, x). Property k x) ps" "length auth mod 64 = 0"
    "length auth < 256 ^ 8" "algorithm v < 256 ^ 4" "rollback_index v < 256 ^ 8" "vflags v < 256 ^ 4"
    "rollback_index_location v < 256 ^ 4" "m + pad64 m < 256 ^ 8" "length blob < 256 ^ 8" "length (public_key v) < 256 ^ 8"
    using assms pad64(2) [of m] unfolding encodable_def blob_def [symmetric] by (auto simp: m_def)
  have d: "?d = ''AVB0'' @ be_bytes 4 1 @ be_bytes 4 0 @ be_bytes 8 (length auth) @ be_bytes 8 (m + pad64 m) @ be_bytes 4 (algorithm v) @
      be_bytes 8 0 @ be_bytes 8 0 @ be_bytes 8 0 @ be_bytes 8 0 @
      be_bytes 8 (length blob) @ be_bytes 8 (length (public_key v)) @ be_bytes 8 0 @ be_bytes 8 0 @
      be_bytes 8 0 @ be_bytes 8 (length blob) @ be_bytes 8 (rollback_index v) @ be_bytes 4 (vflags v) @
      be_bytes 4 (rollback_index_location v) @ replicate 47 (CHR 0x00) @ replicate 1 (CHR 0x00) @ replicate 80 (CHR 0x00) @
      auth @ blob @ public_key v @ replicate (pad64 m) (CHR 0x00)"
    unfolding vbmeta_bytes_def Let_def blob_def m_def by (rule refl)
  have fs: "unpack header_layout (take 256 ?d) = [Raw ''AVB0'', Num 1, Num 0, Num (length auth), Num (m + pad64 m), Num (algorithm v),
      Num 0, Num 0, Num 0, Num 0, Num (length blob), Num (length (public_key v)), Num 0, Num 0, Num 0, Num (length blob),
      Num (rollback_index v), Num (vflags v), Num (rollback_index_location v), Raw (replicate 47 (CHR 0x00))]"
    unfolding d header_layout_def using e by (simp add: be_be_bytes)
  have len: "length ?d = 256 + length auth + (m + pad64 m)" unfolding d by (simp add: m_def)
  have "drop 256 ?d = auth @ blob @ public_key v @ replicate (pad64 m) (CHR 0x00)"
    unfolding d by simp
  then have "drop (256 + length auth) ?d = blob @ public_key v @ replicate (pad64 m) (CHR 0x00)"
    by (simp add: drop_drop [symmetric] add.commute del: drop_drop)
  then have aux: "slice (256 + length auth) (256 + length auth + (m + pad64 m)) ?d = blob @ public_key v @ replicate (pad64 m) (CHR 0x00)"
    by (simp add: slice_def m_def)
  have w: "walk blob = Inr (descriptors v)" using walk_properties [OF e(1)] e(2) by (simp add: blob_def)
  have "length blob + length (public_key v) \<le> m + pad64 m" by (simp add: m_def)
  then show ?thesis
    unfolding parse_vbmeta_def fs Let_def using len e(3) pad64(1) [of m] w
    by (simp add: num_def aux) (simp add: slice_def)
qed

section \<open>Fingerprints\<close>

lemma plain_fingerprint [simp]: "plain FINGERPRINT" "plain FINGERPRINT_KEY" "plain PARTITION"
  by (simp_all add: FINGERPRINT_def FINGERPRINT_KEY_def PARTITION_def)

lemma FINGERPRINT_match:
  assumes "rx_fullmatch FINGERPRINT f = Some m"
  shows "f = group m 1 @ ''/'' @ group m 2 @ ''/'' @ group m 3 @ '':'' @ group m 4 @ ''/'' @ group m 5 @ ''/'' @
      group m 6 @ '':'' @ group m 7 @ ''/'' @ group m 8 \<and> matches BUILD_ID (group m 5)"
proof -
  from fullmatch_runs [OF plain_fingerprint(1) assms] obtain a b c d e f' g h us where
    r: "runs BUILD_ID e us" "f = a @ ''/'' @ b @ ''/'' @ c @ '':'' @ d @ ''/'' @ e @ ''/'' @ f' @ '':'' @ g @ ''/'' @ h"
      "caps m = (8, h) # (7, g) # (6, f') # (5, e) # us @ [(4, d), (3, c), (2, b), (1, a)]"
    by (auto simp: FINGERPRINT_def)
  have "us = []" by (rule runs_groupless [OF r(1)]) simp
  with r show ?thesis by (auto simp: group_def grp_def fullmatch_lang lang_def)
qed

text \<open>The fingerprint properties of a vbmeta, by the partition that they name.\<close>

definition names_part :: "string \<Rightarrow> descriptor \<Rightarrow> string \<Rightarrow> bool" where
  "names_part part d value \<longleftrightarrow>
     (\<exists>key m. d = Property key value \<and> rx_fullmatch FINGERPRINT_KEY key = Some m \<and> group m 1 = part)"

lemma fingerprint_step_inv:
  assumes "fingerprint_step found d = Inr found'" and "distinct (map fst found)"
    and "\<forall>p x. (p, x) \<in> set found \<longleftrightarrow> (\<exists>e \<in> ds. names_part p e x)"
  shows "distinct (map fst found') \<and> (\<forall>p x. (p, x) \<in> set found' \<longleftrightarrow> (\<exists>e \<in> insert d ds. names_part p e x))"
proof (cases "\<exists>p x. names_part p d x")
  case True
  then obtain key x m where d: "d = Property key x" "rx_fullmatch FINGERPRINT_KEY key = Some m"
    by (auto simp: names_part_def)
  with assms(1) have f: "dget found (group m 1) = None" "found' = found @ [(group m 1, x)]"
    by (auto simp: fingerprint_step_def dput_new split: if_split_asm)
  moreover have "names_part p d y \<longleftrightarrow> p = group m 1 \<and> y = x" for p y
    using d by (auto simp: names_part_def)
  ultimately show ?thesis using assms(2,3) by (auto simp: dget_None)
next
  case False
  then have "found' = found"
    using assms(1) by (auto simp: fingerprint_step_def names_part_def split: descriptor.split_asm option.split_asm if_split_asm)
  with False assms(2,3) show ?thesis by simp
qed

lemma fingerprints_fold:
  assumes "fold_res fingerprint_step found ds = Inr found'" and "distinct (map fst found)"
    and "\<forall>p x. (p, x) \<in> set found \<longleftrightarrow> (\<exists>e \<in> es. names_part p e x)"
  shows "distinct (map fst found') \<and> (\<forall>p x. (p, x) \<in> set found' \<longleftrightarrow> (\<exists>e \<in> es \<union> set ds. names_part p e x))"
  using assms
proof (induction ds arbitrary: found es)
  case (Cons d ds)
  from Cons.prems(1) obtain f where f: "fingerprint_step found d = Inr f" "fold_res fingerprint_step f ds = Inr found'"
    by (auto simp: bnd_eq_Inr)
  from fingerprint_step_inv [OF f(1) Cons.prems(2,3)] have
    g: "distinct (map fst f)" "\<forall>p x. (p, x) \<in> set f \<longleftrightarrow> (\<exists>e \<in> insert d es. names_part p e x)" by auto
  from Cons.IH [OF f(2) g] show ?case by (simp add: insert_commute)
qed simp

lemma remdups_singleton: "remdups xs = [x] \<Longrightarrow> set xs = {x}"
  by (metis empty_set list.simps(15) set_remdups)

lemma build_identityE:
  assumes "build_identity v = Inr (r, b, names)"
  obtains found pairs where
    "distinct (map fst found)" "\<forall>p x. (p, x) \<in> set found \<longleftrightarrow> (\<exists>e \<in> set (descriptors v). names_part p e x)"
    "''system'' \<in> set names" "names = sort (map fst found)"
    "\<forall>px \<in> set found. read_fingerprint px = Inr (number r, b)" "parse_release (JStr (number r)) True = Inr r"
proof -
  from assms obtain found pairs where f: "fold_res fingerprint_step [] (descriptors v) = Inr found"
    "dget found ''system'' \<noteq> None" "map_res read_fingerprint (sort_key fst found) = Inr pairs"
    and c: "(case (remdups (map fst pairs), remdups (map snd pairs)) of
           ([no], [build]) \<Rightarrow>
             bnd (parse_release (JStr no) True) (\<lambda>inside. Inr (inside, build, sort (map fst found)))
         | _ \<Rightarrow> refuse ''the fingerprints inside the zip disagree'') = Inr (r, b, names)"
    unfolding build_identity_def bnd_eq_Inr if_Inl_eq_Inr by blast
  from c obtain no where n: "remdups (map fst pairs) = [no]" "remdups (map snd pairs) = [b]"
    "parse_release (JStr no) True = Inr r" "names = sort (map fst found)"
    by (auto simp: bnd_eq_Inr split: list.split_asm)
  have no: "no = number r" using n(3) by (auto simp: parse_release_iff)
  from remdups_singleton [OF n(1)] remdups_singleton [OF n(2)] have "set pairs \<subseteq> {(no, b)}"
    by (force simp: image_subset_iff set_eq_iff image_iff)
  then have "\<forall>px \<in> set found. read_fingerprint px = Inr (number r, b)"
    using map_res_mem2 [OF f(3)] no by fastforce
  moreover from f(2) have "''system'' \<in> set names"
    unfolding n(4) by (auto simp: dget_None)
  ultimately show thesis
    using that [of found] fingerprints_fold [OF f(1), of "{}"] n(3,4) no by simp
qed

section \<open>Images\<close>

fun hash_names :: "descriptor list \<Rightarrow> string list" where
  "hash_names [] = []"
| "hash_names (d # ds) = (case d of Hash tree n sz \<Rightarrow> n # hash_names ds | _ \<Rightarrow> hash_names ds)"

definition verifiable :: "descriptor \<Rightarrow> bool" where
  "verifiable d = (case d of
     Hash tree n sz \<Rightarrow> matches PARTITION n \<and> n \<noteq> ''vbmeta'' \<and> sz \<noteq> 0
   | Chain p \<Rightarrow> False | Unknown t \<Rightarrow> False | _ \<Rightarrow> True)"

lemma image_step_Inr:
  "image_step ns d = Inr ns' \<longleftrightarrow> verifiable d \<and> ns' = ns @ hash_names [d] \<and> set ns \<inter> set (hash_names [d]) = {}"
  by (cases d) (auto simp: image_step_def verifiable_def)

lemma image_fold:
  "fold_res image_step ns ds = Inr ns' \<longleftrightarrow>
     list_all verifiable ds \<and> ns' = ns @ hash_names ds \<and> distinct (hash_names ds) \<and> set ns \<inter> set (hash_names ds) = {}"
proof (induction ds arbitrary: ns)
  case (Cons d ds)
  have "hash_names (d # ds) = hash_names [d] @ hash_names ds" "distinct (hash_names [d])"
    by (simp_all split: descriptor.split)
  then show ?case
    by (auto simp del: hash_names.simps(2) simp: bnd_eq_Inr image_step_Inr Cons.IH)
qed auto

section \<open>The properties\<close>


text \<open>
  C23: Writing a vbmeta image with property descriptors and reading it gives the image back: the header fields
  at their widths, the key and every property, whatever the authentication block holds.
\<close>

theorem vbmeta_round_trip:
  assumes "encodable auth ps v"
  shows "parse_vbmeta (vbmeta_bytes auth ps v) = Inr v"
  by (rule parse_vbmeta_bytes [OF assms])

definition sample_properties :: "(string \<times> string) list" where
  "sample_properties = [(''com.android.build.system.fingerprint'', ''g/c/caiman:16/AP4A.250105.002/2026010200:user/release-keys''),
     (''com.android.build.system.security_patch'', ''2026-01-05'')]"

definition sample_vbmeta :: vbmeta where
  "sample_vbmeta = \<lparr>algorithm = 2, rollback_index = 1767571200, vflags = 0, rollback_index_location = 0,
     public_key = ''key'', descriptors = map (\<lambda>(k, x). Property k x) sample_properties\<rparr>"

lemma sample_encodable: "encodable [] sample_properties sample_vbmeta"
proof -
  have "list_all small_property sample_properties"
    by (simp add: small_property_def sample_properties_def is_ascii_def)
  moreover have "length (concat (map property_bytes sample_properties)) < 1000"
    by (simp add: sample_properties_def property_bytes_def pad8_def)
  ultimately show ?thesis by (simp add: encodable_def sample_vbmeta_def)
qed

theorem vbmeta_round_trip_witness:
  "encodable [] sample_properties sample_vbmeta \<and>
   parse_vbmeta (vbmeta_bytes [] sample_properties sample_vbmeta) = Inr sample_vbmeta"
  using vbmeta_round_trip [OF sample_encodable] sample_encodable by simp


definition release_fingerprint :: "string \<Rightarrow> string \<Rightarrow> string \<Rightarrow> bool" where
  "release_fingerprint no b f \<longleftrightarrow> (\<exists>brand product os.
     f = brand @ ''/'' @ product @ ''/'' @ DEVICE @ '':'' @ os @ ''/'' @ b @ ''/'' @ no @ '':user/release-keys'')"

lemma read_fingerprint_Inr:
  assumes "read_fingerprint (p, f) = Inr (no, b)"
  shows "release_fingerprint no b f \<and> matches BUILD_ID b"
proof -
  from assms obtain m where m: "rx_fullmatch FINGERPRINT f = Some m" "group m 3 = DEVICE" "group m 7 = ''user''"
    "group m 8 = ''release-keys''" "group m 6 = no" "group m 5 = b"
    by (auto simp: read_fingerprint_def split: option.split_asm if_split_asm)
  from FINGERPRINT_match [OF m(1)] m(2-6) show ?thesis
    by (auto simp: release_fingerprint_def)
qed

text \<open>
  C22: The release and the stock build that a vbmeta names are backed by every fingerprint in it: the system
  fingerprint is there, no partition has two, and each is exactly the fingerprint of a user build of the
  device, signed with release keys, with that stock build and that release number.
\<close>

theorem build_identity_fingerprints:
  assumes "build_identity v = Inr (r, b, names)"
  shows "''system'' \<in> set names \<and> sorted names \<and> distinct names \<and> parse_release (JStr (number r)) True = Inr r \<and>
    matches BUILD_ID b \<and>
    (\<forall>part d f. d \<in> set (descriptors v) \<longrightarrow> names_part part d f \<longrightarrow>
      part \<in> set names \<and> release_fingerprint (number r) b f)"
proof -
  from assms obtain found where f: "distinct (map fst found)"
    "\<forall>p x. (p, x) \<in> set found \<longleftrightarrow> (\<exists>e \<in> set (descriptors v). names_part p e x)"
    "''system'' \<in> set names" "names = sort (map fst found)"
    "\<forall>px \<in> set found. read_fingerprint px = Inr (number r, b)" "parse_release (JStr (number r)) True = Inr r"
    by (rule build_identityE)
  have one: "release_fingerprint (number r) b x \<and> matches BUILD_ID b" if "(p, x) \<in> set found" for p x
    using read_fingerprint_Inr [of p x] f(5) that by blast
  from f(3,4) obtain x where "(''system'', x) \<in> set found" by auto
  from one [OF this] have "matches BUILD_ID b" by blast
  moreover have "part \<in> set names \<and> release_fingerprint (number r) b y" if "d \<in> set (descriptors v)" "names_part part d y" for part d y
  proof -
    from that f(2) have "(part, y) \<in> set found" by blast
    with one f(4) show ?thesis by force
  qed
  moreover have "sorted names" "distinct names" using f(1,4) by simp_all
  ultimately show ?thesis using f(3,6) by blast
qed

lemma sample_identity:
  "build_identity sample_vbmeta = Inr (\<lparr>number = ''2026010200'', base = ''2026010200'', preview = False\<rparr>, ''AP4A.250105.002'', [''system''])"
  by code_simp

theorem build_identity_fingerprints_witness:
  "\<exists>r b names. build_identity sample_vbmeta = Inr (r, b, names) \<and> ''system'' \<in> set names \<and> matches BUILD_ID b"
  using build_identity_fingerprints [OF sample_identity] sample_identity by blast

text \<open>
  C24: The images that avbtool must verify are exactly the hash and hashtree descriptors, in order. They are
  accepted if and only if no descriptor chains to another vbmeta or has an unknown tag, the partition
  names are well formed, differ and are not vbmeta itself, and every descriptor carries a digest.
\<close>

theorem images_to_verify_exact:
  "images_to_verify v = Inr images \<longleftrightarrow>
     list_all verifiable (descriptors v) \<and> images = hash_names (descriptors v) \<and> distinct images"
  by (auto simp: images_to_verify_def image_fold)

end
