(* ===== verification/Readings.thy ===== *)
theory Readings
  imports Caiman
begin

text \<open>
  \<^verbatim>\<open>scripts/pixel/readings.py\<close>: the record of fixed fastboot readings and stop point 3, the rules by
  which a phone session may go on. The loops that walk the record by index are recursions over the
  remaining lines; the last line is always the footer, so \<^verbatim>\<open>position < len(lines) - 1\<close> says that more
  than one line remains.
\<close>

definition HEADER :: string where
  "HEADER = ''andrix-readings 3''"

definition SEALED_VERSION :: string where
  "SEALED_VERSION = ''35.0.2-12147458''"

definition FOOTER :: string where
  "FOOTER = ''end-of-readings''"

definition COMMANDS :: "(string \<times> string) list" where
  "COMMANDS = [(''getvar'', ''product''), (''getvar'', ''is-userspace''), (''getvar'', ''version-bootloader''),
     (''getvar'', ''version-baseband''), (''getvar'', ''current-slot''), (''getvar'', ''unlocked''),
     (''getvar'', ''snapshot-update-status''), (''flashing'', ''get_unlock_ability'')]"

definition SESSION_STAGES :: "int list" where
  "SESSION_STAGES = [3, 7, 8, 9]"

definition MAX_RECORD :: nat where
  "MAX_RECORD = 65536"

definition VALUES :: "(string, char rx) dict" where
  "VALUES =
    [(''product'', plus (Sym (\<lambda>c. is_lower c \<or> is_digit c \<or> c = CHR ''_''))),
     (''is-userspace'', words [''yes'', ''no'']),
     (''version-bootloader'', Seq (Sym is_alnum) (star (Sym is_version_c))),
     (''version-baseband'', Seq (Sym is_alnum) (star (Sym is_version_c))),
     (''current-slot'', words [''a'', ''b'']),
     (''unlocked'', words [''yes'', ''no'']),
     (''snapshot-update-status'', words [''none'', ''unknown'', ''snapshotted'', ''merging'', ''cancelled'']),
     (''get_unlock_ability'', words [''0'', ''1''])]"

definition not_space :: "char \<Rightarrow> bool" where
  "not_space c \<longleftrightarrow> \<not> is_space c"

definition FINISHED :: "char rx" where
  "FINISHED = seqs [lit ''Finished. Total time: '', plus (Sym is_digit), lit ''.'', digits_rx 3, lit ''s'']"

definition OKAY :: "char rx" where
  "OKAY = seqs [lit ''OKAY ['', star (Sym (\<lambda>c. c = CHR '' '')), plus (Sym is_digit), lit ''.'',
     digits_rx 3, lit ''s]'']"

definition REMOTE :: "char rx" where
  "REMOTE = seqs [lit ''FAILED (remote: '', lit [CHR 0x27], Grp 1 (star (Sym (in_range 32 126))),
     lit [CHR 0x27], lit '')'']"

definition END :: "char rx" where
  "END = seqs [lit ''end '', Grp 1 (words [''getvar'', ''flashing'']), lit '' '', Grp 2 (plus (Sym not_space)),
     lit '' status '', Grp 3 (between 1 3 (Sym is_digit))]"

definition VERSION_END :: "char rx" where
  "VERSION_END = Seq (lit ''end version status '') (Grp 1 (between 1 3 (Sym is_digit)))"

record reading =
  rname :: string
  rvalue :: "string option"
  message :: "string option"

definition answered :: "reading \<Rightarrow> bool" where
  "answered r \<longleftrightarrow> rvalue r \<noteq> None"

definition answer :: "string \<Rightarrow> string \<Rightarrow> reading" where
  "answer n v = \<lparr>rname = n, rvalue = Some v, message = None\<rparr>"

definition no_answer :: "string \<Rightarrow> string \<Rightarrow> reading" where
  "no_answer n t = \<lparr>rname = n, rvalue = None, message = Some t\<rparr>"

definition reading_dict :: "reading \<Rightarrow> json" where
  "reading_dict r = (case rvalue r of
     Some v \<Rightarrow> JDict [(''answered'', JBool True), (''value'', JStr v)]
   | None \<Rightarrow> JDict [(''answered'', JBool False),
       (''message'', case message r of None \<Rightarrow> JNull | Some t \<Rightarrow> JStr t)])"

definition value_ok :: "string \<Rightarrow> string \<Rightarrow> bool res" where
  "value_ok name v = (case dget VALUES name of None \<Rightarrow> Inl (KeyError name) | Some r \<Rightarrow> Inr (matches r v))"

definition getvar :: "string \<Rightarrow> string list \<Rightarrow> nat \<Rightarrow> reading res" where
  "getvar name body status = (case body of
     [first, second] \<Rightarrow>
       if \<not> matches FINISHED second \<or> status \<noteq> 0 then Inl (Refusal ''getvar: unexpected output'')
       else let prefix = name @ '': '' in
         if starts_with prefix first then
           (let v = drop (length prefix) first in
            bnd (value_ok name v) (\<lambda>ok.
              if \<not> ok then Inl (Refusal ''getvar: unexpected value'') else Inr (answer name v)))
         else (case rx_fullmatch (Seq (lit (ljust 50 (''getvar:'' @ name) @ '' '')) REMOTE) first of
             None \<Rightarrow> Inl (Refusal ''getvar: neither an answer nor a refusal by the bootloader'')
           | Some m \<Rightarrow> Inr (no_answer name (group m 1)))
   | _ \<Rightarrow> Inl (Refusal ''getvar: unexpected output''))"

definition UNLOCK_ABILITY :: "char rx" where
  "UNLOCK_ABILITY = Seq (lit ''(bootloader) get_unlock_ability: '') (Grp 1 (plus (Sym not_space)))"

definition unlock_ability :: "string list \<Rightarrow> nat \<Rightarrow> reading res" where
  "unlock_ability body status =
     (if status = 0 then
        (case body of
           [first, second, third] \<Rightarrow>
             if \<not> matches OKAY second \<or> \<not> matches FINISHED third
             then Inl (Refusal ''flashing: unexpected output'')
             else (case rx_fullmatch UNLOCK_ABILITY first of
                 None \<Rightarrow> Inl (Refusal ''flashing: unexpected answer'')
               | Some m \<Rightarrow>
                   bnd (value_ok ''get_unlock_ability'' (group m 1)) (\<lambda>ok.
                     if \<not> ok then Inl (Refusal ''flashing: unexpected answer'')
                     else Inr (answer ''get_unlock_ability'' (group m 1))))
         | _ \<Rightarrow> Inl (Refusal ''flashing: unexpected output''))
      else
        (case body of
           [first, second] \<Rightarrow>
             (case rx_fullmatch REMOTE first of
                None \<Rightarrow> Inl (Refusal ''flashing: unexpected output'')
              | Some m \<Rightarrow>
                  if status \<noteq> 1 \<or> second \<noteq> ''fastboot: error: Command failed''
                  then Inl (Refusal ''flashing: unexpected output'')
                  else Inr (no_answer ''get_unlock_ability'' (group m 1)))
         | _ \<Rightarrow> Inl (Refusal ''flashing: unexpected output'')))"

definition marker :: "string \<Rightarrow> bool" where
  "marker l \<longleftrightarrow> starts_with ''begin '' l \<or> starts_with ''end '' l"

fun take_body :: "string list \<Rightarrow> string list \<times> string list" where
  "take_body (l # r # rs) =
     (if marker l then ([], l # r # rs)
      else (case take_body (r # rs) of (body, rest) \<Rightarrow> (l # body, rest)))"
| "take_body ls = ([], ls)"

type_synonym readings = "(string, reading) dict"

definition interpret_body :: "string \<Rightarrow> string \<Rightarrow> string list \<Rightarrow> nat \<Rightarrow> reading res" where
  "interpret_body command name body status =
     (if command = ''getvar'' then getvar name body status else unlock_ability body status)"

definition read_command :: "readings \<times> string list \<Rightarrow> string \<times> string \<Rightarrow> (readings \<times> string list) res" where
  "read_command st cmd = (case st of (readings, ls) \<Rightarrow> case cmd of (command, name) \<Rightarrow>
     (case ls of
        l # r # rs \<Rightarrow>
          if l \<noteq> ''begin '' @ command @ '' '' @ name then Inl (Refusal ''expected begin'')
          else (case take_body (r # rs) of (body, rest) \<Rightarrow>
            (case rest of
               e # q # qs \<Rightarrow>
                 (case rx_fullmatch END e of
                    None \<Rightarrow> Inl (Refusal ''expected the end'')
                  | Some m \<Rightarrow>
                      if group m 1 \<noteq> command \<or> group m 2 \<noteq> name then Inl (Refusal ''expected the end'')
                      else bnd (interpret_body command name body (nat_of (group m 3)))
                        (\<lambda>x. Inr (dput name x readings, q # qs)))
             | _ \<Rightarrow> Inl (Refusal ''expected the end'')))
      | _ \<Rightarrow> Inl (Refusal ''expected begin'')))"

definition STAMP :: "char rx" where
  "STAMP = Seq (lit ''taken-at '') (Grp 1 time_rx)"

definition INSTALLED :: "char rx" where
  "INSTALLED = Seq (lit ''Installed as /'') (plus (Sym not_space))"

definition read_version :: "string list \<Rightarrow> string list res" where
  "read_version ls = (case take_body ls of (body, rest) \<Rightarrow>
     (case rest of
        e # q # qs \<Rightarrow>
          (case rx_fullmatch VERSION_END e of
             None \<Rightarrow> Inl (Refusal ''fastboot --version did not end with status 0'')
           | Some m \<Rightarrow>
               if nat_of (group m 1) \<noteq> 0 then Inl (Refusal ''fastboot --version did not end with status 0'')
               else (case body of
                   [v, i] \<Rightarrow>
                     if v \<noteq> ''fastboot version '' @ SEALED_VERSION \<or> \<not> matches INSTALLED i
                     then Inl (Refusal ''fastboot --version printed another version'')
                     else Inr (q # qs)
                 | _ \<Rightarrow> Inl (Refusal ''fastboot --version printed another version'')))
      | _ \<Rightarrow> Inl (Refusal ''fastboot --version did not end with status 0'')))"

definition parse_lines :: "string list \<Rightarrow> readings res" where
  "parse_lines lines =
     (if lines = [] \<or> hd lines \<noteq> HEADER then Inl (Refusal ''the record does not start with its header'')
      else if last lines \<noteq> FOOTER then Inl (Refusal ''the record does not end with its footer'')
      else (case rx_fullmatch STAMP (if length lines > 1 then lines ! 1 else []) of
          None \<Rightarrow> Inl (Refusal ''expected the UTC time the readings were taken'')
        | Some m \<Rightarrow>
            if length lines < 5 \<or> lines ! 2 \<noteq> ''begin version'' then Inl (Refusal ''expected begin version'')
            else bnd (read_version (drop 3 lines)) (\<lambda>rest.
              bnd (fold_res read_command
                    ([(''fastboot-version'', answer ''fastboot-version'' SEALED_VERSION),
                      (''taken-at'', answer ''taken-at'' (group m 1))], rest) COMMANDS) (\<lambda>(rs, left).
                if length left \<noteq> 1 then Inl (Refusal ''unexpected content after the last reading'')
                else Inr rs))))"

definition parse :: "string \<Rightarrow> readings res" where
  "parse data =
     (if length data > MAX_RECORD then Inl (Refusal ''the record is not bytes or is too large'')
      else case decode_ascii data of
        None \<Rightarrow> Inl (Refusal ''the record is not ASCII'')
      | Some text \<Rightarrow>
          if CHR 0x0D \<in> set text \<or> CHR 0x00 \<in> set text
          then Inl (Refusal ''the record contains carriage returns or NUL bytes'')
          else if \<not> ends_with [nl] text
          then Inl (Refusal ''the record does not end with a newline; it may be cut short'')
          else parse_lines (split_char nl (butlast text)))"

section \<open>Stop point 3\<close>

record point3 =
  continue :: bool
  restricted :: bool
  stops :: "string list"
  noted :: "string list"

definition item :: "readings \<Rightarrow> string \<Rightarrow> reading res" where
  "item rs k = (case dget rs k of None \<Rightarrow> Inl (KeyError k) | Some r \<Rightarrow> Inr r)"

definition item_if :: "bool \<Rightarrow> readings \<Rightarrow> string \<Rightarrow> reading option res" where
  "item_if b rs k = (if b then bnd (item rs k) (\<lambda>r. Inr (Some r)) else Inr None)"

definition product_stop :: "reading \<Rightarrow> string list" where
  "product_stop r = (case rvalue r of
     None \<Rightarrow> [''product is unanswered'']
   | Some v \<Rightarrow> if v \<noteq> DEVICE then [''product reads '' @ v @ '', not '' @ DEVICE] else [])"

definition userspace_stop :: "reading \<Rightarrow> string list" where
  "userspace_stop r = (if rvalue r = Some ''yes''
     then [''is-userspace reads yes: this is recovery's own fastboot; go back to the '' @
       ''bootloader screen that shows \"Fastboot Mode\"''] else [])"

definition userspace_note :: "reading \<Rightarrow> string list" where
  "userspace_note r = (if rvalue r = None
     then [''is-userspace is unanswered; it does not read yes, as stop point 3 requires, '' @
       ''and fastboot's own is_userspace_fastboot also treats it as not userspace''] else [])"

definition shown :: "reading \<Rightarrow> string" where
  "shown r = (case rvalue r of None \<Rightarrow> ''unanswered'' | Some v \<Rightarrow> v)"

definition status_stop :: "reading \<Rightarrow> string list" where
  "status_stop r = [''snapshot-update-status is '' @ shown r @ '', not none; a merge can keep it at '' @
     ''merging for a while after an update boots, so repeat the readings later'']"

definition status_note :: "reading \<Rightarrow> string list" where
  "status_note r = [''snapshot-update-status is '' @ shown r @ '' and the OS does not boot: only the '' @
     ''complete GrapheneOS script or the web installer may run'']"

definition ability_stop :: "reading option \<Rightarrow> string list" where
  "ability_stop a = (case a of None \<Rightarrow> []
   | Some r \<Rightarrow> if rvalue r \<noteq> Some ''1'' then [''get_unlock_ability does not read 1 (rule 1)''] else [])"

definition unlocked_stop :: "reading option \<Rightarrow> string list" where
  "unlocked_stop u = (case u of None \<Rightarrow> []
   | Some r \<Rightarrow> if rvalue r \<noteq> Some ''yes''
       then [''unlocked does not read yes; the session stops, and only a new approved '' @
         ''session that repeats stage 7 may unlock again''] else [])"

definition stop_point_3 :: "readings \<Rightarrow> int \<Rightarrow> bool \<Rightarrow> point3 res" where
  "stop_point_3 rs stage os_booted =
     (if stage \<notin> set SESSION_STAGES then Inl (Refusal ''stage has no phone session'')
      else
       bnd (item rs ''product'') (\<lambda>product.
       bnd (item rs ''is-userspace'') (\<lambda>userspace.
       bnd (item rs ''snapshot-update-status'') (\<lambda>status.
       bnd (item_if (stage \<ge> 7) rs ''get_unlock_ability'') (\<lambda>ability.
       bnd (item_if (stage \<ge> 8) rs ''unlocked'') (\<lambda>unlocked.
         let merging = (rvalue status \<noteq> Some ''none'');
             ss = product_stop product @ userspace_stop userspace
               @ (if merging \<and> os_booted then status_stop status else [])
               @ ability_stop ability @ unlocked_stop unlocked;
             ns = userspace_note userspace @ (if merging \<and> \<not> os_booted then status_note status else [])
         in Inr \<lparr>continue = (ss = []), restricted = (merging \<and> \<not> os_booted), stops = ss, noted = ns\<rparr>))))))"

definition yes_no :: "string \<Rightarrow> bool option" where
  "yes_no t = (if t = ''yes'' then Some True else if t = ''no'' then Some False else None)"

text \<open>
  \<^verbatim>\<open>main\<close> past its argument parser: the file's bytes or an \<^verbatim>\<open>OSError\<close>, and the verdict with the
  exit status. An exception that is neither a refusal nor an \<^verbatim>\<open>OSError\<close> is not caught.
\<close>

definition main_readings :: "string res \<Rightarrow> int \<Rightarrow> bool \<Rightarrow> (string \<times> nat) res" where
  "main_readings file stage os_booted =
     (case bnd file (\<lambda>data. bnd (parse data) (\<lambda>rs. stop_point_3 rs stage os_booted)) of
        Inl (Refusal t) \<Rightarrow> Inr (''REFUSE'', 1)
      | Inl (OSError t) \<Rightarrow> Inr (''REFUSE'', 1)
      | Inl e \<Rightarrow> Inl e
      | Inr p \<Rightarrow> Inr (if continue p then (''CONTINUE'', 0) else (''STOP'', 1)))"

section \<open>Stop point 3 and the record\<close>

lemma item_Inr [res_simps]: "item rs k = Inr r \<longleftrightarrow> dget rs k = Some r"
  by (simp add: item_def split: option.splits)

lemma item_if_Inr [res_simps]:
  "item_if b rs k = Inr x \<longleftrightarrow> (if b then \<exists>r. x = Some r \<and> dget rs k = Some r else x = None)"
  by (auto simp: item_if_def res_simps)

definition val_of :: "readings \<Rightarrow> string \<Rightarrow> string option" where
  "val_of rs k = (case dget rs k of None \<Rightarrow> None | Some r \<Rightarrow> rvalue r)"

lemma stop_lists_empty:
  "product_stop r = [] \<longleftrightarrow> rvalue r = Some DEVICE"
  "userspace_stop r = [] \<longleftrightarrow> rvalue r \<noteq> Some ''yes''"
  "status_stop r \<noteq> []"
  "ability_stop a = [] \<longleftrightarrow> (\<forall>r. a = Some r \<longrightarrow> rvalue r = Some ''1'')"
  "unlocked_stop a = [] \<longleftrightarrow> (\<forall>r. a = Some r \<longrightarrow> rvalue r = Some ''yes'')"
  by (simp_all add: product_stop_def userspace_stop_def status_stop_def ability_stop_def unlocked_stop_def
      split: option.split if_split)

lemma stop_point_3_rules:
  assumes "stop_point_3 rs stage os_booted = Inr p"
  shows "continue p \<longleftrightarrow>
      val_of rs ''product'' = Some DEVICE \<and> val_of rs ''is-userspace'' \<noteq> Some ''yes'' \<and>
      (os_booted \<longrightarrow> val_of rs ''snapshot-update-status'' = Some ''none'') \<and>
      (stage \<ge> 7 \<longrightarrow> val_of rs ''get_unlock_ability'' = Some ''1'') \<and>
      (stage \<ge> 8 \<longrightarrow> val_of rs ''unlocked'' = Some ''yes'')"
    and "restricted p \<longleftrightarrow> \<not> os_booted \<and> val_of rs ''snapshot-update-status'' \<noteq> Some ''none''"
    and "continue p \<longleftrightarrow> stops p = []"
    and "stage \<in> set SESSION_STAGES"
proof -
  from assms obtain product userspace status ability unlocked where
    st: "stage \<in> set SESSION_STAGES" and
    it: "dget rs ''product'' = Some product" "dget rs ''is-userspace'' = Some userspace"
      "dget rs ''snapshot-update-status'' = Some status"
      "item_if (stage \<ge> 7) rs ''get_unlock_ability'' = Inr ability"
      "item_if (stage \<ge> 8) rs ''unlocked'' = Inr unlocked" and
    p': "let ss = product_stop product @ userspace_stop userspace
        @ (if rvalue status \<noteq> Some ''none'' \<and> os_booted then status_stop status else [])
        @ ability_stop ability @ unlocked_stop unlocked in
      p = \<lparr>continue = (ss = []), restricted = (rvalue status \<noteq> Some ''none'' \<and> \<not> os_booted), stops = ss,
        noted = userspace_note userspace
          @ (if rvalue status \<noteq> Some ''none'' \<and> \<not> os_booted then status_note status else [])\<rparr>"
    unfolding stop_point_3_def Let_def if_Inl_eq_Inr bnd_eq_Inr item_Inr sum.inject not_not
    by (elim conjE exE) (rule that [unfolded Let_def], assumption+, rule sym)
  have p: "stops p = product_stop product @ userspace_stop userspace
        @ (if rvalue status \<noteq> Some ''none'' \<and> os_booted then status_stop status else [])
        @ ability_stop ability @ unlocked_stop unlocked"
      "continue p = (stops p = [])" "restricted p = (rvalue status \<noteq> Some ''none'' \<and> \<not> os_booted)"
    unfolding p' [unfolded Let_def] point3.select_convs by (rule refl)+
  have ab: "ability_stop ability = [] \<longleftrightarrow> (stage \<ge> 7 \<longrightarrow> val_of rs ''get_unlock_ability'' = Some ''1'')"
    using it(4) by (auto simp: item_if_Inr stop_lists_empty val_of_def split: if_split_asm)
  have un: "unlocked_stop unlocked = [] \<longleftrightarrow> (stage \<ge> 8 \<longrightarrow> val_of rs ''unlocked'' = Some ''yes'')"
    using it(5) by (auto simp: item_if_Inr stop_lists_empty val_of_def split: if_split_asm)
  show "continue p \<longleftrightarrow> stops p = []" by (rule p(2))
  show "stage \<in> set SESSION_STAGES" by (rule st)
  show "restricted p \<longleftrightarrow> \<not> os_booted \<and> val_of rs ''snapshot-update-status'' \<noteq> Some ''none''"
    using p(3) it(3) by (auto simp: val_of_def)
  show "continue p \<longleftrightarrow>
      val_of rs ''product'' = Some DEVICE \<and> val_of rs ''is-userspace'' \<noteq> Some ''yes'' \<and>
      (os_booted \<longrightarrow> val_of rs ''snapshot-update-status'' = Some ''none'') \<and>
      (stage \<ge> 7 \<longrightarrow> val_of rs ''get_unlock_ability'' = Some ''1'') \<and>
      (stage \<ge> 8 \<longrightarrow> val_of rs ''unlocked'' = Some ''yes'')"
    unfolding p(2) unfolding p(1) append_is_Nil_conv ab un stop_lists_empty(1,2)
    using it(1-3) by (simp add: val_of_def stop_lists_empty(3))
qed

lemma stop_point_3_defined:
  assumes "stage \<in> set SESSION_STAGES"
    and "\<And>k. k \<in> set (map snd COMMANDS) \<Longrightarrow> dget rs k \<noteq> None"
  shows "\<exists>p. stop_point_3 rs stage os_booted = Inr p"
proof -
  have "\<exists>r. item rs k = Inr r" "\<exists>r. item_if b rs k = Inr r" if "k \<in> set (map snd COMMANDS)" for k b
    using assms(2) [OF that] by (auto simp: item_def item_if_def)
  note it = this
  have "\<exists>a b c. item rs ''product'' = Inr a \<and> item rs ''is-userspace'' = Inr b \<and>
      item rs ''snapshot-update-status'' = Inr c"
    using it(1) [of "''product''"] it(1) [of "''is-userspace''"] it(1) [of "''snapshot-update-status''"]
    by (auto simp: COMMANDS_def)
  moreover have "\<exists>d e. item_if (stage \<ge> 7) rs ''get_unlock_ability'' = Inr d \<and>
      item_if (stage \<ge> 8) rs ''unlocked'' = Inr e"
    using it(2) [of "''get_unlock_ability''"] it(2) [of "''unlocked''"] by (auto simp: COMMANDS_def)
  ultimately show ?thesis using assms(1) by (auto simp: stop_point_3_def Let_def)
qed

section \<open>The structure of an accepted record\<close>

lemma take_body_split:
  assumes "take_body ls = (body, rest)"
  shows "ls = body @ rest" and "\<And>l. l \<in> set body \<Longrightarrow> \<not> marker l"
  using assms by (induction ls arbitrary: body rest rule: take_body.induct)
    (auto split: if_splits prod.splits)

lemma take_body_append:
  assumes "\<And>l. l \<in> set body \<Longrightarrow> \<not> marker l" and "marker e"
  shows "take_body (body @ e # q # qs) = (body, e # q # qs)"
  using assms
proof (induction body)
  case Nil
  then show ?case by simp
next
  case (Cons l body)
  obtain r rs where "body @ e # q # qs = r # rs" by (cases body) auto
  with Cons show ?case by auto
qed

definition begin_line :: "string \<times> string \<Rightarrow> string" where
  "begin_line cmd = ''begin '' @ fst cmd @ '' '' @ snd cmd"

definition end_line :: "string \<times> string \<Rightarrow> string \<Rightarrow> string" where
  "end_line cmd st = ''end '' @ fst cmd @ '' '' @ snd cmd @ '' status '' @ st"

definition block :: "string \<times> string \<Rightarrow> string list \<times> string \<Rightarrow> string list" where
  "block cmd b = begin_line cmd # fst b @ [end_line cmd (snd b)]"

definition is_status :: "string \<Rightarrow> bool" where
  "is_status st \<longleftrightarrow> 1 \<le> length st \<and> length st \<le> 3 \<and> list_all is_digit st"

lemma plain_END [simp]: "plain END" "plain VERSION_END" "plain FINISHED" "plain OKAY" "plain REMOTE"
  "plain UNLOCK_ABILITY" "plain STAMP"
  by (simp_all add: END_def VERSION_END_def FINISHED_def OKAY_def REMOTE_def UNLOCK_ABILITY_def STAMP_def
      digits_rx_def)

lemma END_runsE:
  assumes "runs END e cs"
  obtains c n st where "e = end_line (c, n) st" "is_status st" "cs = [(3, st), (2, n), (1, c)]"
  using assms that by (auto simp: END_def end_line_def is_status_def)

lemma END_match:
  assumes "rx_fullmatch END e = Some m"
  shows "e = end_line (group m 1, group m 2) (group m 3)" and "is_status (group m 3)"
proof -
  from fullmatch_runs [OF plain_END(1) assms] obtain c n st where
    "e = end_line (c, n) st" "is_status st" "caps m = [(3, st), (2, n), (1, c)]"
    by (rule END_runsE)
  then show "e = end_line (group m 1, group m 2) (group m 3)" "is_status (group m 3)"
    by (simp_all add: group_def grp_def)
qed

lemma read_command_block:
  assumes "read_command (rs, ls) (c, n) = Inr (rs', ls')"
  obtains body st x where "ls = block (c, n) (body, st) @ ls'" "ls' \<noteq> []" "is_status st"
    "interpret_body c n body (nat_of st) = Inr x" "rs' = dput n x rs" "\<And>l. l \<in> set body \<Longrightarrow> \<not> marker l"
proof -
  from assms obtain r rss where ls: "ls = begin_line (c, n) # r # rss"
    by (auto simp: read_command_def begin_line_def split: list.splits if_splits)
  obtain body rest where tb: "take_body (r # rss) = (body, rest)" by fastforce
  from assms ls tb obtain e m x where
    rest: "rest = e # ls'" "ls' \<noteq> []" and m: "rx_fullmatch END e = Some m" "group m 1 = c" "group m 2 = n"
    and x: "interpret_body c n body (nat_of (group m 3)) = Inr x" "rs' = dput n x rs"
    by (auto simp: read_command_def begin_line_def bnd_eq_Inr split: list.splits option.splits if_split_asm)
  from END_match [OF m(1)] m(2,3) have "e = end_line (c, n) (group m 3)" "is_status (group m 3)" by auto
  with take_body_split [OF tb] ls rest x show thesis
    by (intro that [of body "group m 3" x]) (auto simp: block_def)
qed

lemma read_commands_blocks:
  assumes "fold_res read_command (rs, ls) cmds = Inr (rs', ls')"
  shows "\<exists>bs xs. length bs = length cmds \<and> length xs = length cmds \<and>
     ls = concat (map2 block cmds bs) @ ls' \<and>
     (\<forall>i < length cmds. is_status (snd (bs ! i)) \<and>
        interpret_body (fst (cmds ! i)) (snd (cmds ! i)) (fst (bs ! i)) (nat_of (snd (bs ! i))) = Inr (xs ! i)) \<and>
     rs' = fold (\<lambda>(n, x). dput n x) (zip (map snd cmds) xs) rs"
  using assms
proof (induction cmds arbitrary: rs ls)
  case Nil
  then show ?case by simp
next
  case (Cons cmd cmds)
  obtain c n where cmd: "cmd = (c, n)" by fastforce
  with Cons.prems obtain rs1 ls1 where
    1: "read_command (rs, ls) (c, n) = Inr (rs1, ls1)" "fold_res read_command (rs1, ls1) cmds = Inr (rs', ls')"
    by (auto simp: bnd_eq_Inr)
  from 1(1) obtain body st x where b: "ls = block (c, n) (body, st) @ ls1" "is_status st"
    "interpret_body c n body (nat_of st) = Inr x" "rs1 = dput n x rs" by (rule read_command_block)
  from Cons.IH [OF 1(2)] obtain bs xs where "length bs = length cmds" "length xs = length cmds"
    "ls1 = concat (map2 block cmds bs) @ ls'"
    "\<And>i. i < length cmds \<Longrightarrow> is_status (snd (bs ! i)) \<and>
        interpret_body (fst (cmds ! i)) (snd (cmds ! i)) (fst (bs ! i)) (nat_of (snd (bs ! i))) = Inr (xs ! i)"
    "rs' = fold (\<lambda>(n, x). dput n x) (zip (map snd cmds) xs) rs1" by blast
  with b cmd show ?case
    by (intro exI [of _ "(body, st) # bs"] exI [of _ "x # xs"]) (auto simp: nth_Cons split: nat.splits)
qed

definition record_lines :: "string \<Rightarrow> string \<Rightarrow> string \<Rightarrow> (string list \<times> string) list \<Rightarrow> string list" where
  "record_lines t path st bs =
     [HEADER, ''taken-at '' @ t, ''begin version'', ''fastboot version '' @ SEALED_VERSION,
      ''Installed as /'' @ path, ''end version status '' @ st] @ concat (map2 block COMMANDS bs) @ [FOOTER]"

definition init_readings :: "string \<Rightarrow> readings" where
  "init_readings t = [(''fastboot-version'', answer ''fastboot-version'' SEALED_VERSION),
     (''taken-at'', answer ''taken-at'' t)]"

definition read_values :: "string \<Rightarrow> reading list \<Rightarrow> readings" where
  "read_values t xs = fold (\<lambda>(n, x). dput n x) (zip (map snd COMMANDS) xs) (init_readings t)"

lemma read_version_lines:
  assumes "read_version ls = Inr rest"
  obtains path st where "ls = [''fastboot version '' @ SEALED_VERSION, ''Installed as /'' @ path,
      ''end version status '' @ st] @ rest" "nat_of st = 0" "is_status st" "rest \<noteq> []"
proof -
  obtain body more where tb: "take_body ls = (body, more)" by fastforce
  from assms tb obtain e m i where more: "more = e # rest" "rest \<noteq> []"
    and m: "rx_fullmatch VERSION_END e = Some m" "nat_of (group m 1) = 0"
    and body: "body = [''fastboot version '' @ SEALED_VERSION, i]" "matches INSTALLED i"
    by (auto simp: read_version_def split: list.splits option.splits if_split_asm)
  from body(2) obtain path where i: "i = ''Installed as /'' @ path"
    by (auto simp: INSTALLED_def fullmatch_lang lang_def)
  from fullmatch_runs [OF plain_END(2) m(1)] obtain st where
    st: "e = ''end version status '' @ st" "is_status st" "caps m = [(1, st)]"
    by (auto simp: VERSION_END_def is_status_def)
  with take_body_split(1) [OF tb] more m(2) body(1) i show thesis
    by (intro that [of path st]) (auto simp: group_def grp_def)
qed

lemma STAMP_match:
  assumes "rx_fullmatch STAMP l = Some m"
  shows "l = ''taken-at '' @ group m 1" "matches time_rx (group m 1)"
proof -
  from fullmatch_runs [OF plain_END(7) assms] obtain t cs where
    "l = ''taken-at '' @ t" "runs time_rx t cs" "caps m = (1, t) # cs"
    by (auto simp: STAMP_def)
  then show "l = ''taken-at '' @ group m 1" "matches time_rx (group m 1)"
    by (auto simp: group_def grp_def fullmatch_lang lang_def)
qed

lemma parse_linesD:
  assumes "parse_lines lines = Inr rs"
  obtains t path st bs xs where "lines = record_lines t path st bs" "matches time_rx t" "nat_of st = 0"
    "length bs = length COMMANDS" "length xs = length COMMANDS" "rs = read_values t xs"
    "\<And>i. i < length COMMANDS \<Longrightarrow> is_status (snd (bs ! i)) \<and>
       interpret_body (fst (COMMANDS ! i)) (snd (COMMANDS ! i)) (fst (bs ! i)) (nat_of (snd (bs ! i))) = Inr (xs ! i)"
proof -
  from assms obtain m rest left where
    hd: "lines \<noteq> []" "hd lines = HEADER" "last lines = FOOTER" and
    m: "rx_fullmatch STAMP (if length lines > 1 then lines ! 1 else []) = Some m" and
    len: "\<not> length lines < 5" "lines ! 2 = ''begin version''" and
    v: "read_version (drop 3 lines) = Inr rest" and
    f: "fold_res read_command (init_readings (group m 1), rest) COMMANDS = Inr (rs, left)" "length left = 1"
    unfolding parse_lines_def init_readings_def
    by (auto simp: bnd_eq_Inr split: option.splits if_split_asm)
  from v obtain path st where vl: "drop 3 lines = [''fastboot version '' @ SEALED_VERSION,
      ''Installed as /'' @ path, ''end version status '' @ st] @ rest" "nat_of st = 0"
    by (rule read_version_lines)
  from read_commands_blocks [OF f(1)] obtain bs xs where
    b: "length bs = length COMMANDS" "length xs = length COMMANDS"
      "rest = concat (map2 block COMMANDS bs) @ left" "rs = read_values (group m 1) xs"
      "\<And>i. i < length COMMANDS \<Longrightarrow> is_status (snd (bs ! i)) \<and>
        interpret_body (fst (COMMANDS ! i)) (snd (COMMANDS ! i)) (fst (bs ! i)) (nat_of (snd (bs ! i))) = Inr (xs ! i)"
    unfolding read_values_def by blast
  obtain l0 l1 l2 ls where lines: "lines = l0 # l1 # l2 # ls"
    using len(1) by (auto simp: not_less numeral_eq_Suc Suc_le_length_iff)
  from f(2) obtain z where left: "left = [z]" by (auto simp: length_Suc_conv)
  have "z = FOOTER" using hd(3) lines vl(1) b(3) left by auto
  moreover have "l0 = HEADER" "l2 = ''begin version''" using hd(2) len(2) lines by (auto simp: numeral_eq_Suc)
  moreover have "l1 = ''taken-at '' @ group m 1" "matches time_rx (group m 1)"
    using STAMP_match [OF m] lines by auto
  ultimately show thesis
    using vl b lines left
    by (intro that [of "group m 1" path st bs xs]) (auto simp: record_lines_def numeral_eq_Suc)
qed

lemma dget_fold_other: "k \<notin> set ns \<Longrightarrow> dget (fold (\<lambda>(n, x). dput n x) (zip ns xs) d) k = dget d k"
  by (induction ns xs arbitrary: d rule: list_induct2') (auto simp: dget_dput)

lemma dget_fold_dput:
  assumes "distinct ns" and "length ns = length xs" and "i < length ns"
  shows "dget (fold (\<lambda>(n, x). dput n x) (zip ns xs) d) (ns ! i) = Some (xs ! i)"
  using assms(2,1,3)
proof (induction ns xs arbitrary: d i rule: list_induct2)
  case Nil
  then show ?case by simp
next
  case (Cons n ns x xs)
  then show ?case by (cases i) (auto simp: dget_fold_other dget_dput)
qed

lemma read_values_item:
  assumes "length xs = length COMMANDS" and "i < length COMMANDS"
  shows "dget (read_values t xs) (snd (COMMANDS ! i)) = Some (xs ! i)"
proof -
  have "distinct (map snd COMMANDS)" by (simp add: COMMANDS_def)
  with dget_fold_dput [of "map snd COMMANDS" xs i "init_readings t"] assms
  show ?thesis by (simp add: read_values_def)
qed

definition answer_line :: "string \<times> string \<Rightarrow> string \<Rightarrow> string" where
  "answer_line cmd v = (if fst cmd = ''getvar'' then [] else ''(bootloader) '') @ snd cmd @ '': '' @ v"

lemma interpret_body_answer:
  assumes "(c, n) \<in> set COMMANDS" and "interpret_body c n body st = Inr x" and "rvalue x = Some v"
  shows "answer_line (c, n) v \<in> set body" and "value_ok n v = Inr True" and "st = 0"
proof -
  have "answer_line (c, n) v \<in> set body \<and> value_ok n v = Inr True \<and> st = 0"
  proof (cases "c = ''getvar''")
    case True
    with assms(2,3) show ?thesis
      by (auto simp: interpret_body_def getvar_def answer_line_def answer_def no_answer_def bnd_eq_Inr Let_def
          starts_with_iff split: list.splits option.splits if_split_asm)
  next
    case False
    with assms(1) have n: "n = ''get_unlock_ability''" by (auto simp: COMMANDS_def)
    from False assms(2,3) obtain f l1 l2 m where
      b: "body = [f, l1, l2]" "rx_fullmatch UNLOCK_ABILITY f = Some m" "group m 1 = v"
        "value_ok ''get_unlock_ability'' v = Inr True" "st = 0"
      by (auto simp: interpret_body_def unlock_ability_def answer_def no_answer_def bnd_eq_Inr
          split: list.splits option.splits if_split_asm)
    from fullmatch_runs [OF plain_END(6) b(2)] b(3) have "f = ''(bootloader) get_unlock_ability: '' @ v"
      by (auto simp: UNLOCK_ABILITY_def group_def grp_def)
    with b n False show ?thesis by (simp add: answer_line_def)
  qed
  then show "answer_line (c, n) v \<in> set body" "value_ok n v = Inr True" "st = 0" by auto
qed

lemma parse_lines_of:
  assumes "parse data = Inr rs"
  shows "parse_lines (split_char nl (butlast data)) = Inr rs" and "ends_with [nl] data" and "length data \<le> MAX_RECORD"
  using assms by (auto simp: parse_def decode_ascii_def split: if_split_asm)

text \<open>An answered reading stands in the record as its answer line, with a value of its table entry.\<close>

lemma parse_answer:
  assumes "parse data = Inr rs" and "(c, n) \<in> set COMMANDS" and "val_of rs n = Some v"
  shows "answer_line (c, n) v \<in> set (split_char nl (butlast data))" and "value_ok n v = Inr True"
proof -
  from parse_linesD [OF parse_lines_of(1) [OF assms(1)]] obtain t path st bs xs where
    L: "split_char nl (butlast data) = record_lines t path st bs" and
    len: "length bs = length COMMANDS" "length xs = length COMMANDS" and rs: "rs = read_values t xs" and
    each: "\<And>i. i < length COMMANDS \<Longrightarrow> is_status (snd (bs ! i)) \<and>
       interpret_body (fst (COMMANDS ! i)) (snd (COMMANDS ! i)) (fst (bs ! i)) (nat_of (snd (bs ! i))) = Inr (xs ! i)"
    by metis
  from assms(2) obtain i where i: "i < length COMMANDS" "COMMANDS ! i = (c, n)" by (auto simp: in_set_conv_nth)
  from assms(3) read_values_item [OF len(2) i(1)] i(2) have v: "rvalue (xs ! i) = Some v"
    by (simp add: rs val_of_def)
  from each [OF i(1)] i(2) have "interpret_body c n (fst (bs ! i)) (nat_of (snd (bs ! i))) = Inr (xs ! i)" by simp
  note ans = interpret_body_answer [OF assms(2) this v]
  show "value_ok n v = Inr True" by (rule ans(2))
  have "block (c, n) (bs ! i) \<in> set (map2 block COMMANDS bs)"
    using nth_mem [of i "map2 block COMMANDS bs"] i len by simp
  with ans(1) show "answer_line (c, n) v \<in> set (split_char nl (butlast data))"
    unfolding L record_lines_def by (fastforce simp: block_def)
qed

lemma parse_has_all:
  assumes "parse data = Inr rs" and "k \<in> set (map snd COMMANDS)"
  shows "dget rs k \<noteq> None"
proof -
  from parse_linesD [OF parse_lines_of(1) [OF assms(1)]] obtain t xs where
    "length xs = length COMMANDS" "rs = read_values t xs" by metis
  moreover from assms(2) obtain i where "i < length COMMANDS" "k = snd (COMMANDS ! i)"
    by (auto simp: in_set_conv_nth)
  ultimately show ?thesis using read_values_item [of xs i t] by simp
qed

lemma parse_taken:
  assumes "parse data = Inr rs"
  shows "dget rs ''taken-at'' \<noteq> None"
proof -
  from parse_linesD [OF parse_lines_of(1) [OF assms]] obtain t xs where
    "length xs = length COMMANDS" "rs = read_values t xs" by metis
  moreover have "''taken-at'' \<notin> set (map snd COMMANDS)" by (simp add: COMMANDS_def)
  ultimately show ?thesis by (simp add: read_values_def dget_fold_other init_readings_def)
qed

lemma main_readings_continue:
  "main_readings file stage os_booted = Inr (''CONTINUE'', st) \<longleftrightarrow>
     st = 0 \<and> (\<exists>data rs p. file = Inr data \<and> parse data = Inr rs \<and>
       stop_point_3 rs stage os_booted = Inr p \<and> continue p)"
proof (cases "bnd file (\<lambda>data. bnd (parse data) (\<lambda>rs. stop_point_3 rs stage os_booted))")
  case (Inl e)
  then show ?thesis by (cases e) (auto simp: main_readings_def bnd_eq_Inl)
next
  case (Inr p)
  then show ?thesis by (auto simp: main_readings_def bnd_eq_Inr split: if_split_asm)
qed

section \<open>The properties\<close>

definition finished_line :: string where
  "finished_line = ''Finished. Total time: 0.001s''"

definition sample_blocks :: "(string list \<times> string) list" where
  "sample_blocks =
    [([''product: caiman'', finished_line], ''0''), ([''is-userspace: no'', finished_line], ''0''),
     ([''version-bootloader: ripcurrentpro-16.0-1'', finished_line], ''0''),
     ([''version-baseband: g5400c-1'', finished_line], ''0''), ([''current-slot: a'', finished_line], ''0''),
     ([''unlocked: yes'', finished_line], ''0''), ([''snapshot-update-status: none'', finished_line], ''0''),
     ([''(bootloader) get_unlock_ability: 1'', ''OKAY [  0.001s]'', finished_line], ''0'')]"

definition sample_lines :: "string list" where
  "sample_lines = record_lines ''2026-01-02T03:04:05Z'' ''opt/fastboot'' ''0'' sample_blocks"

definition sample_record :: string where
  "sample_record = join [nl] sample_lines @ [nl]"

lemma join_props:
  assumes "list_all (list_all P) ls" and "list_all P sep"
  shows "list_all P (join sep ls)"
  using assms by (induction sep ls rule: join.induct) auto

lemma sample_facts:
  "list_all (list_all (\<lambda>c. is_ascii c \<and> c \<noteq> nl \<and> c \<noteq> CHR 0x0D \<and> c \<noteq> CHR 0x00)) sample_lines"
  "sample_lines \<noteq> []" "length sample_record \<le> 2000"
  by code_simp+

lemma parse_sample: "parse sample_record = parse_lines sample_lines"
proof -
  have "nl \<notin> set l" if "l \<in> set sample_lines" for l
    using sample_facts(1) that by (auto simp: list_all_iff)
  then have "split_char nl (butlast sample_record) = sample_lines"
    using split_char_join [OF sample_facts(2)] by (auto simp: sample_record_def butlast_append)
  moreover have "list_all (\<lambda>c. is_ascii c \<and> c \<noteq> CHR 0x0D \<and> c \<noteq> CHR 0x00) (join [nl] sample_lines)"
  proof (rule join_props)
    show "list_all (list_all (\<lambda>c. is_ascii c \<and> c \<noteq> CHR 0x0D \<and> c \<noteq> CHR 0x00)) sample_lines"
      using sample_facts(1) unfolding list_all_iff by blast
  qed (simp add: is_ascii_def)
  then have asc: "list_all is_ascii sample_record" and ctl: "CHR 0x0D \<notin> set sample_record" "CHR 0x00 \<notin> set sample_record"
    and nl: "ends_with [nl] sample_record"
    by (auto simp: sample_record_def list_all_iff is_ascii_def)
  moreover have "\<not> MAX_RECORD < length sample_record" using sample_facts(3) by (simp add: MAX_RECORD_def)
  ultimately show ?thesis by (simp add: parse_def decode_ascii_def)
qed

lemma sample_readings:
  "\<exists>rs. parse sample_record = Inr rs \<and> main_readings (Inr sample_record) 8 True = Inr (''CONTINUE'', 0)"
proof -
  have "(case parse_lines sample_lines of Inl e \<Rightarrow> False
     | Inr rs \<Rightarrow> (case stop_point_3 rs 8 True of Inl e \<Rightarrow> False | Inr p \<Rightarrow> continue p))"
    by code_simp
  then show ?thesis
    by (auto simp: parse_sample main_readings_continue split: sum.splits)
qed

text \<open>
  C29: a session may go on exactly when the product is the supported phone, the bootloader is not
  userspace fastboot, no merge is pending in an OS that boots, the bootloader may be unlocked from
  stage 7 and is unlocked from stage 8; and the session is restricted exactly when the OS does not
  boot and the snapshot status is anything but none.
\<close>

theorem stop_point_3_decides:
  assumes "parse data = Inr rs" and "stage \<in> set SESSION_STAGES"
  shows "\<exists>p. stop_point_3 rs stage os_booted = Inr p \<and>
    (continue p \<longleftrightarrow>
      val_of rs ''product'' = Some DEVICE \<and> val_of rs ''is-userspace'' \<noteq> Some ''yes'' \<and>
      (os_booted \<longrightarrow> val_of rs ''snapshot-update-status'' = Some ''none'') \<and>
      (stage \<ge> 7 \<longrightarrow> val_of rs ''get_unlock_ability'' = Some ''1'') \<and>
      (stage \<ge> 8 \<longrightarrow> val_of rs ''unlocked'' = Some ''yes'')) \<and>
    (restricted p \<longleftrightarrow> \<not> os_booted \<and> val_of rs ''snapshot-update-status'' \<noteq> Some ''none'') \<and>
    (continue p \<longleftrightarrow> stops p = [])"
proof -
  from stop_point_3_defined [OF assms(2) parse_has_all [OF assms(1)]] obtain p where
    "stop_point_3 rs stage os_booted = Inr p" by blast
  with stop_point_3_rules [OF this] show ?thesis by blast
qed

theorem stop_point_3_decides_witness:
  "\<exists>rs p. parse sample_record = Inr rs \<and> (8::int) \<in> set SESSION_STAGES \<and> stop_point_3 rs 8 True = Inr p"
proof -
  from sample_readings obtain rs where "parse sample_record = Inr rs" by blast
  moreover have "(8::int) \<in> set SESSION_STAGES" by (simp add: SESSION_STAGES_def)
  ultimately show ?thesis using stop_point_3_decides [of sample_record rs 8 True] by blast
qed

text \<open>
  C28: the verdict CONTINUE rests on the bytes of the record. They end with a newline and hold the
  literal answer lines that the rules of the stage ask for.
\<close>

theorem continue_evidence:
  assumes "main_readings (Inr data) stage os_booted = Inr (''CONTINUE'', st)"
  shows "st = 0 \<and> ends_with [nl] data \<and> length data \<le> MAX_RECORD \<and>
    ''product: caiman'' \<in> set (split_char nl (butlast data)) \<and>
    (os_booted \<longrightarrow> ''snapshot-update-status: none'' \<in> set (split_char nl (butlast data))) \<and>
    (stage \<ge> 7 \<longrightarrow> ''(bootloader) get_unlock_ability: 1'' \<in> set (split_char nl (butlast data))) \<and>
    (stage \<ge> 8 \<longrightarrow> ''unlocked: yes'' \<in> set (split_char nl (butlast data)))"
proof -
  from assms obtain rs p where st: "st = 0" and rs: "parse data = Inr rs"
    and p: "stop_point_3 rs stage os_booted = Inr p" "continue p"
    by (auto simp: main_readings_continue)
  note rules = stop_point_3_rules(1) [OF p(1), unfolded DEVICE_def, simplified p(2), simplified]
  have cmds: "(''getvar'', ''product'') \<in> set COMMANDS" "(''getvar'', ''snapshot-update-status'') \<in> set COMMANDS"
    "(''flashing'', ''get_unlock_ability'') \<in> set COMMANDS" "(''getvar'', ''unlocked'') \<in> set COMMANDS"
    by (simp_all add: COMMANDS_def)
  note ev = cmds [THEN parse_answer(1) [OF rs]]
  have "''product: caiman'' \<in> set (split_char nl (butlast data))"
    using ev(1) [of "''caiman''"] rules by (simp add: answer_line_def)
  moreover have "os_booted \<longrightarrow> ''snapshot-update-status: none'' \<in> set (split_char nl (butlast data))"
    using ev(2) [of "''none''"] rules by (simp add: answer_line_def)
  moreover have "stage \<ge> 7 \<longrightarrow> ''(bootloader) get_unlock_ability: 1'' \<in> set (split_char nl (butlast data))"
    using ev(3) [of "''1''"] rules by (simp add: answer_line_def)
  moreover have "stage \<ge> 8 \<longrightarrow> ''unlocked: yes'' \<in> set (split_char nl (butlast data))"
    using ev(4) [of "''yes''"] rules by (simp add: answer_line_def)
  ultimately show ?thesis using st parse_lines_of(2,3) [OF rs] by blast
qed

theorem continue_evidence_witness:
  "main_readings (Inr sample_record) 8 True = Inr (''CONTINUE'', 0) \<and>
   ''unlocked: yes'' \<in> set (split_char nl (butlast sample_record))"
proof -
  from sample_readings have "main_readings (Inr sample_record) 8 True = Inr (''CONTINUE'', 0)" by blast
  with continue_evidence [OF this] show ?thesis by simp
qed

text \<open>
  C33: an accepted record is exactly the header, the time, the sealed fastboot's version block, the
  eight command blocks in their order and the footer; every block's output is interpreted as the
  reading of its command, and the readings are those eight and the two of the prefix.
\<close>

theorem parse_structure:
  assumes "parse data = Inr rs"
  shows "\<exists>t path st bs xs. split_char nl (butlast data) = record_lines t path st bs \<and>
    matches time_rx t \<and> nat_of st = 0 \<and> length bs = 8 \<and> length xs = 8 \<and> rs = read_values t xs \<and>
    (\<forall>i < 8. is_status (snd (bs ! i)) \<and> interpret_body (fst (COMMANDS ! i)) (snd (COMMANDS ! i))
       (fst (bs ! i)) (nat_of (snd (bs ! i))) = Inr (xs ! i))"
proof -
  have 8: "length COMMANDS = 8" by (simp add: COMMANDS_def)
  show ?thesis
    by (rule parse_linesD [OF parse_lines_of(1) [OF assms], unfolded 8]) blast
qed

theorem parse_structure_witness:
  "\<exists>rs t path st bs. parse sample_record = Inr rs \<and>
     split_char nl (butlast sample_record) = record_lines t path st bs \<and> matches time_rx t"
proof -
  from sample_readings obtain rs where "parse sample_record = Inr rs" by blast
  with parse_structure [OF this] show ?thesis by blast
qed

end
