(* ===== verification/Session_Record.thy ===== *)
theory Session_Record
  imports Readings
begin

text \<open>
  \<^verbatim>\<open>scripts/pixel/version_criterion.py\<close>, the session record: times and dates, \<^verbatim>\<open>check_session\<close> with its parts,
  \<^verbatim>\<open>stable_start\<close> and \<^verbatim>\<open>start_session\<close>. A record is the JSON value the checker keeps on disk, a dictionary;
  \<^verbatim>\<open>hashlib.sha256\<close> is the parameter \<open>sha\<close>. The clock is an argument, as the functions allow.
\<close>

type_synonym session = "(string \<times> json) list"

section \<open>Constants, times and dates\<close>

definition KINDS :: "string list" where
  "KINDS = [''grapheneos'', ''andrix'', ''stock'']"

definition SESSION_SCHEMA :: string where
  "SESSION_SCHEMA = ''andrix.pixel.session/1''"

definition SESSION_ID :: "char rx" where
  "SESSION_ID = Seq (Sym is_alnum) (between 0 63 (Sym is_version_c))"

definition STABLE_MAX_AGE_MINUTES :: int where
  "STABLE_MAX_AGE_MINUTES = 15"

definition check_time :: "json \<Rightarrow> string res" where
  "check_time v = (case v of
     JStr t \<Rightarrow>
       if \<not> matches time_rx t then refuse ''is not a UTC time like 2026-10-09T10:30:00Z''
       else if \<not> time_valid_text t then refuse ''is not a valid time''
       else Inr t
   | _ \<Rightarrow> refuse ''is not a UTC time like 2026-10-09T10:30:00Z'')"

definition check_day :: "json \<Rightarrow> string res" where
  "check_day v = (case v of
     JStr t \<Rightarrow>
       if \<not> matches day_rx t then refuse ''is not a date like 2026-10-09''
       else if \<not> date_valid_text t then refuse ''is not a valid date''
       else Inr t
   | _ \<Rightarrow> refuse ''is not a date like 2026-10-09'')"

definition secs_between :: "string \<Rightarrow> string \<Rightarrow> int" where
  "secs_between a b = time_secs b - time_secs a"

definition within_minutes :: "int \<Rightarrow> string \<Rightarrow> string \<Rightarrow> bool" where
  "within_minutes m a b \<longleftrightarrow> time_secs b - time_secs a \<le> 60 * m"

section \<open>Checking a record\<close>

definition origin_ok :: "session \<Rightarrow> bool" where
  "origin_ok d = (case dget d ''previous_sha256'' of
     None \<Rightarrow> matches SHA256 []
   | Some JNull \<Rightarrow> True
   | Some v \<Rightarrow> matches SHA256 (py_str v))"

definition STABLE_KEYS :: "string list" where
  "STABLE_KEYS = [''release'', ''fetched_at'', ''build_number'', ''sha256'']"

definition check_stable_entry :: "session \<Rightarrow> release \<Rightarrow> string \<Rightarrow> unit res" where
  "check_stable_entry d start started =
    (case dget d ''stable'' of
       None \<Rightarrow> refuse ''the session record does not say whether it started from the current stable release''
     | Some JNull \<Rightarrow>
         if jget d ''previous_sha256'' = JNull
         then refuse ''the first session record names no current stable release that it started from''
         else Inr ()
     | Some (JDict e) \<Rightarrow>
         if \<not> keys_are e STABLE_KEYS
         then refuse ''the stable entry is not release, fetched_at, build_number and sha256''
         else bnd (parse_release (jget e ''release'') True) (\<lambda>rel.
           bnd (parse_release (jget e ''build_number'') True) (\<lambda>build.
           bnd (check_time (jget e ''fetched_at'')) (\<lambda>fetched.
             if \<not> matches SHA256 (py_str (jget e ''sha256''))
             then refuse ''the stable entry names no SHA-256 of caiman-stable''
             else if number rel \<noteq> number start \<or> \<not> same_release build rel
             then refuse ''the stable entry does not match its start release and build number''
             else if \<not> (0 \<le> secs_between fetched started \<and> within_minutes STABLE_MAX_AGE_MINUTES fetched started)
             then refuse ''caiman-stable was not fetched within minutes before its start''
             else Inr ())))
     | Some _ \<Rightarrow> refuse ''the stable entry is not release, fetched_at, build_number and sha256'')"

definition INFO_KEYS :: "string list" where
  "INFO_KEYS = [''board'', ''bootloader'', ''baseband'', ''partitions'']"

definition str_of :: "json \<Rightarrow> string" where
  "str_of v = (case v of JStr s \<Rightarrow> s | _ \<Rightarrow> [])"

definition android_info_of :: "json \<Rightarrow> android_info res" where
  "android_info_of v = (case v of
     JDict d \<Rightarrow>
       if \<not> keys_are d INFO_KEYS then refuse ''has no valid android-info.txt''
       else if \<not> (is_str (jget d ''board'') \<and> is_str (jget d ''bootloader'') \<and> is_str (jget d ''baseband''))
       then refuse ''has no valid android-info.txt''
       else (case jget d ''partitions'' of
           JList ps \<Rightarrow>
             if \<not> list_all is_str ps then refuse ''has no valid android-info.txt''
             else Inr \<lparr>board = str_of (jget d ''board''), bootloader = str_of (jget d ''bootloader''),
               baseband = str_of (jget d ''baseband''), partitions = map str_of ps\<rparr>
         | _ \<Rightarrow> refuse ''has no valid android-info.txt'')
   | _ \<Rightarrow> refuse ''has no valid android-info.txt'')"

definition IDENTITY_KEYS :: "string list" where
  "IDENTITY_KEYS = [''kind'', ''release'', ''stock_build'', ''android_info'', ''source'', ''wipes_data'', ''at'']"

definition check_identity_entry :: "string \<Rightarrow> string \<times> json \<Rightarrow> unit res" where
  "check_identity_entry started kv = (case kv of (digest, v) \<Rightarrow>
     if \<not> matches SHA256 digest then refuse ''names a verified image by no SHA-256''
     else (case v of
       JDict e \<Rightarrow>
         if \<not> keys_are e IDENTITY_KEYS then refuse ''the verified identity has other keys''
         else if jget e ''kind'' \<notin> JStr ` set KINDS \<or> \<not> is_str (jget e ''source'') \<or> \<not> is_bool (jget e ''wipes_data'')
         then refuse ''the verified identity has no valid kind, source or wipe effect''
         else bnd (parse_release (jget e ''release'') True) (\<lambda>_.
           bnd (parse_build_id (jget e ''stock_build'')) (\<lambda>_.
           bnd (android_info_of (jget e ''android_info'')) (\<lambda>_.
           bnd (check_time (jget e ''at'')) (\<lambda>at.
             if at < started then refuse ''the verified identity is older than the session'' else Inr ()))))
     | _ \<Rightarrow> refuse ''the verified identity has other keys''))"

definition check_verified :: "session \<Rightarrow> string \<Rightarrow> unit res" where
  "check_verified d started = (case jget d ''verified'' of
     JDict vs \<Rightarrow> each_res (check_identity_entry started) vs
   | _ \<Rightarrow> refuse ''the session record has no map of verified images'')"

definition check_carried :: "session \<Rightarrow> release \<Rightarrow> unit res" where
  "check_carried d start = (case jget d ''carried'' of
     JList ns \<Rightarrow>
       if ns = [] then refuse ''the session record carries no known release''
       else bnd (map_res (\<lambda>n. parse_release n True) ns) (\<lambda>rs.
         if jget d ''start_release'' \<notin> set ns
         then refuse ''the session start release is not among the carried releases''
         else (case newest rs of
             None \<Rightarrow> Inl TypeError
           | Some r \<Rightarrow> if newer r start then refuse ''the session start release is older than a carried release''
               else Inr ()))
   | _ \<Rightarrow> refuse ''the session record carries no known release'')"

definition ENTRY_KEYS :: "string list" where
  "ENTRY_KEYS = [''release'', ''sha256'', ''kind'', ''at'']"

definition check_entry :: "string \<Rightarrow> json \<Rightarrow> string res" where
  "check_entry prev v = (case v of
     JDict e \<Rightarrow>
       if \<not> keys_are e ENTRY_KEYS then refuse ''session entry is not release, sha256, kind and at''
       else bnd (parse_release (jget e ''release'') True) (\<lambda>_.
         bnd (check_time (jget e ''at'')) (\<lambda>at.
           if at < prev then refuse ''the session record is out of time order'' else Inr at))
   | _ \<Rightarrow> refuse ''session entry is not release, sha256, kind and at'')"

definition check_allowed :: "session \<Rightarrow> string \<Rightarrow> unit res" where
  "check_allowed d started = (case jget d ''allowed'' of
     JList es \<Rightarrow> bnd (fold_res check_entry started es) (\<lambda>_. Inr ())
   | _ \<Rightarrow> refuse ''the session record has no list of allowed writes'')"

definition check_session :: "json \<Rightarrow> session res" where
  "check_session v = (case v of
     JDict d \<Rightarrow>
       if jget d ''schema'' \<noteq> JStr SESSION_SCHEMA then refuse ''the session record is no such document''
       else if \<not> matches SESSION_ID (py_str (jget d ''session''))
       then refuse ''the session record has no plain session name''
       else bnd (check_day (jget d ''date'')) (\<lambda>day.
         bnd (check_time (jget d ''started_at'')) (\<lambda>started.
           if day \<noteq> take 10 started then refuse ''the session date is not the UTC date of its start''
           else if \<not> origin_ok d
           then refuse ''the session record names no SHA-256 of a previous record, nor null for the first''
           else bnd (parse_release (jget d ''start_release'') True) (\<lambda>start.
             bnd (check_stable_entry d start started) (\<lambda>_.
             bnd (check_verified d started) (\<lambda>_.
             bnd (check_carried d start) (\<lambda>_.
             bnd (check_allowed d started) (\<lambda>_. Inr d)))))))
   | _ \<Rightarrow> refuse ''the session record is no such document'')"

section \<open>Known releases\<close>

definition list_of :: "json \<Rightarrow> json list" where
  "list_of v = (case v of JList xs \<Rightarrow> xs | _ \<Rightarrow> [])"

definition dict_of :: "json \<Rightarrow> session" where
  "dict_of v = (case v of JDict d \<Rightarrow> d | _ \<Rightarrow> [])"

text \<open>The members that a checked record has; indexing a record that lacks one raises \<^verbatim>\<open>KeyError\<close>.\<close>

definition entry_item :: "string \<Rightarrow> json \<Rightarrow> json res" where
  "entry_item k e = (case e of JDict d \<Rightarrow> jitem d k | _ \<Rightarrow> Inl TypeError)"

definition list_item :: "session \<Rightarrow> string \<Rightarrow> json list res" where
  "list_item d k = bnd (jitem d k) (\<lambda>v. case v of JList xs \<Rightarrow> Inr xs | _ \<Rightarrow> Inl TypeError)"

definition known_numbers :: "session \<Rightarrow> json list res" where
  "known_numbers d =
     bnd (jitem d ''start_release'') (\<lambda>s. bnd (list_item d ''carried'') (\<lambda>cs.
     bnd (list_item d ''allowed'') (\<lambda>es. bnd (map_res (entry_item ''release'') es) (\<lambda>rs. Inr (s # cs @ rs)))))"

definition known_releases :: "session \<Rightarrow> release list res" where
  "known_releases d = bnd (known_numbers d) (map_res (\<lambda>n. parse_release n True))"

definition phone_release :: "session \<Rightarrow> release option res" where
  "phone_release d = bnd (known_releases d) (\<lambda>rs. Inr (newest rs))"

text \<open>\<^verbatim>\<open>record['allowed'][-1]['at'] if record['allowed'] else record['started_at']\<close>\<close>

definition last_entry :: "session \<Rightarrow> json res" where
  "last_entry d = bnd (list_item d ''allowed'') (\<lambda>es.
     case last_opt es of None \<Rightarrow> jitem d ''started_at'' | Some e \<Rightarrow> entry_item ''at'' e)"

section \<open>Starting a session\<close>

definition check_fetch :: "string \<Rightarrow> string \<Rightarrow> unit res" where
  "check_fetch fetched_at now = bnd (check_time (JStr fetched_at)) (\<lambda>_.
     if fetched_at > now then refuse ''caiman-stable is dated after the moment; check the clock''
     else if \<not> within_minutes STABLE_MAX_AGE_MINUTES fetched_at now
     then refuse ''caiman-stable is stale, fetch it again''
     else Inr ())"

definition stable_start :: "(string \<Rightarrow> string) \<Rightarrow> string option \<Rightarrow> string option \<Rightarrow> string option \<Rightarrow> release list \<Rightarrow> string \<Rightarrow> session res" where
  "stable_start sha data fetched_at build_number known now = (case (data, fetched_at, build_number) of
     (Some bytes, Some fetched, Some bn) \<Rightarrow>
       bnd (parse_stable_channel bytes) (\<lambda>rel.
       bnd (check_fetch fetched now) (\<lambda>_.
         if \<not> list_all (newer rel) known
         then refuse ''the current stable release is not newer than the carried releases''
         else bnd (parse_release (JStr bn) True) (\<lambda>build.
           if newer rel build then refuse ''the build number is older than the current stable release''
           else if \<not> same_release build rel
           then refuse ''the build number names another release than the current stable release''
           else Inr [(''release'', JStr (number rel)), (''fetched_at'', JStr fetched),
             (''build_number'', JStr (number build)), (''sha256'', JStr (sha bytes))])))
   | _ \<Rightarrow> refuse ''the record starts from the current stable release, so it needs the caiman-stable file'')"

definition new_record :: "string \<Rightarrow> string \<Rightarrow> string \<Rightarrow> string \<Rightarrow> string list \<Rightarrow> json \<Rightarrow> json \<Rightarrow> session" where
  "new_record session_id day now start carried origin update =
     [(''schema'', JStr SESSION_SCHEMA), (''session'', JStr session_id), (''date'', JStr day),
      (''started_at'', JStr now), (''start_release'', JStr start), (''carried'', JList (map JStr carried)),
      (''previous_sha256'', origin), (''stable'', update), (''verified'', JDict []), (''allowed'', JList [])]"

record start_args =
  sa_stable :: "string option"
  sa_fetched :: "string option"
  sa_build :: "string option"

definition continue_session :: "(string \<Rightarrow> string) \<Rightarrow> string \<Rightarrow> string \<Rightarrow> json \<Rightarrow> string \<Rightarrow> start_args \<Rightarrow> session res" where
  "continue_session sha session_id day previous now a =
     bnd (check_session previous) (\<lambda>prior.
     bnd (jitem prior ''session'') (\<lambda>name.
       if name = JStr session_id then refuse ''the new session needs its own name''
       else bnd (last_entry prior) (\<lambda>at.
         if now \<le> str_of at
         then refuse ''the new session would start not after the previous session's last entry; check the clock''
         else
           bnd (known_releases prior) (\<lambda>known.
           bnd (case newest known of None \<Rightarrow> Inl TypeError | Some r \<Rightarrow> Inr r) (\<lambda>start.
             let carried = map number known; origin = JStr (sha (dump (JDict prior))) in
             if sa_stable a = None \<and> sa_fetched a = None \<and> sa_build a = None then
               check_session (JDict (new_record session_id day now (number start) (sorted_set carried) origin JNull))
             else
               bnd (stable_start sha (sa_stable a) (sa_fetched a) (sa_build a) known now) (\<lambda>update.
               bnd (parse_release (jget update ''release'') True) (\<lambda>st.
                 check_session (JDict (new_record session_id day now (number st)
                   (sorted_set (number st # carried)) origin (JDict update))))))))))"

definition first_session :: "(string \<Rightarrow> string) \<Rightarrow> string \<Rightarrow> string \<Rightarrow> string \<Rightarrow> start_args \<Rightarrow> session res" where
  "first_session sha session_id day now a =
     bnd (stable_start sha (sa_stable a) (sa_fetched a) (sa_build a) [] now) (\<lambda>update.
     bnd (parse_release (jget update ''release'') True) (\<lambda>start.
       check_session (JDict (new_record session_id day now (number start) [number start] JNull (JDict update)))))"

definition start_session ::
  "(string \<Rightarrow> string) \<Rightarrow> string \<Rightarrow> string \<Rightarrow> json option \<Rightarrow> bool \<Rightarrow> string \<Rightarrow> start_args \<Rightarrow> json list \<Rightarrow> session res" where
  "start_session sha session_id day previous first now a names =
     (if \<not> matches SESSION_ID session_id then refuse ''session name is not a plain name''
      else bnd (check_day (JStr day)) (\<lambda>_. bnd (check_time (JStr now)) (\<lambda>_.
        if (previous = None) \<noteq> first
        then refuse ''a session starts from the previous session record, or once as the first session''
        else if JStr session_id \<in> set names
        then refuse ''the chain already holds a session of that name; the new session needs its own name''
        else (case previous of
            Some p \<Rightarrow> continue_session sha session_id day p now a
          | None \<Rightarrow> first_session sha session_id day now a))))"

section \<open>What a checked record holds\<close>

lemma check_time_iff [res_simps]: "check_time v = Inr t \<longleftrightarrow> v = JStr t \<and> is_time t"
  by (cases v) (auto simp: check_time_def is_time_def)

lemma check_day_iff [res_simps]: "check_day v = Inr t \<longleftrightarrow> v = JStr t \<and> is_day t"
  by (cases v) (auto simp: check_day_def is_day_def)

lemma jget_JStr [simp]: "jget d k = JStr s \<longleftrightarrow> dget d k = Some (JStr s)"
  by (auto simp: jget_def split: option.splits)

lemma jget_JList [simp]: "jget d k = JList s \<longleftrightarrow> dget d k = Some (JList s)"
  by (auto simp: jget_def split: option.splits)

lemma jget_JDict [simp]: "jget d k = JDict s \<longleftrightarrow> dget d k = Some (JDict s)"
  by (auto simp: jget_def split: option.splits)

lemma parse_numbers_iff:
  "map_res (\<lambda>n. parse_release n True) vs = Inr rs \<longleftrightarrow> vs = map (\<lambda>r. JStr (number r)) rs \<and> list_all wf_release rs"
proof (induction vs arbitrary: rs)
  case Nil
  then show ?case by auto
next
  case (Cons v vs)
  have "parse_release v True = Inr r \<longleftrightarrow> v = JStr (number r) \<and> wf_release r" for r
    using parse_release_number [of v True r] by (auto simp: parse_release_iff)
  with Cons show ?case by (cases rs) (auto simp: bnd_eq_Inr)
qed

lemma check_carriedD:
  assumes "check_carried d start = Inr u"
  obtains rs where "dget d ''carried'' = Some (JList (map (\<lambda>r. JStr (number r)) rs))" "list_all wf_release rs"
    "rs \<noteq> []" "jget d ''start_release'' \<in> (\<lambda>r. JStr (number r)) ` set rs" "list_all (\<lambda>r. \<not> newer r start) rs"
proof -
  from assms obtain ns rs b where c: "dget d ''carried'' = Some (JList ns)" "ns \<noteq> []"
    "map_res (\<lambda>n. parse_release n True) ns = Inr rs" "jget d ''start_release'' \<in> set ns"
    "newest rs = Some b" "\<not> newer b start"
    by (auto simp: check_carried_def bnd_eq_Inr jget_JList [symmetric] simp del: jget_JList
        split: jval.split_asm option.split_asm if_split_asm)
  have "\<not> newer r start" if "r \<in> set rs" for r
    using rel.pick_max [OF c(5) that] c(6) rel.weak [of r b start] by blast
  with c that [of rs] show thesis by (auto simp: parse_numbers_iff list_all_iff)
qed

lemma check_entryD:
  assumes "check_entry prev v = Inr at"
  obtains e r where "v = JDict e" "keys_are e ENTRY_KEYS" "dget e ''release'' = Some (JStr (number r))" "wf_release r"
    "dget e ''at'' = Some (JStr at)" "is_time at" "prev \<le> at"
proof -
  from assms obtain e r where e: "v = JDict e" "keys_are e ENTRY_KEYS" "parse_release (jget e ''release'') True = Inr r"
    "jget e ''at'' = JStr at" "is_time at" "\<not> at < prev"
    by (auto simp: check_entry_def bnd_eq_Inr check_time_iff simp del: jget_JStr split: jval.split_asm if_split_asm)
  from parse_release_number [OF e(3)] e that [of e r] show thesis by auto
qed

lemma check_entries:
  assumes "fold_res check_entry prev es = Inr at"
  shows "\<exists>rs. map_res (entry_item ''release'') es = Inr (map (\<lambda>r. JStr (number r)) rs) \<and> list_all wf_release rs \<and>
    prev \<le> at \<and> (case last_opt es of None \<Rightarrow> at = prev | Some e \<Rightarrow> entry_item ''at'' e = Inr (JStr at)) \<and>
    length rs = length es"
  using assms
proof (induction es arbitrary: prev)
  case Nil
  then show ?case by (auto simp: last_opt_def)
next
  case (Cons v es)
  from Cons.prems obtain mid where m: "check_entry prev v = Inr mid" "fold_res check_entry mid es = Inr at"
    by (auto simp: bnd_eq_Inr)
  from m(1) obtain e r where e: "v = JDict e" "dget e ''release'' = Some (JStr (number r))" "wf_release r"
    "dget e ''at'' = Some (JStr mid)" "prev \<le> mid" by (rule check_entryD)
  from Cons.IH [OF m(2)] obtain rs where rs: "map_res (entry_item ''release'') es = Inr (map (\<lambda>r. JStr (number r)) rs)"
    "list_all wf_release rs" "mid \<le> at" "length rs = length es"
    "case last_opt es of None \<Rightarrow> at = mid | Some e \<Rightarrow> entry_item ''at'' e = Inr (JStr at)" by blast
  have "case last_opt (v # es) of None \<Rightarrow> at = prev | Some e \<Rightarrow> entry_item ''at'' e = Inr (JStr at)"
    using rs(5) e by (cases "es = []") (auto simp: last_opt_def entry_item_def jitem_def)
  moreover have "map_res (entry_item ''release'') (v # es) = Inr (map (\<lambda>r. JStr (number r)) (r # rs))"
    using rs(1) e by (simp add: entry_item_def jitem_def)
  ultimately show ?case using rs e by (intro exI [of _ "r # rs"]) auto
qed

lemma check_sessionE:
  assumes "check_session v = Inr d"
  obtains started start carried es at where
    "v = JDict d" "dget d ''started_at'' = Some (JStr started)" "is_time started"
    "dget d ''date'' = Some (JStr (take 10 started))"
    "dget d ''start_release'' = Some (JStr (number start))" "wf_release start"
    "dget d ''carried'' = Some (JList (map (\<lambda>r. JStr (number r)) carried))" "list_all wf_release carried"
    "start \<in> set carried" "list_all (\<lambda>r. \<not> newer r start) carried"
    "dget d ''allowed'' = Some (JList es)" "fold_res check_entry started es = Inr at"
    "check_stable_entry d start started = Inr ()" "check_verified d started = Inr ()"
proof -
  from assms obtain started start where
    v: "v = JDict d" and da: "jget d ''date'' = JStr (take 10 started)" and st: "jget d ''started_at'' = JStr started" "is_time started"
    and sr: "parse_release (jget d ''start_release'') True = Inr start"
    and parts: "check_stable_entry d start started = Inr ()" "check_verified d started = Inr ()"
      "check_carried d start = Inr ()" "check_allowed d started = Inr ()"
    by (auto simp: check_session_def bnd_eq_Inr check_time_iff check_day_iff simp del: jget_JStr
        split: jval.split_asm if_split_asm)
  from parse_release_number [OF sr] have start: "dget d ''start_release'' = Some (JStr (number start))" "wf_release start" by auto
  from parts(3) obtain rs where rs: "dget d ''carried'' = Some (JList (map (\<lambda>r. JStr (number r)) rs))" "list_all wf_release rs"
    "jget d ''start_release'' \<in> (\<lambda>r. JStr (number r)) ` set rs" "list_all (\<lambda>r. \<not> newer r start) rs"
    by (rule check_carriedD)
  have mem: "start \<in> set rs"
    using rs(2,3) start wf_release_eq [of start] by (auto simp: jget_def list_all_iff)
  from parts(4) obtain es at where "dget d ''allowed'' = Some (JList es)" "fold_res check_entry started es = Inr at"
    by (auto simp: check_allowed_def bnd_eq_Inr jget_JList [symmetric] simp del: jget_JList split: jval.split_asm)
  with v da st start rs mem parts that show thesis by simp
qed

lemma known_releases_checked:
  assumes "check_session v = Inr d"
  shows "\<exists>start rs. known_releases d = Inr (start # rs) \<and> list_all wf_release (start # rs) \<and>
    dget d ''start_release'' = Some (JStr (number start)) \<and>
    known_numbers d = Inr (map (\<lambda>r. JStr (number r)) (start # rs))"
proof -
  from assms obtain started start carried es at where
    d: "dget d ''start_release'' = Some (JStr (number start))" "wf_release start"
      "dget d ''carried'' = Some (JList (map (\<lambda>r. JStr (number r)) carried))" "list_all wf_release carried"
      "dget d ''allowed'' = Some (JList es)" "fold_res check_entry started es = Inr at"
    by (rule check_sessionE)
  from check_entries [OF d(6)] obtain rs where
    rs: "map_res (entry_item ''release'') es = Inr (map (\<lambda>r. JStr (number r)) rs)" "list_all wf_release rs" by blast
  have k: "known_numbers d = Inr (map (\<lambda>r. JStr (number r)) (start # carried @ rs))"
    using d rs by (simp add: known_numbers_def list_item_def jitem_def)
  moreover have "known_releases d = Inr (start # carried @ rs)"
  proof -
    have "known_releases d = map_res (\<lambda>n. parse_release n True) (map (\<lambda>r. JStr (number r)) (start # carried @ rs))"
      by (simp only: known_releases_def k bnd_Inr)
    moreover have "list_all wf_release (start # carried @ rs)" using d rs by simp
    ultimately show ?thesis using parse_numbers_iff by metis
  qed
  ultimately show ?thesis using d(1,2,4) rs(2) by (intro exI [of _ start] exI [of _ "carried @ rs"]) auto
qed

lemma phone_release_checked:
  assumes "check_session v = Inr d"
  shows "\<exists>rs r. known_releases d = Inr rs \<and> list_all wf_release rs \<and> phone_release d = Inr (Some r) \<and>
    newest rs = Some r \<and> r \<in> set rs \<and> wf_release r"
proof -
  from known_releases_checked [OF assms] obtain s rs where
    k: "known_releases d = Inr (s # rs)" "list_all wf_release (s # rs)" by blast
  obtain r where r: "newest (s # rs) = Some r" using rel.pick_None [of "s # rs"] by (cases "newest (s # rs)") auto
  from rel.pick_mem [OF r] have "r \<in> set (s # rs)" .
  with k r show ?thesis by (intro exI [of _ "s # rs"] exI [of _ r]) (auto simp: phone_release_def list_all_iff)
qed

section \<open>No start lowers the reference\<close>

lemma stable_startD:
  assumes "stable_start sha data fetched bn known now = Inr u"
  obtains bytes f b r q where "data = Some bytes" "fetched = Some f" "bn = Some b" "parse_stable_channel bytes = Inr r"
    "is_time f" "f \<le> now" "within_minutes STABLE_MAX_AGE_MINUTES f now" "list_all (newer r) known"
    "parse_release (JStr b) True = Inr q" "same_release q r" "dget u ''release'' = Some (JStr (number r))" "wf_release r"
    "u = [(''release'', JStr (number r)), (''fetched_at'', JStr f), (''build_number'', JStr (number q)), (''sha256'', JStr (sha bytes))]"
proof -
  from assms obtain bytes f b r q where a: "data = Some bytes" "fetched = Some f" "bn = Some b"
    "parse_stable_channel bytes = Inr r" "is_time f" "f \<le> now" "within_minutes STABLE_MAX_AGE_MINUTES f now"
    "list_all (newer r) known" "parse_release (JStr b) True = Inr q" "same_release q r"
    "u = [(''release'', JStr (number r)), (''fetched_at'', JStr f), (''build_number'', JStr (number q)), (''sha256'', JStr (sha bytes))]"
    by (auto simp: stable_start_def check_fetch_def bnd_eq_Inr check_time_iff not_less
        split: option.split_asm if_split_asm)
  moreover from a(4) have "wf_release r"
    by (auto simp: parse_stable_channel_def parse_release_iff split: option.split_asm)
  ultimately show thesis using that by auto
qed

lemma known_new_record:
  assumes "list_all wf_release (s # rs)"
  shows "known_releases (new_record i day now (number s) (map number rs) origin update) = Inr (s # rs)"
proof -
  have "known_numbers (new_record i day now (number s) (map number rs) origin update)
      = Inr (map (\<lambda>r. JStr (number r)) (s # rs))"
    by (simp add: known_numbers_def new_record_def list_item_def jitem_def comp_def)
  then have "known_releases (new_record i day now (number s) (map number rs) origin update) =
      map_res (\<lambda>n. parse_release n True) (map (\<lambda>r. JStr (number r)) (s # rs))"
    by (simp only: known_releases_def bnd_Inr)
  with assms show ?thesis using parse_numbers_iff by metis
qed

lemma sorted_numbers:
  assumes "list_all wf_release rs"
  shows "\<exists>qs. sorted_set (map number rs) = map number qs \<and> set qs = set rs"
proof -
  have "\<exists>qs. ns = map number qs \<and> set qs \<subseteq> set rs" if "set ns \<subseteq> number ` set rs" for ns
    using that
  proof (induction ns)
    case (Cons n ns)
    then obtain r qs where "r \<in> set rs" "n = number r" "ns = map number qs" "set qs \<subseteq> set rs" by auto
    then show ?case by (intro exI [of _ "r # qs"]) auto
  qed simp
  from this [of "sorted_set (map number rs)"] obtain qs where
    q: "sorted_set (map number rs) = map number qs" "set qs \<subseteq> set rs" by auto
  have "number ` set qs = number ` set rs" using arg_cong [OF q(1), of set] by simp
  have "set rs \<subseteq> set qs"
  proof
    fix r assume r: "r \<in> set rs"
    with \<open>number ` set qs = number ` set rs\<close> have "number r \<in> number ` set qs" by simp
    then obtain x where x: "x \<in> set qs" "number x = number r" by (metis imageE)
    moreover have "wf_release x" "wf_release r" using x(1) q(2) r assms by (auto simp: list_all_iff)
    ultimately show "r \<in> set qs" using wf_release_eq by metis
  qed
  with q show ?thesis by blast
qed

lemma check_session_id: "check_session v = Inr d \<Longrightarrow> v = JDict d"
  by (erule check_sessionE) simp

lemma new_record_get:
  "dget (new_record i day now s c origin update) ''previous_sha256'' = Some origin"
  "dget (new_record i day now s c origin update) ''started_at'' = Some (JStr now)"
  "dget (new_record i day now s c origin update) ''session'' = Some (JStr i)"
  "dget (new_record i day now s c origin update) ''stable'' = Some update"
  "dget (new_record i day now s c origin update) ''verified'' = Some (JDict [])"
  "dget (new_record i day now s c origin update) ''allowed'' = Some (JList [])"
  by (simp_all add: new_record_def)

lemma known_new_sorted:
  assumes "list_all wf_release (s # rs)"
  obtains qs where "sorted_set (map number rs) = map number qs" "set qs = set rs"
    "\<forall>i day now origin update. known_releases (new_record i day now (number s) (map number qs) origin update) = Inr (s # qs)"
proof -
  from assms have "list_all wf_release rs" by simp
  from sorted_numbers [OF this] obtain qs where q: "sorted_set (map number rs) = map number qs" "set qs = set rs" by blast
  with assms have "list_all wf_release (s # qs)" by (simp add: list_all_iff)
  from known_new_record [OF this] q that show thesis by blast
qed

lemma continue_sessionE:
  assumes "continue_session sha i day v now a = Inr d"
  obtains p known s qs at origin update where "v = JDict p" "check_session v = Inr p" "check_session (JDict d) = Inr d"
    "known_releases p = Inr known" "known_releases d = Inr (s # qs)" "set known \<subseteq> set qs"
    "list_all (\<lambda>r. \<not> newer r s) known" "last_entry p = Inr (JStr at)" "at < now"
    "dget p ''session'' \<noteq> Some (JStr i)"
    "d = new_record i day now (number s) (map number qs) (JStr (sha (dump (JDict p)))) update"
    "update = JNull \<and> newest known = Some s \<or> update \<noteq> JNull \<and> list_all (newer s) known"
proof -
  from assms obtain p name atv known start where
    p: "check_session v = Inr p" "dget p ''session'' = Some name" "name \<noteq> JStr i" "last_entry p = Inr atv"
      "\<not> now \<le> str_of atv" "known_releases p = Inr known" "newest known = Some start"
    and r: "(if sa_stable a = None \<and> sa_fetched a = None \<and> sa_build a = None then
         check_session (JDict (new_record i day now (number start) (sorted_set (map number known)) (JStr (sha (dump (JDict p)))) JNull))
       else bnd (stable_start sha (sa_stable a) (sa_fetched a) (sa_build a) known now) (\<lambda>update.
         bnd (parse_release (jget update ''release'') True) (\<lambda>st.
           check_session (JDict (new_record i day now (number st) (sorted_set (number st # map number known))
             (JStr (sha (dump (JDict p)))) (JDict update)))))) = Inr d"
    unfolding continue_session_def bnd_eq_Inr if_Inl_eq_Inr jitem_Inr Let_def
    by (auto simp del: jget_JStr split: option.split_asm)
  have vp: "v = JDict p" by (rule check_session_id) (rule p(1))
  from phone_release_checked [OF p(1)] p(6) have wk: "list_all wf_release known" by auto
  from p(1) obtain started es at where
    es: "dget p ''started_at'' = Some (JStr started)" "dget p ''allowed'' = Some (JList es)" "fold_res check_entry started es = Inr at"
    by (rule check_sessionE)
  from check_entries [OF es(3)] es p(4) have at: "atv = JStr at"
    by (auto simp: last_entry_def list_item_def jitem_def last_opt_def split: if_split_asm)
  with p(5) have lt: "at < now" by (simp add: str_of_def)
  show thesis
  proof (cases "sa_stable a = None \<and> sa_fetched a = None \<and> sa_build a = None")
    case True
    from rel.pick_mem [OF p(7)] wk have "list_all wf_release (start # known)" by (simp add: list_all_iff)
    then obtain qs where q: "sorted_set (map number known) = map number qs" "set qs = set known"
      "\<forall>i day now origin update. known_releases (new_record i day now (number start) (map number qs) origin update) = Inr (start # qs)"
      by (rule known_new_sorted)
    from r True q(1) have c: "check_session (JDict (new_record i day now (number start) (map number qs) (JStr (sha (dump (JDict p)))) JNull)) = Inr d"
      by simp
    from check_session_id [OF c] have d: "d = new_record i day now (number start) (map number qs) (JStr (sha (dump (JDict p)))) JNull"
      by simp
    show ?thesis
    proof (rule that [OF vp p(1) _ p(6) _ _ _ _ lt _ d])
      show "check_session (JDict d) = Inr d" using c d by simp
      show "known_releases d = Inr (start # qs)" unfolding d using q(3) by simp
      show "list_all (\<lambda>r. \<not> newer r start) known" using rel.pick_max [OF p(7)] by (simp add: list_all_iff)
    qed (use q p at in auto)
  next
    case False
    from r False obtain update st where u: "stable_start sha (sa_stable a) (sa_fetched a) (sa_build a) known now = Inr update"
      "parse_release (jget update ''release'') True = Inr st"
      "check_session (JDict (new_record i day now (number st) (sorted_set (map number (st # known)))
             (JStr (sha (dump (JDict p)))) (JDict update))) = Inr d"
      unfolding if_not_P [OF False] bnd_eq_Inr by auto
    from u(1) obtain rel where rel: "list_all (newer rel) known" "dget update ''release'' = Some (JStr (number rel))" "wf_release rel"
      by (rule stable_startD)
    from parse_release_number [OF u(2)] rel(2,3) have st: "st = rel" "wf_release st"
      using wf_release_eq [of st rel] by (auto simp: jget_def)
    with wk have "list_all wf_release (st # st # known)" by simp
    then obtain qs where q: "sorted_set (map number (st # known)) = map number qs" "set qs = set (st # known)"
      "\<forall>i day now origin update. known_releases (new_record i day now (number st) (map number qs) origin update) = Inr (st # qs)"
      by (rule known_new_sorted)
    from u(3) have c: "check_session (JDict (new_record i day now (number st) (map number qs) (JStr (sha (dump (JDict p)))) (JDict update))) = Inr d"
      unfolding q(1) .
    from check_session_id [OF c] have d: "d = new_record i day now (number st) (map number qs) (JStr (sha (dump (JDict p)))) (JDict update)"
      by simp
    show ?thesis
    proof (rule that [OF vp p(1) _ p(6) _ _ _ _ lt _ d])
      show "check_session (JDict d) = Inr d" using c d by simp
      show "known_releases d = Inr (st # qs)" unfolding d using q(3) by simp
      show "list_all (\<lambda>r. \<not> newer r st) known"
        using rel(1) st(1) newer_asym by (auto simp: list_all_iff)
    qed (use q p at rel st in auto)
  qed
qed

lemma start_sessionE:
  assumes "start_session sha i day previous first now a names = Inr d"
  shows "matches SESSION_ID i" "is_day day" "is_time now" "JStr i \<notin> set names" "(previous = None) = first"
    "case previous of Some p \<Rightarrow> continue_session sha i day p now a = Inr d | None \<Rightarrow> first_session sha i day now a = Inr d"
  using assms by (auto simp: start_session_def bnd_eq_Inr check_day_iff check_time_iff split: option.splits if_split_asm)

lemma first_sessionE:
  assumes "first_session sha i day now a = Inr d"
  obtains bytes f b r q where "sa_stable a = Some bytes" "sa_fetched a = Some f" "sa_build a = Some b"
    "parse_stable_channel bytes = Inr r" "wf_release r" "f \<le> now" "within_minutes STABLE_MAX_AGE_MINUTES f now"
    "parse_release (JStr b) True = Inr q" "same_release q r"
    "d = new_record i day now (number r) [number r] JNull (JDict [(''release'', JStr (number r)), (''fetched_at'', JStr f),
       (''build_number'', JStr (number q)), (''sha256'', JStr (sha bytes))])" "check_session (JDict d) = Inr d"
    "known_releases d = Inr [r, r]"
proof -
  from assms obtain update st where u: "stable_start sha (sa_stable a) (sa_fetched a) (sa_build a) [] now = Inr update"
    "parse_release (jget update ''release'') True = Inr st"
    "check_session (JDict (new_record i day now (number st) [number st] JNull (JDict update))) = Inr d"
    by (auto simp: first_session_def bnd_eq_Inr simp del: jget_JStr)
  from check_session_id [OF u(3)] have d: "d = new_record i day now (number st) [number st] JNull (JDict update)" by simp
  from u(1) obtain bytes f b r q where rel: "sa_stable a = Some bytes" "sa_fetched a = Some f" "sa_build a = Some b"
    "parse_stable_channel bytes = Inr r" "f \<le> now" "within_minutes STABLE_MAX_AGE_MINUTES f now"
    "parse_release (JStr b) True = Inr q" "same_release q r" "wf_release r" "dget update ''release'' = Some (JStr (number r))"
    "update = [(''release'', JStr (number r)), (''fetched_at'', JStr f), (''build_number'', JStr (number q)), (''sha256'', JStr (sha bytes))]"
    by (rule stable_startD)
  from parse_release_number [OF u(2)] rel(9,10) have st: "st = r"
    using wf_release_eq [of st r] by (auto simp: jget_def)
  have k: "known_releases d = Inr [r, r]"
    using known_new_record [of r "[r]" i day now JNull "JDict update"] rel(9) d st by simp
  show thesis
    by (rule that [OF rel(1-4,9,5-8) _ _ k]) (use u(3) d st rel(11) in auto)
qed

lemma phone_release_eq: "known_releases d = Inr rs \<Longrightarrow> phone_release d = Inr (newest rs)"
  by (simp add: phone_release_def)

section \<open>The properties\<close>

definition sample_sha :: "string \<Rightarrow> string" where
  "sample_sha s = replicate 64 CHR ''0''"

definition sample_stable :: string where
  "sample_stable = ''2026010200 1767312000 caiman stable''"

definition sample_args :: start_args where
  "sample_args = \<lparr>sa_stable = Some sample_stable, sa_fetched = Some ''2026-01-02T03:00:00Z'', sa_build = Some ''2026010200''\<rparr>"

definition sample_first :: session where
  "sample_first = new_record ''first'' ''2026-01-02'' ''2026-01-02T03:04:05Z'' ''2026010200'' [''2026010200''] JNull
     (JDict [(''release'', JStr ''2026010200''), (''fetched_at'', JStr ''2026-01-02T03:00:00Z''),
       (''build_number'', JStr ''2026010200''), (''sha256'', JStr (replicate 64 CHR ''0''))])"

definition no_args :: start_args where
  "no_args = \<lparr>sa_stable = None, sa_fetched = None, sa_build = None\<rparr>"

lemma sample_first_starts:
  "start_session sample_sha ''first'' ''2026-01-02'' None True ''2026-01-02T03:04:05Z'' sample_args [] = Inr sample_first"
  by code_simp

lemma sample_first_checked: "check_session (JDict sample_first) = Inr sample_first"
  by code_simp

lemma sample_second_starts:
  "is_ok (start_session sample_sha ''second'' ''2026-01-03'' (Some (JDict sample_first)) False ''2026-01-03T00:00:00Z'' no_args [JStr ''first''])"
  by code_simp


lemma continue_phone:
  assumes "continue_session sha i day v now a = Inr d"
  shows "\<exists>p r r'. v = JDict p \<and> phone_release p = Inr (Some r) \<and> phone_release d = Inr (Some r') \<and> \<not> newer r r'"
proof -
  from assms obtain p known s qs where k: "v = JDict p" "check_session v = Inr p" "check_session (JDict d) = Inr d"
    "known_releases p = Inr known" "known_releases d = Inr (s # qs)" "set known \<subseteq> set qs"
    by (rule continue_sessionE)
  from phone_release_checked [OF k(2)] k(4) obtain r where r: "phone_release p = Inr (Some r)" "newest known = Some r" by auto
  from phone_release_checked [OF k(3)] k(5) obtain r' where r': "phone_release d = Inr (Some r')" "newest (s # qs) = Some r'" by auto
  have "\<not> newer r r'" using rel.pick_subset [of known "s # qs" r r'] k(6) r(2) r'(2) by auto
  with k(1) r r' show ?thesis by blast
qed

text \<open>
  C12: a session that continues a previous record never lowers the phone's reference release: the new
  record is a checked record that names the previous one by its SHA-256, starts after its last entry,
  carries every release it knew, and its newest known release is not older.
\<close>

theorem start_never_lowers:
  assumes "start_session sha i day (Some v) first now a names = Inr d"
  shows "\<exists>p known known' r r' at. v = JDict p \<and> check_session v = Inr p \<and> check_session (JDict d) = Inr d \<and>
    dget d ''previous_sha256'' = Some (JStr (sha (dump v))) \<and>
    last_entry p = Inr (JStr at) \<and> at < now \<and> dget d ''started_at'' = Some (JStr now) \<and>
    known_releases p = Inr known \<and> known_releases d = Inr known' \<and> set known \<subseteq> set known' \<and>
    phone_release p = Inr (Some r) \<and> phone_release d = Inr (Some r') \<and> \<not> newer r r'"
proof -
  from start_sessionE(6) [OF assms] have c: "continue_session sha i day v now a = Inr d" by simp
  from c obtain p known s qs at update where k: "v = JDict p" "check_session v = Inr p" "check_session (JDict d) = Inr d"
    "known_releases p = Inr known" "known_releases d = Inr (s # qs)" "set known \<subseteq> set qs" "last_entry p = Inr (JStr at)"
    "at < now" "d = new_record i day now (number s) (map number qs) (JStr (sha (dump (JDict p)))) update"
    by (rule continue_sessionE)
  moreover from continue_phone [OF c] k(1) obtain r r' where
    "phone_release p = Inr (Some r)" "phone_release d = Inr (Some r')" "\<not> newer r r'" by auto
  moreover have "dget d ''previous_sha256'' = Some (JStr (sha (dump v)))" "dget d ''started_at'' = Some (JStr now)"
    unfolding k(9) k(1) by (simp_all only: new_record_get)
  moreover have "set known \<subseteq> set (s # qs)" using k(6) by auto
  ultimately show ?thesis by blast
qed

theorem start_never_lowers_witness:
  "\<exists>d r r'. start_session sample_sha ''second'' ''2026-01-03'' (Some (JDict sample_first)) False ''2026-01-03T00:00:00Z'' no_args
       [JStr ''first''] = Inr d \<and> phone_release sample_first = Inr (Some r) \<and> phone_release d = Inr (Some r') \<and> \<not> newer r r'"
proof -
  from sample_second_starts obtain d where d: "start_session sample_sha ''second'' ''2026-01-03'' (Some (JDict sample_first)) False
    ''2026-01-03T00:00:00Z'' no_args [JStr ''first''] = Inr d" by (auto simp: is_ok_def split: sum.split_asm)
  from start_never_lowers [OF d] d show ?thesis by auto
qed

text \<open>
  C35: the first record, and every record of a phone that updated itself, starts from the release that a
  caiman-stable file fetched at most fifteen minutes before names, which the phone's build number shows
  and which is newer than every carried release.
\<close>

theorem stable_start_fresh:
  assumes "stable_start sha data fetched build known now = Inr u"
  shows "\<exists>bytes f b r q. data = Some bytes \<and> fetched = Some f \<and> build = Some b \<and>
    parse_stable_channel bytes = Inr r \<and> parse_release (JStr b) True = Inr q \<and> same_release q r \<and>
    f \<le> now \<and> time_secs now - time_secs f \<le> 900 \<and> list_all (newer r) known \<and>
    dget u ''release'' = Some (JStr (number r)) \<and> dget u ''sha256'' = Some (JStr (sha bytes))"
proof -
  from assms obtain bytes f b r q where a: "data = Some bytes" "fetched = Some f" "build = Some b" "parse_stable_channel bytes = Inr r"
    "f \<le> now" "within_minutes STABLE_MAX_AGE_MINUTES f now" "list_all (newer r) known"
    "parse_release (JStr b) True = Inr q" "same_release q r"
    "u = [(''release'', JStr (number r)), (''fetched_at'', JStr f), (''build_number'', JStr (number q)), (''sha256'', JStr (sha bytes))]"
    by (rule stable_startD)
  moreover from a(6) have "time_secs now - time_secs f \<le> 900"
    by (simp add: within_minutes_def STABLE_MAX_AGE_MINUTES_def)
  ultimately show ?thesis by auto
qed

theorem stable_start_fresh_witness:
  "\<exists>u r. stable_start sample_sha (Some sample_stable) (Some ''2026-01-02T03:00:00Z'') (Some ''2026010200'') [] ''2026-01-02T03:04:05Z'' = Inr u \<and>
     parse_stable_channel sample_stable = Inr r \<and> dget u ''release'' = Some (JStr (number r))"
proof -
  have "is_ok (stable_start sample_sha (Some sample_stable) (Some ''2026-01-02T03:00:00Z'') (Some ''2026010200'') [] ''2026-01-02T03:04:05Z'')"
    by code_simp
  then obtain u where u: "stable_start sample_sha (Some sample_stable) (Some ''2026-01-02T03:00:00Z'') (Some ''2026010200'') []
    ''2026-01-02T03:04:05Z'' = Inr u" by (auto simp: is_ok_def split: sum.split_asm)
  from stable_start_fresh [OF u] u show ?thesis by auto
qed

end
