(* ===== verification/Adevtool_Record.thy ===== *)
theory Adevtool_Record
  imports Session_Record
begin

text \<open>
  \<^verbatim>\<open>scripts/pixel/adevtool_record.py\<close>: the strict readers of adevtool's device config, build index and
  generated module, the record they derive for a tag and the check of such a record. A source tree is
  the finite map \<open>fs\<close> from the components of a path to the bytes of its regular files; whether a
  path runs through a symbolic link is the parameter \<open>direct\<close>. \<^verbatim>\<open>ET.fromstring(...).findall('project')\<close> is
  the parameter \<open>projects\<close>; what Git and the file system say of the checkout of adevtool is a \<open>worktree\<close>.
\<close>

section \<open>Constants and plain scalars\<close>

definition ADEV_SCHEMA :: string where
  "ADEV_SCHEMA = ''andrix.pixel.adevtool/1''"

definition CONFIG_DIR :: "string list" where
  "CONFIG_DIR = [''config'', ''device'']"

definition INDEX :: "string list" where
  "INDEX = [''config'', ''build-index'', ''build-index-main.yml'']"

definition SKEL :: "string list" where
  "SKEL = [''vendor-skels'', ''google_devices'', DEVICE]"

definition MAX_FILE :: nat where
  "MAX_FILE = 4194304"

definition BUILD_KEYS :: "string list" where
  "BUILD_KEYS = [''build_id'', ''backport_build_id'', ''prev_build_id'']"

definition FLAG_KEYS :: "string list" where
  "FLAG_KEYS = [''is_beta_build_id'', ''is_beta_backport_build_id'', ''backport_bootloader_firmware'',
     ''backport_radio_firmware'']"

definition not_nl :: "char \<Rightarrow> bool" where
  "not_nl c \<longleftrightarrow> c \<noteq> nl"

definition KEY :: "char rx" where
  "KEY = seqs [Grp 1 (Seq (Sym (\<lambda>c. is_alpha c \<or> c = CHR ''_'')) (star (Sym is_word))), lit '':'',
     opt (Grp 2 (Seq (lit '' '') (star (Sym not_nl))))]"

definition INCLUDE :: "char rx" where
  "INCLUDE = seqs [Sym is_word, star (Sym (\<lambda>c. is_word c \<or> c \<in> set ''./-'')), lit ''.yml'']"

type_synonym tree = "(string list \<times> string) list"

text \<open>
  UTF-8 as Python's strict decoder reads it. The decoded text is kept in its encoded form, in which
  the order of texts and every ASCII pattern agree with those of the decoded text.
\<close>

definition cont :: "nat \<Rightarrow> bool" where
  "cont n \<longleftrightarrow> 128 \<le> n \<and> n \<le> 191"

fun utf8_ok :: "nat list \<Rightarrow> bool" where
  "utf8_ok [] = True"
| "utf8_ok (a # xs) =
     (if a \<le> 127 then utf8_ok xs
      else if 194 \<le> a \<and> a \<le> 223 then (case xs of b # ys \<Rightarrow> cont b \<and> utf8_ok ys | _ \<Rightarrow> False)
      else if 224 \<le> a \<and> a \<le> 239 then
        (case xs of b # c # ys \<Rightarrow> cont b \<and> cont c \<and> (a = 224 \<longrightarrow> 160 \<le> b) \<and> (a = 237 \<longrightarrow> b \<le> 159) \<and> utf8_ok ys | _ \<Rightarrow> False)
      else if 240 \<le> a \<and> a \<le> 244 then
        (case xs of b # c # d # ys \<Rightarrow> cont b \<and> cont c \<and> cont d \<and> (a = 240 \<longrightarrow> 144 \<le> b) \<and> (a = 244 \<longrightarrow> b \<le> 143) \<and> utf8_ok ys
         | _ \<Rightarrow> False)
      else False)"

definition read_text :: "tree \<Rightarrow> string list \<Rightarrow> string res" where
  "read_text fs path = (case dget fs path of
     None \<Rightarrow> refuse ''is not a regular file''
   | Some data \<Rightarrow>
       if length data > MAX_FILE then refuse ''is larger than the limit''
       else if \<not> utf8_ok (map ord_c data) then refuse ''is not UTF-8''
       else if bad_control data then refuse ''contains carriage returns, tabs or NUL bytes''
       else Inr data)"

text \<open>
  \<^verbatim>\<open>strip\<close> on such a text removes ASCII white space; white space outside ASCII is left in place.
\<close>

definition ascii_space :: "char \<Rightarrow> bool" where
  "ascii_space c \<longleftrightarrow> in_range 9 13 c \<or> in_range 28 32 c"

definition rstrip_a :: "string \<Rightarrow> string" where
  "rstrip_a s = rev (dropWhile ascii_space (rev s))"

definition strip_a :: "string \<Rightarrow> string" where
  "strip_a s = rstrip_a (dropWhile ascii_space s)"

definition before :: "string \<Rightarrow> string \<Rightarrow> string" where
  "before p s = (case find_sub p s of None \<Rightarrow> s | Some i \<Rightarrow> take i s)"

definition scalar_mark :: "char \<Rightarrow> bool" where
  "scalar_mark c \<longleftrightarrow> c \<in> set ''[]{}&*!|>%@,?:-'' \<or> c \<in> {CHR 0x27, CHR 0x22, CHR 0x60}"

definition scalar :: "string \<Rightarrow> string res" where
  "scalar raw =
    (let stripped = strip_a raw; v = rstrip_a (before '' #'' (if starts_with ''#'' stripped then [] else stripped)) in
     if v = [] then refuse ''is empty''
     else if scalar_mark (hd v) \<or> contains '': '' v then refuse ''is not a plain scalar''
     else Inr v)"

section \<open>A device config\<close>

record block =
  bkey :: string
  binline :: "string option"
  bbody :: "(nat \<times> string) list"

definition blank_or_comment :: "string \<Rightarrow> bool" where
  "blank_or_comment line \<longleftrightarrow> strip_a line = [] \<or> starts_with ''#'' (strip_a line)"

definition config_line :: "block list \<Rightarrow> nat \<times> string \<Rightarrow> block list res" where
  "config_line blocks nline = (case nline of (n, line) \<Rightarrow>
     if blank_or_comment line then Inr blocks
     else if starts_with ''---'' line \<or> starts_with ''...'' line \<or> starts_with ''%'' line
     then refuse ''YAML documents and directives are not supported''
     else if starts_with '' '' line \<or> starts_with ''- '' line \<or> line = ''-'' then
       (case last_opt blocks of
          None \<Rightarrow> refuse ''content before the first key''
        | Some b \<Rightarrow> Inr (butlast blocks @ [b\<lparr>bbody := bbody b @ [(n, line)]\<rparr>]))
     else (case rx_fullmatch KEY line of
         None \<Rightarrow> refuse ''unsupported top level line''
       | Some m \<Rightarrow> Inr (blocks @ [\<lparr>bkey = group m 1, binline = grp m 2, bbody = []\<rparr>])))"

datatype dval = Build string | Flag bool | Text string | Skipped

record config =
  cincludes :: "string list"
  device :: "(string, dval) dict"
  device_lines :: "(string, nat) dict"

definition opt_text :: "string option \<Rightarrow> string" where
  "opt_text t = (case t of None \<Rightarrow> [] | Some s \<Rightarrow> s)"

definition decisive :: "string \<Rightarrow> bool" where
  "decisive k \<longleftrightarrow> k \<in> set (BUILD_KEYS @ FLAG_KEYS @ [''name''])"

definition device_value :: "string \<Rightarrow> string option \<Rightarrow> dval res" where
  "device_value key inline =
     (if key \<in> set BUILD_KEYS then
        bnd (scalar (opt_text inline)) (\<lambda>v. bnd (parse_build_id (JStr v)) (\<lambda>b. Inr (Build b)))
      else if key \<in> set FLAG_KEYS then
        bnd (scalar (opt_text inline)) (\<lambda>v.
          if v = ''true'' then Inr (Flag True) else if v = ''false'' then Inr (Flag False)
          else refuse ''is not true or false'')
      else if key = ''name'' then bnd (scalar (opt_text inline)) (\<lambda>v. Inr (Text v))
      else Inr Skipped)"

record device_state =
  indent :: "nat option"
  current :: "string option"
  dresult :: config

definition device_line :: "device_state \<Rightarrow> nat \<times> string \<Rightarrow> device_state res" where
  "device_line st nline = (case nline of (n, line) \<Rightarrow>
    (let width = length (takeWhile (\<lambda>c. c = CHR '' '') line) in
     bnd (case indent st of
            None \<Rightarrow> if width = 0 then refuse ''device must be an indented mapping'' else Inr width
          | Some i \<Rightarrow> Inr i) (\<lambda>i.
       if width < i then refuse ''inconsistent indentation in device''
       else if width > i then
         (if (\<exists>k \<in> set_option (current st). decisive k) then refuse ''must be a single scalar''
          else Inr (st\<lparr>indent := Some i\<rparr>))
       else (case rx_fullmatch KEY (drop i line) of
           None \<Rightarrow> refuse ''unsupported device line''
         | Some m \<Rightarrow>
             let key = group m 1; c = dresult st in
             if dget (device c) key \<noteq> None then refuse ''repeats''
             else bnd (device_value key (grp m 2)) (\<lambda>v.
               Inr \<lparr>indent = Some i, current = Some key,
                 dresult = c\<lparr>device := dput key v (device c), device_lines := dput key n (device_lines c)\<rparr>\<rparr>)))))"

definition block_inline_ok :: "string option \<Rightarrow> bool" where
  "block_inline_ok inline = (case inline of None \<Rightarrow> True | Some t \<Rightarrow> strip_a (before '' #'' t) = [])"

definition include_item :: "string list \<Rightarrow> nat \<times> string \<Rightarrow> string list res" where
  "include_item acc nitem =
    (let stripped = strip_a (snd nitem) in
     if \<not> starts_with ''- '' stripped then refuse ''includes holds only list items''
     else bnd (scalar (drop 2 stripped)) (\<lambda>path.
       if \<not> matches INCLUDE path then refuse ''unsupported include path'' else Inr (acc @ [path])))"

definition config_block :: "config \<Rightarrow> block \<Rightarrow> config res" where
  "config_block c b =
     (if bkey b = ''type'' then
        (if bbody b \<noteq> [] then refuse ''only device configs are supported''
         else bnd (scalar (opt_text (binline b))) (\<lambda>v.
           if v \<noteq> ''device'' then refuse ''only device configs are supported'' else Inr c))
      else if bkey b = ''includes'' then
        (if \<not> block_inline_ok (binline b) then refuse ''includes must be a block sequence''
         else bnd (fold_res include_item (cincludes c) (bbody b)) (\<lambda>items. Inr (c\<lparr>cincludes := items\<rparr>)))
      else if bkey b = ''device'' then
        (if \<not> block_inline_ok (binline b) then refuse ''device must be a block mapping''
         else bnd (fold_res device_line \<lparr>indent = None, current = None, dresult = c\<rparr> (bbody b)) (\<lambda>st. Inr (dresult st)))
      else Inr c)"

definition numbered :: "string list \<Rightarrow> (nat \<times> string) list" where
  "numbered ls = zip [1..<length ls + 1] ls"

definition empty_config :: config where
  "empty_config = \<lparr>cincludes = [], device = [], device_lines = []\<rparr>"

definition parse_config :: "string \<Rightarrow> config res" where
  "parse_config text =
     bnd (fold_res config_line [] (numbered (split_char nl text))) (\<lambda>blocks.
       if \<not> distinct (map bkey blocks) then refuse ''repeats top level keys''
       else fold_res config_block empty_config blocks)"

section \<open>The chain of includes\<close>

fun norm_path :: "string list \<Rightarrow> string list \<Rightarrow> string list" where
  "norm_path acc [] = rev acc"
| "norm_path acc (c # cs) =
     (if c = [] \<or> c = ''.'' then norm_path acc cs
      else if c = ''..'' then norm_path (tl acc) cs
      else norm_path (c # acc) cs)"

definition target_path :: "string list \<Rightarrow> string \<Rightarrow> string list" where
  "target_path path inc = norm_path [] (butlast path @ split_char CHR ''/'' inc)"

definition strictly_inside :: "string list \<Rightarrow> string list \<Rightarrow> bool" where
  "strictly_inside dir path \<longleftrightarrow> starts_with dir path \<and> path \<noteq> dir"

record visited =
  vpath :: "string list"
  vsha :: string
  vconfig :: config

definition unvisited :: "tree \<Rightarrow> string list list \<Rightarrow> nat" where
  "unvisited fs stack = card (fst ` set fs - set stack)"

lemma unvisited_push: "dget fs p = Some data \<Longrightarrow> p \<notin> set stack \<Longrightarrow> unvisited fs (p # stack) < unvisited fs stack"
proof -
  assume "dget fs p = Some data" "p \<notin> set stack"
  then have "p \<in> fst ` set fs - set stack" by (force dest: map_of_SomeD)
  then show ?thesis unfolding unvisited_def by (intro psubset_card_mono) auto
qed

lemma read_text_present: "read_text fs p = Inr t \<Longrightarrow> dget fs p = Some t"
  by (auto simp: read_text_def split: option.split_asm if_split_asm)

function visit :: "tree \<Rightarrow> (string list \<Rightarrow> bool) \<Rightarrow> (string \<Rightarrow> string) \<Rightarrow> string list list \<Rightarrow> string list \<Rightarrow> visited list res"
  and visit_all :: "tree \<Rightarrow> (string list \<Rightarrow> bool) \<Rightarrow> (string \<Rightarrow> string) \<Rightarrow> string list list \<Rightarrow> string list \<Rightarrow> string list \<Rightarrow> visited list res" where
  "visit fs direct sha stack path =
     (if path \<in> set stack then refuse ''include cycle''
      else (case read_text fs path of
          Inl e \<Rightarrow> Inl e
        | Inr text \<Rightarrow>
            (case parse_config text of
               Inl e \<Rightarrow> Inl e
             | Inr c \<Rightarrow>
                 (case visit_all fs direct sha (path # stack) path (cincludes c) of
                    Inl e \<Rightarrow> Inl e
                  | Inr os \<Rightarrow> Inr (os @ [\<lparr>vpath = path, vsha = sha text, vconfig = c\<rparr>])))))"
| "visit_all fs direct sha stack path [] = Inr []"
| "visit_all fs direct sha stack path (inc # incs) =
     (let target = target_path path inc in
      if \<not> strictly_inside CONFIG_DIR target then refuse ''includes a file outside the config directory''
      else if \<not> direct target then refuse ''includes a file through a symbolic link''
      else (case visit fs direct sha stack target of
          Inl e \<Rightarrow> Inl e
        | Inr os \<Rightarrow> (case visit_all fs direct sha stack path incs of Inl e \<Rightarrow> Inl e | Inr os' \<Rightarrow> Inr (os @ os'))))"
  by pat_completeness auto
termination
  by (relation "measures [\<lambda>x. case x of Inl (fs, pl, sh, stack, p) \<Rightarrow> unvisited fs stack | Inr (fs, pl, sh, stack, p, items) \<Rightarrow> unvisited fs stack,
      \<lambda>x. case x of Inl _ \<Rightarrow> 0 | Inr (fs, pl, sh, stack, p, items) \<Rightarrow> Suc (length items)]")
    (auto dest: read_text_present unvisited_push)

type_synonym merged = "(string, dval \<times> (string list \<times> nat)) dict"

definition merge_item :: "string list \<Rightarrow> config \<Rightarrow> merged \<Rightarrow> string \<times> dval \<Rightarrow> merged" where
  "merge_item path c m kv = (if decisive (fst kv)
     then dput (fst kv) (snd kv, (path, case dget (device_lines c) (fst kv) of None \<Rightarrow> 0 | Some n \<Rightarrow> n)) m else m)"

definition merge_file :: "merged \<Rightarrow> visited \<Rightarrow> merged" where
  "merge_file m v = foldl (merge_item (vpath v) (vconfig v)) m (device (vconfig v))"

record device_result =
  build_id :: string
  set_by :: "string list \<times> nat"
  chain :: "(string list \<times> string) list"

definition true_flag :: "merged \<Rightarrow> string \<Rightarrow> bool" where
  "true_flag m k = (case dget m k of Some (Flag True, _) \<Rightarrow> True | _ \<Rightarrow> False)"

definition check_merged :: "merged \<Rightarrow> (string \<times> string list \<times> nat) res" where
  "check_merged m =
     (if map_option fst (dget m ''name'') \<noteq> Some (Text DEVICE) then refuse ''the merged config names another device''
      else if dget m ''build_id'' = None then refuse ''no file in the config chain sets device.build_id''
      else if dget m ''backport_build_id'' \<noteq> None \<or> dget m ''prev_build_id'' \<noteq> None
      then refuse ''firmware may come from a second stock build''
      else if list_ex (true_flag m) FLAG_KEYS then refuse ''a flag is true; this record format does not cover that''
      else (case dget m ''build_id'' of
          Some (Build b, where) \<Rightarrow> Inr (b, where)
        | _ \<Rightarrow> Inl TypeError))"

definition device_config :: "tree \<Rightarrow> (string list \<Rightarrow> bool) \<Rightarrow> (string \<Rightarrow> string) \<Rightarrow> device_result res" where
  "device_config fs direct sha =
     bnd (visit fs direct sha [] (CONFIG_DIR @ [DEVICE @ ''.yml''])) (\<lambda>order.
     bnd (check_merged (foldl merge_file [] order)) (\<lambda>(b, where).
       Inr \<lparr>build_id = b, set_by = where, chain = map (\<lambda>v. (vpath v, vsha v)) order\<rparr>))"

section \<open>The build index\<close>

definition INDEX_KEY :: "char rx" where
  "INDEX_KEY = seqs [Grp 1 (plus (Sym (\<lambda>c. is_lower c \<or> is_digit c))), lit '' '', Grp 2 BUILD_ID, lit '':'']"

definition INDEX_PROP :: "char rx" where
  "INDEX_PROP = seqs [lit ''  '', Grp 1 (words [''desc'', ''factory'', ''ota'', ''vendor/google_devices'']), lit '': '',
     Grp 2 (plus (Sym not_nl))]"

definition DIGEST_FILE :: "char rx" where
  "DIGEST_FILE = seqs [Grp 1 (rep 64 (Sym is_hex)), lit '' '', Grp 2 (plus (Sym is_version_c))]"

datatype ival = Desc string | File string string

type_synonym index_entry = "(string, ival) dict"
type_synonym index = "(string \<times> string, index_entry) dict"

definition expected_file :: "string \<Rightarrow> string \<times> string \<Rightarrow> string \<Rightarrow> string option" where
  "expected_file field cur digest = (case cur of (dev, build) \<Rightarrow>
     if field = ''factory'' then Some (dev @ ''-'' @ lower build @ ''-factory-'' @ take 8 digest @ ''.zip'')
     else if field = ''ota'' then Some (dev @ ''-ota-'' @ lower build @ ''-'' @ take 8 digest @ ''.zip'')
     else None)"

definition index_value :: "string \<Rightarrow> string \<times> string \<Rightarrow> string \<Rightarrow> ival res" where
  "index_value field cur v =
     (if field = ''desc'' then bnd (scalar v) (\<lambda>t. Inr (Desc t))
      else (case rx_fullmatch DIGEST_FILE v of
          None \<Rightarrow> refuse ''is not a digest and a file name''
        | Some m \<Rightarrow>
            (case expected_file field cur (group m 1) of
               Some f \<Rightarrow> if group m 2 \<noteq> f then refuse ''file does not match'' else Inr (File (group m 1) (group m 2))
             | None \<Rightarrow> Inr (File (group m 1) (group m 2)))))"

definition index_line :: "index \<times> (string \<times> string) option \<Rightarrow> string \<Rightarrow> (index \<times> (string \<times> string) option) res" where
  "index_line st line = (case st of (entries, cur) \<Rightarrow>
     (case rx_fullmatch INDEX_KEY line of
        Some m \<Rightarrow>
          let key = (group m 1, group m 2) in
          if dget entries key \<noteq> None then refuse ''repeats''
          else Inr (dput key [] entries, Some key)
      | None \<Rightarrow>
          (case (rx_fullmatch INDEX_PROP line, cur) of
             (Some m, Some key) \<Rightarrow>
               (let field = group m 1; entry = (case dget entries key of None \<Rightarrow> [] | Some e \<Rightarrow> e) in
                if dget entry field \<noteq> None then refuse ''repeats for''
                else bnd (index_value field key (group m 2)) (\<lambda>v. Inr (dput key (dput field v entry) entries, cur)))
           | _ \<Rightarrow> refuse ''unsupported line'')))"

definition SHAPES :: "string list list" where
  "SHAPES = [[''desc'', ''factory'', ''ota''], [''desc'', ''factory'', ''ota'', ''vendor/google_devices''], [''vendor/google_devices'']]"

definition parse_build_index :: "string \<Rightarrow> index res" where
  "parse_build_index text =
     bnd (fold_res index_line ([], None) (info_lines text)) (\<lambda>(entries, cur).
       if \<not> list_all (\<lambda>(k, e). list_ex (keys_are e) SHAPES) entries then refuse ''has fields'' else Inr entries)"

record index_build =
  desc :: string
  factory_sha256 :: string
  factory_file :: string

definition caiman_build :: "(string \<times> string) \<times> index_entry \<Rightarrow> (string \<times> index_build) list res" where
  "caiman_build ke = (case ke of ((dev, build), e) \<Rightarrow>
     if dev \<noteq> DEVICE then Inr []
     else (case (dget e ''factory'', dget e ''desc'') of
         (None, _) \<Rightarrow> refuse ''has no factory image in the index''
       | (Some (File d f), Some (Desc t)) \<Rightarrow> Inr [(build, \<lparr>desc = t, factory_sha256 = d, factory_file = f\<rparr>)]
       | _ \<Rightarrow> Inl (KeyError ''desc'')))"

definition caiman_builds :: "index \<Rightarrow> (string, index_build) dict res" where
  "caiman_builds entries = bnd (map_res caiman_build entries) (\<lambda>bs. Inr (sort_key fst (concat bs)))"

definition build_json :: "index_build \<Rightarrow> json" where
  "build_json b = JDict [(''desc'', JStr (desc b)), (''factory_sha256'', JStr (factory_sha256 b)),
     (''factory_file'', JStr (factory_file b))]"

section \<open>The generated module\<close>

definition graphic :: "char \<Rightarrow> bool" where
  "graphic c \<longleftrightarrow> \<not> ascii_space c"

definition MK_CHECK :: "char rx" where
  "MK_CHECK = seqs [bol, lit ''ifneq ($(BUILD_ID),'', Grp 1 (plus (Sym graphic)), lit '')'', lit [nl],
     lit ''  $(error BUILD_ID: expected '', Grp 2 (plus (Sym graphic)), lit '', got $(BUILD_ID))'', eol]"

definition ENV_EXPORT :: "char rx" where
  "ENV_EXPORT = seqs [bol, lit (''export BUILD_ID_'' @ DEVICE @ ''=''), lit [CHR 0x22],
     Grp 1 (star (Sym (\<lambda>c. c \<noteq> CHR 0x22 \<and> c \<noteq> nl))), lit [CHR 0x22], eol]"

definition info_json :: "android_info \<Rightarrow> string \<Rightarrow> json" where
  "info_json i digest = (case as_dict i of JDict d \<Rightarrow> JDict (d @ [(''sha256'', JStr digest)]) | v \<Rightarrow> v)"

definition single :: "'a list \<Rightarrow> string \<Rightarrow> 'a res" where
  "single xs t = (case xs of [x] \<Rightarrow> Inr x | _ \<Rightarrow> refuse t)"

lemma single_Inr [res_simps]: "single xs t = Inr x \<longleftrightarrow> xs = [x]"
  by (auto simp: single_def split: list.splits)

definition generated_module :: "tree \<Rightarrow> (string \<Rightarrow> string) \<Rightarrow> string \<Rightarrow> json res" where
  "generated_module fs sha build =
     bnd (read_text fs (SKEL @ [DEVICE @ ''.mk''])) (\<lambda>mk.
     bnd (single (rx_findall MK_CHECK [] mk) ''does not hold exactly one BUILD_ID check'') (\<lambda>m.
       if group m 1 \<noteq> group m 2 then refuse ''does not hold exactly one BUILD_ID check''
       else
         bnd (read_text fs (SKEL @ [''cmds-for-envsetup.sh''])) (\<lambda>env.
         bnd (single (rx_findall ENV_EXPORT [] env) ''does not export the build ID exactly once'') (\<lambda>e.
           if group m 1 \<noteq> build \<or> group e 1 \<noteq> build then refuse ''records another stock build''
           else
             bnd (read_text fs (SKEL @ [''firmware'', ''android-info.txt''])) (\<lambda>info.
             bnd (parse_android_info info) (\<lambda>i.
               Inr (JDict [(DEVICE @ ''.mk'', JDict [(''sha256'', JStr (sha mk)), (''build_id'', JStr (group m 1))]),
                 (''cmds-for-envsetup.sh'', JDict [(''sha256'', JStr (sha env)), (''build_id'', JStr (group e 1))]),
                 (''android-info.txt'', info_json i (sha info))])))))))"

section \<open>Deriving a record\<close>

definition posix :: "string list \<Rightarrow> string" where
  "posix p = join ''/'' p"

definition derive_content :: "tree \<Rightarrow> (string list \<Rightarrow> bool) \<Rightarrow> (string \<Rightarrow> string) \<Rightarrow> string \<Rightarrow> session res" where
  "derive_content fs direct sha tag =
     bnd (parse_release (JStr tag) False) (\<lambda>rel.
     bnd (device_config fs direct sha) (\<lambda>c.
     bnd (read_text fs INDEX) (\<lambda>text.
     bnd (bnd (parse_build_index text) caiman_builds) (\<lambda>builds.
       if dget builds (build_id c) = None then refuse ''the build index has no such entry''
       else bnd (generated_module fs sha (build_id c)) (\<lambda>gen.
         Inr [(''schema'', JStr ADEV_SCHEMA), (''device'', JStr DEVICE), (''release'', JStr (number rel)),
           (''stock_build'', JStr (build_id c)),
           (''stock_build_set_by'', JStr (posix (fst (set_by c)) @ '':'' @ str_nat (snd (set_by c)))),
           (''config_chain'', JList (map (\<lambda>(p, h). JDict [(''path'', JStr (posix p)), (''sha256'', JStr h)]) (chain c))),
           (''build_index'', JDict [(''path'', JStr (posix INDEX)), (''sha256'', JStr (sha text)),
             (DEVICE, JDict (map (\<lambda>(b, e). (b, build_json e)) builds))]),
           (''generated_module'', gen)])))))"

text \<open>The JSON values of \<^verbatim>\<open>upstream/bases\<close>, one per tag whose file is a regular file.\<close>

type_synonym bases = "string \<Rightarrow> json option"

definition base_record :: "bases \<Rightarrow> string \<Rightarrow> session res" where
  "base_record bases tag = (case bases tag of
     None \<Rightarrow> refuse ''no signed base record''
   | Some (JDict v) \<Rightarrow>
       (case jget v ''manifest'' of
          JDict man \<Rightarrow>
            if jget v ''schema'' \<noteq> JStr ''andrix.upstream.base/1'' \<or> jget v ''release'' \<noteq> JStr tag
              \<or> \<not> matches SHA256 (py_str (jget man ''sha256''))
            then refuse ''is not a base record'' else Inr v
        | _ \<Rightarrow> refuse ''is not a base record'')
   | Some _ \<Rightarrow> Inl AttributeError)"

definition base_manifest :: "bases \<Rightarrow> string \<Rightarrow> session res" where
  "base_manifest bases tag = bnd (base_record bases tag) (\<lambda>v. Inr (dict_of (jget v ''manifest'')))"

definition REVISION :: "char rx" where
  "REVISION = rep 40 (Sym is_hex)"

type_synonym projects = "string \<Rightarrow> (string, string) dict list option"

text \<open>\<^verbatim>\<open>adevtool_pin\<close> of the version criterion and \<^verbatim>\<open>manifest_revision\<close> read a manifest the same way.\<close>

definition adevtool_pin :: "projects \<Rightarrow> string \<Rightarrow> string res" where
  "adevtool_pin projects manifest = (case projects manifest of
     None \<Rightarrow> refuse ''the tag manifest is not XML''
   | Some ps \<Rightarrow>
       (case map (\<lambda>p. dget p ''revision'')
           (filter (\<lambda>p. (case dget p ''path'' of Some q \<Rightarrow> Some q | None \<Rightarrow> dget p ''name'') = Some ''vendor/adevtool'') ps) of
          [Some r] \<Rightarrow> if matches REVISION r then Inr r
            else refuse ''the tag manifest does not pin exactly one vendor/adevtool commit''
        | _ \<Rightarrow> refuse ''the tag manifest does not pin exactly one vendor/adevtool commit''))"

definition manifest_revision :: "projects \<Rightarrow> (string \<Rightarrow> string) \<Rightarrow> bases \<Rightarrow> string \<Rightarrow> string \<Rightarrow> (string \<times> json) res" where
  "manifest_revision projects sha bases manifest tag =
     bnd (base_manifest bases tag) (\<lambda>man.
       if JStr (sha manifest) \<noteq> jget man ''sha256'' then refuse ''is not the manifest that upstream/bases pins''
       else bnd (adevtool_pin projects manifest) (\<lambda>r. Inr (r, jget man ''sha256'')))"

text \<open>
  \<^verbatim>\<open>grapheneos_source.check_project\<close>: what the file system and Git say of a checkout, and its head
  where the verdict is PASS.
\<close>

record worktree =
  contained :: bool
  toplevel :: "bool option"
  head_commit :: "string option"
  tracked_clean :: bool

definition check_project :: "worktree \<Rightarrow> string \<Rightarrow> string option" where
  "check_project w revision =
     (if \<not> contained w then None
      else if toplevel w \<noteq> Some True then None
      else (case head_commit w of
          None \<Rightarrow> None
        | Some h \<Rightarrow> if h \<noteq> revision then None else if \<not> tracked_clean w then None else Some h))"

definition tree_head :: "worktree \<Rightarrow> string \<Rightarrow> string res" where
  "tree_head w revision = (case check_project w revision of
     None \<Rightarrow> refuse ''vendor/adevtool is not the clean commit''
   | Some h \<Rightarrow> Inr h)"

definition derive_record ::
  "tree \<Rightarrow> (string list \<Rightarrow> bool) \<Rightarrow> projects \<Rightarrow> worktree \<Rightarrow> (string \<Rightarrow> string) \<Rightarrow> bases \<Rightarrow> string \<Rightarrow> string \<Rightarrow> session res" where
  "derive_record fs direct projects w sha bases manifest tag =
     bnd (manifest_revision projects sha bases manifest tag) (\<lambda>(revision, pinned).
     bnd (tree_head w revision) (\<lambda>h.
     bnd (derive_content fs direct sha tag) (\<lambda>r.
       Inr (r @ [(''adevtool_revision'', JStr revision), (''manifest_sha256'', pinned), (''tree_head'', JStr h),
         (''revision_source'', JStr ''the tag manifest pinned by upstream/bases'')]))))"

section \<open>Validating a record\<close>

definition py_true :: "json \<Rightarrow> bool" where
  "py_true v = (case v of JNull \<Rightarrow> False | JBool b \<Rightarrow> b | JInt i \<Rightarrow> i \<noteq> 0 | JFloat t \<Rightarrow> t \<notin> {''0.0'', ''-0.0''}
     | JStr s \<Rightarrow> s \<noteq> [] | JList xs \<Rightarrow> xs \<noteq> [] | JDict d \<Rightarrow> d \<noteq> [])"

definition sub_get :: "json \<Rightarrow> string \<Rightarrow> json res" where
  "sub_get v k = (if \<not> py_true v then Inr JNull
     else (case v of JDict d \<Rightarrow> Inr (jget d k) | _ \<Rightarrow> Inl AttributeError))"

definition BUILD_ENTRY_KEYS :: "string list" where
  "BUILD_ENTRY_KEYS = [''desc'', ''factory_sha256'', ''factory_file'']"

definition check_index_entry :: "string \<times> json \<Rightarrow> unit res" where
  "check_index_entry be = bnd (parse_build_id (JStr (fst be))) (\<lambda>_.
     (case snd be of
        JDict e \<Rightarrow>
          if \<not> keys_are e BUILD_ENTRY_KEYS \<or> \<not> is_str (jget e ''desc'') \<or> \<not> is_str (jget e ''factory_sha256'')
            \<or> \<not> matches SHA256 (str_of (jget e ''factory_sha256''))
          then refuse ''index entry is malformed'' else Inr ()
      | _ \<Rightarrow> refuse ''index entry is malformed''))"

definition ascii_replace :: "string \<Rightarrow> string" where
  "ascii_replace s = map (\<lambda>c. if is_ascii c then c else CHR ''?'') s"

definition info_of_record :: "json \<Rightarrow> android_info res" where
  "info_of_record v = (case v of
     JDict d \<Rightarrow>
       if \<not> (is_str (jget d ''board'') \<and> is_str (jget d ''bootloader'') \<and> is_str (jget d ''baseband''))
       then refuse ''has no well formed generated android-info.txt''
       else (case jget d ''partitions'' of
           JList ps \<Rightarrow>
             if \<not> list_all is_str ps then refuse ''has no well formed generated android-info.txt''
             else parse_android_info (ascii_replace (info_text
               \<lparr>board = str_of (jget d ''board''), bootloader = str_of (jget d ''bootloader''),
                baseband = str_of (jget d ''baseband''), partitions = map str_of ps\<rparr>))
         | _ \<Rightarrow> refuse ''has no well formed generated android-info.txt'')
   | _ \<Rightarrow> refuse ''has no well formed generated android-info.txt'')"

record valid_record =
  v_release :: release
  v_stock :: string
  v_builds :: "(string \<times> json) list"
  v_info :: android_info

definition validate_record :: "bases \<Rightarrow> json \<Rightarrow> valid_record res" where
  "validate_record bases v = (case v of
     JDict d \<Rightarrow>
       if jget d ''schema'' \<noteq> JStr ADEV_SCHEMA then refuse ''is no such record''
       else if jget d ''device'' \<noteq> JStr DEVICE then refuse ''is not for the device''
       else bnd (parse_release (jget d ''release'') False) (\<lambda>rel.
         if \<not> is_str (jget d ''adevtool_revision'') \<or> \<not> matches REVISION (str_of (jget d ''adevtool_revision''))
         then refuse ''is not bound to an adevtool commit''
         else bnd (base_manifest bases (number rel)) (\<lambda>man.
           if \<not> py_eq (jget d ''manifest_sha256'') (jget man ''sha256'')
           then refuse ''is not bound to the manifest that upstream/bases pins''
           else if dget d ''tree_head'' \<noteq> None \<and> jget d ''tree_head'' \<noteq> jget d ''adevtool_revision''
           then refuse ''was derived from a tree at another commit''
           else bnd (parse_build_id (jget d ''stock_build'')) (\<lambda>stock.
             bnd (sub_get (jget d ''build_index'') DEVICE) (\<lambda>bs.
             (case bs of
                JDict builds \<Rightarrow>
                  if dget builds stock = None then refuse ''does not list its own stock build in the build index''
                  else bnd (each_res check_index_entry builds) (\<lambda>_.
                    bnd (bnd (sub_get (jget d ''generated_module'') ''android-info.txt'') info_of_record) (\<lambda>i.
                      Inr \<lparr>v_release = rel, v_stock = stock, v_builds = builds, v_info = i\<rparr>))
              | _ \<Rightarrow> refuse ''does not list its own stock build in the build index'')))))
   | _ \<Rightarrow> refuse ''is no such record'')"

section \<open>The commands\<close>

text \<open>
  \<^verbatim>\<open>write_new\<close> on what is at the path, and \<^verbatim>\<open>main\<close> past its argument parser: the exit status, with the
  errors that it does not catch left as errors. \<open>stored\<close> is what reading and parsing the record gives.
\<close>

definition write_new :: "(string list \<Rightarrow> 'o option) \<Rightarrow> string list \<Rightarrow> 'o \<Rightarrow> (string list \<Rightarrow> 'o option) res" where
  "write_new files path text =
     (if files path \<noteq> None then refuse ''exists; records are never overwritten'' else Inr (files(path \<mapsto> text)))"

definition caught :: "nat res \<Rightarrow> nat res" where
  "caught r = (case r of
     Inl (Refusal t) \<Rightarrow> Inr 1 | Inl (OSError t) \<Rightarrow> Inr 1 | Inl (ValueError t) \<Rightarrow> Inr 1 | Inl (SchemaError t) \<Rightarrow> Inr 1
   | Inl e \<Rightarrow> Inl e | Inr n \<Rightarrow> Inr n)"

definition main_verify ::
  "tree \<Rightarrow> (string list \<Rightarrow> bool) \<Rightarrow> projects \<Rightarrow> worktree \<Rightarrow> (string \<Rightarrow> string) \<Rightarrow> bases \<Rightarrow> string \<Rightarrow> json res \<Rightarrow> nat res" where
  "main_verify fs direct projects w sha bases manifest stored =
     caught (bnd stored (\<lambda>st.
       bnd (validate_record bases st) (\<lambda>_.
       bnd (jitem (dict_of st) ''release'') (\<lambda>tag.
       bnd (derive_record fs direct projects w sha bases manifest (str_of tag)) (\<lambda>derived.
         if \<not> py_eq (JDict derived) st then Inr 1 else Inr 0)))))"

section \<open>Config files and the merge\<close>

lemma device_line_distinct:
  assumes "device_line st line = Inr st'" and "distinct (map fst (device (dresult st)))"
  shows "distinct (map fst (device (dresult st')))"
  using assms by (auto simp: device_line_def bnd_eq_Inr Let_def distinct_update split: prod.split_asm option.split_asm if_split_asm)

lemma config_block_distinct:
  assumes "config_block c b = Inr c'" and "distinct (map fst (device c))"
  shows "distinct (map fst (device c'))"
proof -
  have "distinct (map fst (device (dresult st)))"
    if "fold_res device_line \<lparr>indent = None, current = None, dresult = c\<rparr> body = Inr st" for st body
    by (rule fold_res_inv [OF that]) (use assms(2) device_line_distinct in auto)
  with assms show ?thesis by (auto simp: config_block_def bnd_eq_Inr split: if_split_asm)
qed

lemma parse_config_distinct: "parse_config text = Inr c \<Longrightarrow> distinct (map fst (device c))"
proof -
  assume "parse_config text = Inr c"
  then obtain blocks where "fold_res config_block empty_config blocks = Inr c"
    by (auto simp: parse_config_def bnd_eq_Inr split: if_split_asm)
  then show ?thesis
    by (rule fold_res_inv) (auto simp: empty_config_def intro: config_block_distinct)
qed

text \<open>Every visited file is a parsed file of the tree inside the config directory.\<close>

definition visited_ok :: "tree \<Rightarrow> (string \<Rightarrow> string) \<Rightarrow> visited \<Rightarrow> bool" where
  "visited_ok fs sha v \<longleftrightarrow> strictly_inside CONFIG_DIR (vpath v) \<and>
     (\<exists>text. read_text fs (vpath v) = Inr text \<and> parse_config text = Inr (vconfig v) \<and> vsha v = sha text)"

lemma visit_ok:
  "visit fs direct sha stack path = Inr os \<Longrightarrow> strictly_inside CONFIG_DIR path \<Longrightarrow>
     list_all (visited_ok fs sha) os \<and> (\<exists>us v. os = us @ [v] \<and> vpath v = path)"
  "visit_all fs direct sha stack path incs = Inr os \<Longrightarrow> list_all (visited_ok fs sha) os"
proof (induction fs direct sha stack path and fs direct sha stack path incs arbitrary: os and os rule: visit_visit_all.induct)
  case (1 fs direct sha stack path)
  from 1(2) obtain src c xs where x: "read_text fs path = Inr src" "parse_config src = Inr c" "path \<notin> set stack"
    "visit_all fs direct sha (path # stack) path (cincludes c) = Inr xs"
    "os = xs @ [\<lparr>vpath = path, vsha = sha src, vconfig = c\<rparr>]"
    by (auto split: if_split_asm sum.split_asm)
  from 1(1) [OF x(3,1,2,4)] x 1(3) show ?case by (auto simp: visited_ok_def)
next
  case (2 fs direct sha stack path)
  then show ?case by simp
next
  case (3 fs direct sha stack path inc incs)
  let ?t = "target_path path inc"
  from 3(3) obtain xs ys where x: "strictly_inside CONFIG_DIR ?t" "direct ?t" "visit fs direct sha stack ?t = Inr xs"
    "visit_all fs direct sha stack path incs = Inr ys" "os = xs @ ys"
    by (auto simp: Let_def simp del: visit.simps split: if_split_asm sum.split_asm)
  from 3(1) [OF refl _ _ x(3) x(1)] 3(2) [OF refl _ _ x(3,4)] x(1,2,5) show ?case by simp
qed

definition sets :: "string \<Rightarrow> visited \<Rightarrow> dval option" where
  "sets k v = dget (device (vconfig v)) k"

lemma merge_items:
  assumes "distinct (map fst items)"
  shows "dget (foldl (merge_item path c) m items) k =
    (case dget items k of
       Some v \<Rightarrow> if decisive k then Some (v, (path, case dget (device_lines c) k of None \<Rightarrow> 0 | Some n \<Rightarrow> n)) else dget m k
     | None \<Rightarrow> dget m k)"
  using assms
proof (induction items arbitrary: m)
  case (Cons kv items)
  then have "dget items (fst kv) = None" by (auto simp: dget_None)
  with Cons show ?case by (cases kv) (auto simp: merge_item_def dget_dput split: option.splits)
qed simp

lemma merge_last:
  assumes "list_all (\<lambda>v. distinct (map fst (device (vconfig v)))) order" and "decisive k"
  shows "case dget (foldl merge_file [] order) k of
      Some (v, (path, n)) \<Rightarrow>
        \<exists>us x ws. order = us @ x # ws \<and> vpath x = path \<and> sets k x = Some v \<and> list_all (\<lambda>w. sets k w = None) ws
    | None \<Rightarrow> list_all (\<lambda>w. sets k w = None) order"
  using assms(1)
proof (induction order rule: rev_induct)
  case (snoc x order)
  have d: "distinct (map fst (device (vconfig x)))" and o: "list_all (\<lambda>v. distinct (map fst (device (vconfig v)))) order"
    using snoc.prems by (auto simp: list_all_iff)
  have m: "dget (foldl merge_file [] (order @ [x])) k = (case sets k x of
      Some v \<Rightarrow> Some (v, (vpath x, case dget (device_lines (vconfig x)) k of None \<Rightarrow> 0 | Some n \<Rightarrow> n))
    | None \<Rightarrow> dget (foldl merge_file [] order) k)"
    using merge_items [OF d] assms(2) by (simp add: merge_file_def sets_def split: option.split)
  show ?case
  proof (cases "sets k x")
    case None
    show ?thesis
    proof (cases "dget (foldl merge_file [] order) k")
      case N: None
      with snoc.IH [OF o] None m show ?thesis by simp
    next
      case (Some y)
      obtain v path n where y: "y = (v, (path, n))" by (cases y) auto
      with Some snoc.IH [OF o] obtain us z ws where "order = us @ z # ws" "vpath z = path" "sets k z = Some v"
        "list_all (\<lambda>w. sets k w = None) ws" by auto
      with None have "\<exists>us z ws. order @ [x] = us @ z # ws \<and> vpath z = path \<and> sets k z = Some v \<and> list_all (\<lambda>w. sets k w = None) ws"
        by (intro exI [of _ us] exI [of _ z] exI [of _ "ws @ [x]"]) simp
      with None Some m y show ?thesis by simp
    qed
  next
    case (Some w)
    have "\<exists>us z ws. order @ [x] = us @ z # ws \<and> vpath z = vpath x \<and> sets k z = Some w \<and> list_all (\<lambda>w. sets k w = None) ws"
      using Some by (intro exI [of _ order] exI [of _ x] exI [of _ "[]"]) simp
    with Some m show ?thesis by simp
  qed
qed simp

section \<open>What an accepted build index holds\<close>

lemma plain_index [simp]: "plain INDEX_KEY" "plain DIGEST_FILE" "plain SHA256"
  by (simp_all add: INDEX_KEY_def DIGEST_FILE_def SHA256_def)

lemma matches_SHA256: "matches SHA256 d \<longleftrightarrow> length d = 64 \<and> list_all is_hex d"
  by (simp add: fullmatch_lang lang_def SHA256_def)

lemma INDEX_KEY_match:
  assumes "rx_fullmatch INDEX_KEY line = Some m"
  shows "matches BUILD_ID (group m 2)"
proof -
  from fullmatch_runs [OF plain_index(1) assms] obtain dev b us where
    r: "runs BUILD_ID b us" "caps m = (2, b) # us @ [(1, dev)]" by (auto simp: INDEX_KEY_def)
  have "us = []" by (rule runs_groupless [OF r(1)]) simp
  with r show ?thesis by (auto simp: group_def grp_def fullmatch_lang lang_def)
qed

lemma DIGEST_FILE_match:
  assumes "rx_fullmatch DIGEST_FILE v = Some m"
  shows "matches SHA256 (group m 1)"
  using fullmatch_runs [OF plain_index(2) assms]
  by (auto simp: DIGEST_FILE_def group_def grp_def matches_SHA256)

definition field_ok :: "string \<times> string \<Rightarrow> string \<times> ival \<Rightarrow> bool" where
  "field_ok cur fv = (case fv of
     (field, Desc t) \<Rightarrow> field = ''desc''
   | (field, File d f) \<Rightarrow> field \<noteq> ''desc'' \<and> matches SHA256 d \<and>
       (case expected_file field cur d of None \<Rightarrow> True | Some g \<Rightarrow> f = g))"

definition index_ok :: "index \<Rightarrow> bool" where
  "index_ok es \<longleftrightarrow> distinct (map fst es) \<and>
     list_all (\<lambda>(key, e). matches BUILD_ID (snd key) \<and> distinct (map fst e) \<and> list_all (field_ok key) e) es"

lemma index_value_ok: "index_value field cur v = Inr x \<Longrightarrow> field_ok cur (field, x)"
  by (auto simp: index_value_def field_ok_def bnd_eq_Inr DIGEST_FILE_match [simplified]
      split: if_split_asm option.split_asm)

lemma index_line_ok:
  assumes "index_line (es, cur) line = Inr (es', cur')" and "index_ok es" and "\<And>k. cur = Some k \<Longrightarrow> dget es k \<noteq> None"
  shows "index_ok es' \<and> (\<forall>k. cur' = Some k \<longrightarrow> dget es' k \<noteq> None)"
proof (cases "rx_fullmatch INDEX_KEY line")
  case (Some m)
  with assms(1) have e: "dget es (group m 1, group m 2) = None" "es' = es @ [((group m 1, group m 2), [])]"
    "cur' = Some (group m 1, group m 2)"
    by (auto simp: index_line_def Let_def dput_new split: if_split_asm)
  then have "dget es' (group m 1, group m 2) \<noteq> None" by (auto simp: map_add_def split: option.split)
  moreover have "index_ok es'" using e assms(2) INDEX_KEY_match [OF Some] by (auto simp: index_ok_def dget_None)
  ultimately show ?thesis using e by simp
next
  case None
  with assms(1) obtain m key v where m: "rx_fullmatch INDEX_PROP line = Some m" "cur = Some key" "cur' = cur"
    and v: "dget (the (dget es key)) (group m 1) = None" "index_value (group m 1) key (group m 2) = Inr v"
      "es' = dput key (dput (group m 1) v (the (dget es key))) es"
    using assms(3) by (auto simp: index_line_def Let_def bnd_eq_Inr split: option.split_asm if_split_asm)
  from assms(3) m(2) obtain e where e: "dget es key = Some e" by auto
  from map_of_SomeD [OF e] assms(2) have ok: "matches BUILD_ID (snd key)" "distinct (map fst e)" "list_all (field_ok key) e"
    by (auto simp: index_ok_def list_all_iff)
  have new: "distinct (map fst (dput (group m 1) v e))" "list_all (field_ok key) (dput (group m 1) v e)"
    using ok index_value_ok [OF v(2)] by (auto intro!: distinct_update list_all_dput)
  have "index_ok es'"
    using assms(2) ok(1) new e unfolding v(3) index_ok_def by (auto intro!: distinct_update list_all_dput)
  moreover have "dget es' k \<noteq> None" if "cur' = Some k" for k
    using that m(2,3) v(3) by (simp add: dget_dput)
  ultimately show ?thesis by blast
qed

lemma parse_build_index_ok:
  assumes "parse_build_index src = Inr es"
  shows "index_ok es" and "list_all (\<lambda>(k, e). list_ex (keys_are e) SHAPES) es"
proof -
  from assms obtain cur where f: "fold_res index_line ([], None) (info_lines src) = Inr (es, cur)"
    and sh: "list_all (\<lambda>(k, e). list_ex (keys_are e) SHAPES) es"
    by (auto simp: parse_build_index_def bnd_eq_Inr split: if_split_asm)
  have "case (es, cur) of (es, cur) \<Rightarrow> index_ok es \<and> (\<forall>k. cur = Some k \<longrightarrow> dget es k \<noteq> None)"
  proof (rule fold_res_inv [OF f])
    fix s x t
    assume "case s of (es, cur) \<Rightarrow> index_ok es \<and> (\<forall>k. cur = Some k \<longrightarrow> dget es k \<noteq> None)" "index_line s x = Inr t"
    then show "case t of (es, cur) \<Rightarrow> index_ok es \<and> (\<forall>k. cur = Some k \<longrightarrow> dget es k \<noteq> None)"
      using index_line_ok [of "fst s" "snd s" x "fst t" "snd t"] by (auto split: prod.splits)
  qed (simp add: index_ok_def)
  then show "index_ok es" by simp
  show "list_all (\<lambda>(k, e). list_ex (keys_are e) SHAPES) es" by (rule sh)
qed

lemma caiman_builds_ok:
  assumes "parse_build_index src = Inr es" and "caiman_builds es = Inr bs" and "(b, x) \<in> set bs"
  shows "matches BUILD_ID b" and "matches SHA256 (factory_sha256 x)"
    and "factory_file x = DEVICE @ ''-'' @ lower b @ ''-factory-'' @ take 8 (factory_sha256 x) @ ''.zip''"
proof -
  from assms(2,3) obtain ys where "map_res caiman_build es = Inr ys" "(b, x) \<in> set (concat ys)"
    by (auto simp: caiman_builds_def bnd_eq_Inr)
  then obtain ke y where ke: "ke \<in> set es" "caiman_build ke = Inr y" "(b, x) \<in> set y"
    using map_res_mem by fastforce
  obtain dev build e where k: "ke = ((dev, build), e)" by (cases ke) auto
  with ke obtain d f t where e: "dev = DEVICE" "b = build" "dget e ''factory'' = Some (File d f)" "x = \<lparr>desc = t, factory_sha256 = d, factory_file = f\<rparr>"
    by (auto simp: caiman_build_def split: if_split_asm option.split_asm ival.split_asm)
  from parse_build_index_ok(1) [OF assms(1)] ke(1) k have "matches BUILD_ID build" "list_all (field_ok (dev, build)) e"
    by (auto simp: index_ok_def list_all_iff)
  moreover from this(2) map_of_SomeD [OF e(3)] have "field_ok (dev, build) (''factory'', File d f)"
    by (auto simp: list_all_iff)
  ultimately show "matches BUILD_ID b" "matches SHA256 (factory_sha256 x)"
    "factory_file x = DEVICE @ ''-'' @ lower b @ ''-factory-'' @ take 8 (factory_sha256 x) @ ''.zip''"
    using e by (auto simp: field_ok_def expected_file_def)
qed

section \<open>A derived record validates\<close>

lemma ascii_replace_id: "list_all is_ascii s \<Longrightarrow> ascii_replace s = s"
  by (induction s) (auto simp: ascii_replace_def)

lemma info_text_ascii: "wf_info i \<Longrightarrow> list_all is_ascii (info_text i)"
  using info_text_plain plain_c_facts by (fastforce simp: info_text_def list_all_iff is_ascii_def)

lemma is_str_JStr [simp]: "is_str (JStr s)"
  by (simp add: is_str_def)

lemma info_of_record_json:
  assumes "wf_info i"
  shows "info_of_record (info_json i h) = Inr i"
  using parse_info_text [OF assms] ascii_replace_id [OF info_text_ascii [OF assms]]
  by (cases i) (simp add: info_of_record_def info_json_def as_dict_def jget_def str_of_def list_all_iff comp_def)

lemma check_index_entry_json:
  assumes "matches BUILD_ID b" and "matches SHA256 (factory_sha256 x)"
  shows "check_index_entry (b, build_json x) = Inr ()"
  using assms by (simp add: check_index_entry_def build_json_def parse_build_id_def keys_are_def BUILD_ENTRY_KEYS_def
      jget_def str_of_def insert_commute)

lemma generated_module_info:
  assumes "generated_module fs sha build = Inr g"
  shows "\<exists>d i h. g = JDict d \<and> dget d ''android-info.txt'' = Some (info_json i h) \<and> wf_info i"
proof -
  from assms obtain mk env data i m e where g: "parse_android_info data = Inr i" "g = JDict [
      (DEVICE @ ''.mk'', JDict [(''sha256'', JStr (sha mk)), (''build_id'', JStr (group m 1))]),
      (''cmds-for-envsetup.sh'', JDict [(''sha256'', JStr (sha env)), (''build_id'', JStr (group e 1))]),
      (''android-info.txt'', info_json i (sha data))]"
    unfolding generated_module_def bnd_eq_Inr if_Inl_eq_Inr sum.inject by (elim exE conjE) (rule that, assumption, erule sym)
  moreover have "DEVICE @ ''.mk'' \<noteq> ''android-info.txt''" by (simp add: DEVICE_def)
  ultimately show ?thesis using parse_wf_info [OF g(1)] by auto
qed

lemma derive_recordE:
  assumes "derive_record fs direct projects w sha bases manifest tag = Inr r"
  obtains revision h rel c src es builds gen where
    "manifest_revision projects sha bases manifest tag = Inr (revision, JStr (sha manifest))" "tree_head w revision = Inr h"
    "parse_release (JStr tag) False = Inr rel" "device_config fs direct sha = Inr c" "parse_build_index src = Inr es"
    "caiman_builds es = Inr builds" "dget builds (build_id c) \<noteq> None" "generated_module fs sha (build_id c) = Inr gen"
    "dget r ''schema'' = Some (JStr ADEV_SCHEMA)" "dget r ''device'' = Some (JStr DEVICE)" "dget r ''release'' = Some (JStr (number rel))"
    "dget r ''stock_build'' = Some (JStr (build_id c))"
    "dget r ''build_index'' = Some (JDict [(''path'', JStr (posix INDEX)), (''sha256'', JStr (sha src)), (DEVICE, JDict (map (\<lambda>(b, e). (b, build_json e)) builds))])"
    "dget r ''generated_module'' = Some gen" "dget r ''adevtool_revision'' = Some (JStr revision)"
    "dget r ''manifest_sha256'' = Some (JStr (sha manifest))" "dget r ''tree_head'' = Some (JStr h)"
proof -
  from assms obtain revision pinned h r0 where 1: "manifest_revision projects sha bases manifest tag = Inr (revision, pinned)"
    "tree_head w revision = Inr h" "derive_content fs direct sha tag = Inr r0"
    "r = r0 @ [(''adevtool_revision'', JStr revision), (''manifest_sha256'', pinned), (''tree_head'', JStr h),
         (''revision_source'', JStr ''the tag manifest pinned by upstream/bases'')]"
    unfolding derive_record_def by (auto simp: bnd_eq_Inr split: prod.split_asm)
  have p: "pinned = JStr (sha manifest)"
    using 1(1) by (auto simp: manifest_revision_def bnd_eq_Inr simp del: jget_JStr split: if_split_asm)
  from 1(3) obtain rel c src es builds gen where 2: "parse_release (JStr tag) False = Inr rel" "device_config fs direct sha = Inr c"
    "parse_build_index src = Inr es" "caiman_builds es = Inr builds" "dget builds (build_id c) \<noteq> None"
    "generated_module fs sha (build_id c) = Inr gen"
    "r0 = [(''schema'', JStr ADEV_SCHEMA), (''device'', JStr DEVICE), (''release'', JStr (number rel)),
           (''stock_build'', JStr (build_id c)),
           (''stock_build_set_by'', JStr (posix (fst (set_by c)) @ '':'' @ str_nat (snd (set_by c)))),
           (''config_chain'', JList (map (\<lambda>(p, h). JDict [(''path'', JStr (posix p)), (''sha256'', JStr h)]) (chain c))),
           (''build_index'', JDict [(''path'', JStr (posix INDEX)), (''sha256'', JStr (sha src)),
             (DEVICE, JDict (map (\<lambda>(b, e). (b, build_json e)) builds))]),
           (''generated_module'', gen)]"
    unfolding derive_content_def bnd_eq_Inr if_Inl_eq_Inr by auto
  show thesis
    by (rule that [OF 1(1) [unfolded p] 1(2) 2(1-6)]; simp add: 1(4) 2(7) p)
qed

lemma manifest_revisionE:
  assumes "manifest_revision projects sha bases manifest tag = Inr (revision, pinned)"
  obtains man where "base_manifest bases tag = Inr man" "jget man ''sha256'' = JStr (sha manifest)" "matches REVISION revision"
proof -
  from assms obtain man where m: "base_manifest bases tag = Inr man" "jget man ''sha256'' = JStr (sha manifest)"
    "adevtool_pin projects manifest = Inr revision"
    by (auto simp: manifest_revision_def bnd_eq_Inr simp del: jget_JStr split: if_split_asm)
  moreover from m(3) have "matches REVISION revision"
    by (auto simp: adevtool_pin_def split: option.split_asm list.split_asm if_split_asm)
  ultimately show thesis using that by blast
qed

lemma tree_head_Inr: "tree_head w r = Inr h \<Longrightarrow> h = r \<and> tracked_clean w \<and> head_commit w = Some r"
  by (auto simp: tree_head_def check_project_def split: if_split_asm option.split_asm)

lemma derive_validates:
  assumes "derive_record fs direct projects w sha bases manifest tag = Inr r"
  shows "\<exists>v c. validate_record bases (JDict r) = Inr v \<and> device_config fs direct sha = Inr c \<and>
    v_stock v = build_id c \<and> number (v_release v) = tag \<and> wf_info (v_info v)"
proof -
  from assms obtain revision h rel c src es builds gen where
    man: "manifest_revision projects sha bases manifest tag = Inr (revision, JStr (sha manifest))" and h: "tree_head w revision = Inr h" and
    rel: "parse_release (JStr tag) False = Inr rel" and c: "device_config fs direct sha = Inr c" and
    ix: "parse_build_index src = Inr es" "caiman_builds es = Inr builds" "dget builds (build_id c) \<noteq> None" and
    gen: "generated_module fs sha (build_id c) = Inr gen" and
    r: "dget r ''schema'' = Some (JStr ADEV_SCHEMA)" "dget r ''device'' = Some (JStr DEVICE)" "dget r ''release'' = Some (JStr (number rel))"
    "dget r ''stock_build'' = Some (JStr (build_id c))"
    "dget r ''build_index'' = Some (JDict [(''path'', JStr (posix INDEX)), (''sha256'', JStr (sha src)), (DEVICE, JDict (map (\<lambda>(b, e). (b, build_json e)) builds))])"
    "dget r ''generated_module'' = Some gen" "dget r ''adevtool_revision'' = Some (JStr revision)"
    "dget r ''manifest_sha256'' = Some (JStr (sha manifest))" "dget r ''tree_head'' = Some (JStr h)"
    by (rule derive_recordE)
  from man obtain mn where mn: "base_manifest bases tag = Inr mn" "jget mn ''sha256'' = JStr (sha manifest)" "matches REVISION revision"
    by (rule manifest_revisionE)
  from rel have tag: "number rel = tag" "parse_release (JStr (number rel)) False = Inr rel" by (auto simp: parse_release_iff)
  have hr: "h = revision" using tree_head_Inr [OF h] by simp
  let ?bs = "map (\<lambda>(b, e). (b, build_json e)) builds"
  have bs: "each_res check_index_entry ?bs = Inr ()"
    using caiman_builds_ok [OF ix(1,2)] by (auto simp: each_res_Inr check_index_entry_json)
  have fst_bs: "fst ` set ?bs = fst ` set builds" by (force simp: image_iff)
  then have own: "dget ?bs (build_id c) \<noteq> None" using ix(3) unfolding dget_None by simp
  from ix(3) obtain x where "(build_id c, x) \<in> set builds" by (auto dest: map_of_SomeD)
  from caiman_builds_ok(1) [OF ix(1,2) this] have pb: "parse_build_id (JStr (build_id c)) = Inr (build_id c)"
    by (simp add: parse_build_id_def)
  from generated_module_info [OF gen] obtain d i ih where g: "gen = JDict d" "dget d ''android-info.txt'' = Some (info_json i ih)" "wf_info i"
    by blast
  have dne: "d \<noteq> []" using g(2) by auto
  have sub1: "sub_get (jget r ''build_index'') DEVICE = Inr (JDict ?bs)"
  proof -
    have "DEVICE \<noteq> ''path''" "DEVICE \<noteq> ''sha256''" by (simp_all add: DEVICE_def)
    with r(5) show ?thesis by (simp add: sub_get_def py_true_def jget_def)
  qed
  have sub2: "bnd (sub_get (jget r ''generated_module'') ''android-info.txt'') info_of_record = Inr i"
    using r(6) g dne info_of_record_json [OF g(3)] by (simp add: sub_get_def py_true_def jget_def)
  have "validate_record bases (JDict r) = Inr \<lparr>v_release = rel, v_stock = build_id c, v_builds = ?bs, v_info = i\<rparr>"
    unfolding validate_record_def using r tag mn own bs pb sub1 sub2 hr
    by (simp add: jget_def str_of_def)
  with c tag g(3) show ?thesis by auto
qed

section \<open>Reading back an index entry\<close>

definition entry_lines :: "string \<times> string \<Rightarrow> string \<Rightarrow> string \<Rightarrow> string \<Rightarrow> string list" where
  "entry_lines key t d1 d2 =
     [fst key @ '' '' @ snd key @ '':'', ''  desc: '' @ t,
      ''  factory: '' @ d1 @ '' '' @ the (expected_file ''factory'' key d1),
      ''  ota: '' @ d2 @ '' '' @ the (expected_file ''ota'' key d2)]"

lemma split_at_unique:
  "c \<notin> set u \<Longrightarrow> c \<notin> set v \<Longrightarrow> u @ c # x = v @ c # y \<Longrightarrow> u = v"
  by (induction u arbitrary: v) (auto simp: Cons_eq_append_conv)

lemma INDEX_KEY_line:
  assumes "dev \<noteq> []" and "list_all (\<lambda>c. is_lower c \<or> is_digit c) dev" and "matches BUILD_ID b"
  shows "\<exists>m. rx_fullmatch INDEX_KEY (dev @ '' '' @ b @ '':'') = Some m \<and> caps m = [(2, b), (1, dev)]"
proof (rule fullmatch_determined)
  from assms(3) obtain cs where "runs BUILD_ID b cs" by (auto simp: fullmatch_lang lang_def)
  then have b: "runs BUILD_ID b []" using runs_groupless [of BUILD_ID b cs] by simp
  show "runs INDEX_KEY (dev @ '' '' @ b @ '':'') [(2, b), (1, dev)]"
    using assms(1,2) b by (auto simp: INDEX_KEY_def intro!: exI [of _ dev])
  fix ds
  assume "runs INDEX_KEY (dev @ '' '' @ b @ '':'') ds"
  then obtain dev' b' us where r: "dev @ '' '' @ b @ '':'' = dev' @ '' '' @ b' @ '':''" "runs BUILD_ID b' us"
    "ds = (2, b') # us @ [(1, dev')]" "list_all (\<lambda>c. is_lower c \<or> is_digit c) dev'"
    by (auto simp: INDEX_KEY_def)
  have sp: "\<not> is_lower CHR '' ''" "\<not> is_digit CHR '' ''" by code_simp+
  have "dev = dev'" 
    using r(1,4) assms(2) sp by (intro split_at_unique [of "CHR '' ''" dev dev']) (auto simp: list_all_iff)
  then show "ds = [(2, b), (1, dev)]"
    using r runs_groupless [OF r(2)] by simp
qed simp

lemma INDEX_PROP_line:
  assumes "field \<in> set [''desc'', ''factory'', ''ota'', ''vendor/google_devices'']" and "v \<noteq> []" and "list_all not_nl v"
  shows "\<exists>m. rx_fullmatch INDEX_PROP (''  '' @ field @ '': '' @ v) = Some m \<and> caps m = [(2, v), (1, field)]"
  using assms by (intro fullmatch_determined) (auto simp: INDEX_PROP_def)

lemma DIGEST_FILE_line:
  assumes "matches SHA256 d" and "f \<noteq> []" and "list_all is_version_c f"
  shows "\<exists>m. rx_fullmatch DIGEST_FILE (d @ '' '' @ f) = Some m \<and> caps m = [(2, f), (1, d)]"
  using assms by (intro fullmatch_determined) (auto simp: DIGEST_FILE_def matches_SHA256)

lemma INDEX_KEY_indented: "rx_fullmatch INDEX_KEY (''  '' @ w) = None"
proof (rule ccontr)
  assume "rx_fullmatch INDEX_KEY (''  '' @ w) \<noteq> None"
  then obtain m where "rx_fullmatch INDEX_KEY (''  '' @ w) = Some m" by auto
  from fullmatch_runs [OF plain_index(1) this] show False
    by (auto simp: INDEX_KEY_def Cons_eq_append_conv is_lower_def is_digit_def in_range_def)
qed

lemma lower_c_version: "is_version_c c \<Longrightarrow> is_version_c (lower_c c)"
proof (cases "is_upper c")
  case True
  then have "is_lower (lower_c c)"
    by (auto simp: lower_c_def is_upper_def is_lower_def in_range_def)
  then show ?thesis by (simp add: is_version_c_def is_alnum_def is_alpha_def)
qed (simp add: lower_c_def)

lemma BUILD_ID_version_c:
  assumes "matches BUILD_ID b"
  shows "list_all is_version_c b"
proof -
  have d: "is_version_c c" if "is_digit c \<or> is_upper c" for c
    using that by (auto simp: is_version_c_def is_alnum_def is_alpha_def)
  have dot: "is_version_c CHR ''.''" by (simp add: is_version_c_def)
  from assms d dot show ?thesis
    by (auto simp: fullmatch_lang lang_def BUILD_ID_def digits_rx_def list_all_iff) blast+
qed

lemma expected_file_version_c:
  assumes "list_all (\<lambda>c. is_lower c \<or> is_digit c) dev" and "matches BUILD_ID b" and "matches SHA256 d"
    and "field = ''factory'' \<or> field = ''ota''"
  shows "\<exists>f. expected_file field (dev, b) d = Some f \<and> f \<noteq> [] \<and> list_all is_version_c f"
proof -
  have "is_version_c c" if "is_lower c \<or> is_digit c \<or> is_hex c" for c
    using that by (auto simp: is_version_c_def is_alnum_def is_alpha_def is_hex_def is_lower_def in_range_def)
  then have dv: "list_all is_version_c dev" "list_all is_version_c (take 8 d)"
    using assms(1,3) by (auto simp: list_all_iff matches_SHA256 dest: in_set_takeD)
  have "list_all is_version_c (lower b)"
    using BUILD_ID_version_c [OF assms(2)] by (auto simp: list_all_iff lower_def lower_c_version)
  moreover have "list_all is_version_c ''-''" "list_all is_version_c ''-factory-''" "list_all is_version_c ''-ota-''"
    "list_all is_version_c ''.zip''" by code_simp+
  ultimately show ?thesis using assms(4) dv by (auto simp: expected_file_def)
qed

lemma version_c_not_nl: "list_all is_version_c f \<Longrightarrow> list_all not_nl f"
  by (auto simp: list_all_iff is_version_c_def is_alnum_def is_alpha_def is_digit_def is_upper_def is_lower_def
      in_range_def not_nl_def)

lemma index_line_prop:
  assumes "field \<in> set [''desc'', ''factory'', ''ota'', ''vendor/google_devices'']" and "v \<noteq> []" and "list_all not_nl v"
    and "dget es key = Some e" and "dget e field = None" and "index_value field key v = Inr x"
  shows "index_line (es, Some key) (''  '' @ field @ '': '' @ v) = Inr (dput key (e @ [(field, x)]) es, Some key)"
proof -
  from INDEX_PROP_line [OF assms(1-3)] obtain m where m: "rx_fullmatch INDEX_PROP (''  '' @ field @ '': '' @ v) = Some m"
    "caps m = [(2, v), (1, field)]" by blast
  then have "group m 1 = field" "group m 2 = v" by (simp_all add: group_def grp_def)
  then show ?thesis
    unfolding index_line_def prod.case INDEX_KEY_indented m(1) option.case
    using assms(4-6) by (simp add: Let_def dput_new)
qed

lemma index_value_file:
  assumes "expected_file field key d = Some f" and "matches SHA256 d" and "f \<noteq> []" and "list_all is_version_c f"
    and "field \<noteq> ''desc''"
  shows "index_value field key (d @ '' '' @ f) = Inr (File d f)"
proof -
  from DIGEST_FILE_line [OF assms(2-4)] obtain m where m: "rx_fullmatch DIGEST_FILE (d @ '' '' @ f) = Some m"
    "caps m = [(2, f), (1, d)]" by blast
  then have "group m 1 = d" "group m 2 = f" by (simp_all add: group_def grp_def)
  then show ?thesis
    unfolding index_value_def m(1) option.case using assms(1,5) by simp
qed

definition entry_of :: "string \<times> string \<Rightarrow> string \<Rightarrow> string \<Rightarrow> string \<Rightarrow> index_entry" where
  "entry_of key u d1 d2 = [(''desc'', Desc u), (''factory'', File d1 (the (expected_file ''factory'' key d1))),
     (''ota'', File d2 (the (expected_file ''ota'' key d2)))]"

lemma dput_snoc: "k \<notin> fst ` set xs \<Longrightarrow> dput k v (xs @ [(k, w)]) = xs @ [(k, v)]"
  by (induction xs) auto

lemma entry_lines_read:
  assumes "dev \<noteq> []" and "list_all (\<lambda>c. is_lower c \<or> is_digit c) dev" and "matches BUILD_ID b"
    and "t \<noteq> []" and "list_all not_nl t" and "scalar t = Inr u" and "matches SHA256 d1" and "matches SHA256 d2"
    and "dget es (dev, b) = None"
  shows "fold_res index_line (es, cur) (entry_lines (dev, b) t d1 d2) = Inr (es @ [((dev, b), entry_of (dev, b) u d1 d2)], Some (dev, b))"
proof -
  let ?k = "(dev, b)"
  from assms(9) have new: "?k \<notin> fst ` set es" by (simp add: dget_None)
  obtain f1 where f1: "expected_file ''factory'' ?k d1 = Some f1" "f1 \<noteq> []" "list_all is_version_c f1"
    using expected_file_version_c [OF assms(2,3,7)] by blast
  obtain f2 where f2: "expected_file ''ota'' ?k d2 = Some f2" "f2 \<noteq> []" "list_all is_version_c f2"
    using expected_file_version_c [OF assms(2,3,8)] by blast
  obtain m where m: "rx_fullmatch INDEX_KEY (dev @ '' '' @ b @ '':'') = Some m" "caps m = [(2, b), (1, dev)]"
    using INDEX_KEY_line [OF assms(1-3)] by blast
  have g: "group m 1 = dev" "group m 2 = b" using m(2) by (simp_all add: group_def grp_def)
  have 1: "index_line (es, cur) (dev @ '' '' @ b @ '':'') = Inr (es @ [(?k, [])], Some ?k)"
    unfolding index_line_def prod.case m(1) option.case using assms(9) g by (simp add: Let_def dput_new)
  have get: "dget (es @ [(?k, e)]) ?k = Some e" for e :: index_entry
    using new by (simp add: dget_None [symmetric] map_add_def)
  have hexnl: "list_all not_nl d" if "matches SHA256 d" for d
    using that by (auto simp: matches_SHA256 list_all_iff is_hex_def is_digit_def in_range_def not_nl_def)
  have sp: "not_nl CHR '' ''" by (simp add: not_nl_def)
  have put: "dput ?k e (es @ [(?k, e')]) = es @ [(?k, e)]" for e e' :: index_entry
    by (rule dput_snoc [OF new])
  have 2: "index_line (es @ [(?k, [])], Some ?k) (''  '' @ ''desc'' @ '': '' @ t) = Inr (es @ [(?k, [(''desc'', Desc u)])], Some ?k)"
    by (subst index_line_prop [OF _ assms(4,5) get]) (simp_all add: index_value_def assms(6) put)
  have 3: "index_line (es @ [(?k, [(''desc'', Desc u)])], Some ?k) (''  '' @ ''factory'' @ '': '' @ d1 @ '' '' @ f1)
      = Inr (es @ [(?k, [(''desc'', Desc u), (''factory'', File d1 f1)])], Some ?k)"
    using hexnl [OF assms(7)] version_c_not_nl [OF f1(3)] sp
    by (subst index_line_prop [OF _ _ _ get _ index_value_file [OF f1(1) assms(7) f1(2,3)]]) (simp_all add: put)
  have 4: "index_line (es @ [(?k, [(''desc'', Desc u), (''factory'', File d1 f1)])], Some ?k) (''  '' @ ''ota'' @ '': '' @ d2 @ '' '' @ f2)
      = Inr (es @ [(?k, [(''desc'', Desc u), (''factory'', File d1 f1), (''ota'', File d2 f2)])], Some ?k)"
    using hexnl [OF assms(8)] version_c_not_nl [OF f2(3)] sp
    by (subst index_line_prop [OF _ _ _ get _ index_value_file [OF f2(1) assms(8) f2(2,3)]]) (simp_all add: put)
  from 1 2 3 4 show ?thesis
    by (simp add: entry_lines_def entry_of_def f1(1) f2(1))
qed

section \<open>The properties\<close>

text \<open>
  C32: The stock build of the device is the one that the last file of the include chain that sets \<open>build_id\<close> gives,
  where the chain lists a file after the files it includes. Every file of the chain is a parsed regular file of the
  tree inside the config directory, the last one is the config of the device itself, and the record names the file
  that decides.
\<close>

theorem device_config_last_setting:
  assumes "device_config fs direct sha = Inr c"
  shows "\<exists>order us x ws. visit fs direct sha [] (CONFIG_DIR @ [DEVICE @ ''.yml'']) = Inr order \<and>
    list_all (visited_ok fs sha) order \<and> vpath (last order) = CONFIG_DIR @ [DEVICE @ ''.yml''] \<and>
    chain c = map (\<lambda>v. (vpath v, vsha v)) order \<and>
    order = us @ x # ws \<and> dget (device (vconfig x)) ''build_id'' = Some (Build (build_id c)) \<and> vpath x = fst (set_by c) \<and>
    list_all (\<lambda>w. dget (device (vconfig w)) ''build_id'' = None) ws"
proof -
  from assms obtain order b wh where o: "visit fs direct sha [] (CONFIG_DIR @ [DEVICE @ ''.yml'']) = Inr order"
    "check_merged (foldl merge_file [] order) = Inr (b, wh)"
    "c = \<lparr>build_id = b, set_by = wh, chain = map (\<lambda>v. (vpath v, vsha v)) order\<rparr>"
    by (auto simp: device_config_def bnd_eq_Inr split: prod.split_asm)
  have "strictly_inside CONFIG_DIR (CONFIG_DIR @ [DEVICE @ ''.yml''])"
    by (simp add: strictly_inside_def starts_with_iff)
  from visit_ok(1) [OF o(1) this] obtain us v where v: "list_all (visited_ok fs sha) order" "order = us @ [v]"
    "vpath v = CONFIG_DIR @ [DEVICE @ ''.yml'']" by blast
  from o(2) have d: "dget (foldl merge_file [] order) ''build_id'' = Some (Build b, wh)"
    by (auto simp: check_merged_def split: if_split_asm option.split_asm dval.split_asm)
  have dist: "list_all (\<lambda>v. distinct (map fst (device (vconfig v)))) order"
    using v(1) by (auto simp: list_all_iff visited_ok_def dest: parse_config_distinct)
  have "decisive ''build_id''" by code_simp
  from merge_last [OF dist this] d obtain us' x ws where w: "order = us' @ x # ws" "vpath x = fst wh"
    "sets ''build_id'' x = Some (Build b)" "list_all (\<lambda>w. sets ''build_id'' w = None) ws"
    by (cases wh) auto
  have "vpath (last order) = CONFIG_DIR @ [DEVICE @ ''.yml'']" using v(2,3) by simp
  with o v(1) w show ?thesis
    by (intro exI [of _ order] exI [of _ us'] exI [of _ x] exI [of _ ws] conjI) (simp_all add: sets_def)
qed

definition zeros :: "nat \<Rightarrow> string" where
  "zeros n = replicate n CHR ''0''"

definition lines_text :: "string list \<Rightarrow> string" where
  "lines_text ls = concat (map (\<lambda>l. l @ [nl]) ls)"

definition sample_build :: string where
  "sample_build = ''AP4A.250105.002''"

definition sample_index :: string where
  "sample_index = lines_text (entry_lines (DEVICE, sample_build) ''15.0.0'' (zeros 64) (zeros 64))"

definition sample_tree :: tree where
  "sample_tree =
    [(CONFIG_DIR @ [''caiman.yml''], lines_text [''type: device'', ''includes:'', ''- common.yml'', ''device:'', ''  name: caiman'',
        ''  build_id: AP4A.250105.002'']),
     (CONFIG_DIR @ [''common.yml''], lines_text [''device:'', ''  name: common'', ''  build_id: AP3A.241105.008'']),
     (INDEX, sample_index),
     (SKEL @ [''caiman.mk''], lines_text [''ifneq ($(BUILD_ID),AP4A.250105.002)'', ''  $(error BUILD_ID: expected AP4A.250105.002, got $(BUILD_ID))'', ''endif'']),
     (SKEL @ [''cmds-for-envsetup.sh''], lines_text [''export BUILD_ID_caiman='' @ [CHR 0x22] @ sample_build @ [CHR 0x22]]),
     (SKEL @ [''firmware'', ''android-info.txt''], info_text sample_info)]"

definition sample_projects :: projects where
  "sample_projects m = Some [[(''path'', ''vendor/adevtool''), (''revision'', zeros 40)]]"

definition sample_bases :: bases where
  "sample_bases tag = (if tag = ''2026010200'' then
     Some (JDict [(''schema'', JStr ''andrix.upstream.base/1''), (''release'', JStr ''2026010200''),
       (''manifest'', JDict [(''sha256'', JStr (zeros 64))])]) else None)"

definition sample_worktree :: worktree where
  "sample_worktree = \<lparr>contained = True, toplevel = Some True, head_commit = Some (zeros 40), tracked_clean = True\<rparr>"

lemma sample_device:
  "case device_config sample_tree (\<lambda>_. True) sample_sha of Inl _ \<Rightarrow> False | Inr c \<Rightarrow> build_id c = sample_build"
  by code_simp

theorem device_config_last_setting_witness:
  "\<exists>c order us x ws. device_config sample_tree (\<lambda>_. True) sample_sha = Inr c \<and>
    visit sample_tree (\<lambda>_. True) sample_sha [] (CONFIG_DIR @ [DEVICE @ ''.yml'']) = Inr order \<and>
    order = us @ x # ws \<and> dget (device (vconfig x)) ''build_id'' = Some (Build sample_build)"
  using sample_device device_config_last_setting [of sample_tree "\<lambda>_. True" sample_sha]
  by (fastforce split: sum.split_asm)

text \<open>
  C36: An entry of the build index reads back: the key line of a device and a build identifier, its description and
  the digests with the file names that Google's naming gives for them add exactly that entry after
  whatever the index held, and leave the reader inside that entry.
\<close>

theorem index_entry_round_trip:
  assumes "dev \<noteq> []" and "list_all (\<lambda>c. is_lower c \<or> is_digit c) dev" and "matches BUILD_ID b"
    and "t \<noteq> []" and "list_all not_nl t" and "scalar t = Inr u" and "matches SHA256 d1" and "matches SHA256 d2"
    and "dget es (dev, b) = None"
  shows "fold_res index_line (es, cur) (entry_lines (dev, b) t d1 d2) =
    Inr (es @ [((dev, b), entry_of (dev, b) u d1 d2)], Some (dev, b))"
  by (rule entry_lines_read [OF assms])

lemma sample_entry_facts:
  "DEVICE \<noteq> []" "list_all (\<lambda>c. is_lower c \<or> is_digit c) DEVICE" "matches BUILD_ID sample_build"
  "list_all not_nl ''15.0.0''" "scalar ''15.0.0'' = Inr ''15.0.0''" "matches SHA256 (zeros 64)"
  by code_simp+

theorem index_entry_round_trip_witness:
  "fold_res index_line ([], None) (entry_lines (DEVICE, sample_build) ''15.0.0'' (zeros 64) (zeros 64)) =
     Inr ([((DEVICE, sample_build), entry_of (DEVICE, sample_build) ''15.0.0'' (zeros 64) (zeros 64))], Some (DEVICE, sample_build))"
  using index_entry_round_trip [OF sample_entry_facts(1-3) _ sample_entry_facts(4-6) sample_entry_facts(6), of "[]" None] by simp


lemma sample_index_parses:
  "parse_build_index sample_index = Inr [((DEVICE, sample_build), entry_of (DEVICE, sample_build) ''15.0.0'' (zeros 64) (zeros 64))]"
proof -
  have "list_all (list_all not_nl) (entry_lines (DEVICE, sample_build) ''15.0.0'' (zeros 64) (zeros 64))"
    by code_simp
  then have "info_lines sample_index = entry_lines (DEVICE, sample_build) ''15.0.0'' (zeros 64) (zeros 64)"
    unfolding sample_index_def lines_text_def
    by (intro info_lines_text) (auto simp: list_all_iff not_nl_def)
  moreover have "list_all (\<lambda>(k, e). list_ex (keys_are e) SHAPES)
      [((DEVICE, sample_build), entry_of (DEVICE, sample_build) ''15.0.0'' (zeros 64) (zeros 64))]"
    by (simp add: entry_of_def SHAPES_def keys_are_def)
  ultimately show ?thesis
    using entry_lines_read [OF sample_entry_facts(1-3) _ sample_entry_facts(4-6) sample_entry_facts(6), of "[]" None]
    by (simp add: parse_build_index_def)
qed

lemma sample_reads: "read_text sample_tree INDEX = Inr sample_index"
  by code_simp

lemma sample_module: "is_ok (generated_module sample_tree sample_sha sample_build)"
  by code_simp

lemma sample_revision:
  "manifest_revision sample_projects sample_sha sample_bases [] ''2026010200'' = Inr (zeros 40, JStr (zeros 64))"
  by code_simp

lemma sample_head: "check_project sample_worktree (zeros 40) = Some (zeros 40)"
  by (simp add: check_project_def sample_worktree_def)

lemma sample_tag: "is_ok (parse_release (JStr ''2026010200'') False)"
  by code_simp

lemma sample_derives:
  "is_ok (derive_record sample_tree (\<lambda>_. True) sample_projects sample_worktree sample_sha sample_bases [] ''2026010200'')"
proof -
  obtain c where c: "device_config sample_tree (\<lambda>_. True) sample_sha = Inr c" "build_id c = sample_build"
    using sample_device by (auto split: sum.split_asm)
  obtain g where g: "generated_module sample_tree sample_sha sample_build = Inr g"
    using sample_module by (auto simp: is_ok_def split: sum.split_asm)
  obtain rel where rel: "parse_release (JStr ''2026010200'') False = Inr rel"
    using sample_tag by (auto simp: is_ok_def split: sum.split_asm)
  obtain x where x: "caiman_builds [((DEVICE, sample_build), entry_of (DEVICE, sample_build) ''15.0.0'' (zeros 64) (zeros 64))] = Inr [(sample_build, x)]"
    by (simp add: caiman_builds_def caiman_build_def entry_of_def)
  have "derive_content sample_tree (\<lambda>_. True) sample_sha ''2026010200'' \<in> range Inr"
    by (simp add: derive_content_def rel c sample_reads sample_index_parses x g)
  then show ?thesis
    by (auto simp: derive_record_def sample_revision is_ok_def tree_head_def sample_head)
qed


end
