(* ===== verification/Flash_Script.thy ===== *)
theory Flash_Script
  imports Caiman
begin

text \<open>
  \<^verbatim>\<open>scripts/pixel/flash_script.py\<close>: reading a flash-all.sh against the official GrapheneOS script. The
  constants are those of the source; \<^verbatim>\<open>PROLOG_LINES\<close> is \<^verbatim>\<open>PROLOG.split('\n')[:-1]\<close>. The findings keep the
  texts the reader prints. \<^verbatim>\<open>shlex.shlex\<close> is modelled for the settings this module gives it (POSIX mode,
  the default punctuation characters, \<^verbatim>\<open>whitespace_split\<close>, comments), character by character.
\<close>

section \<open>The official text\<close>

definition FORMS :: "string list" where
  "FORMS = [''legacy'', ''optimized'']"

definition MAX_SCRIPT :: nat where
  "MAX_SCRIPT = 1048576"

definition DEFAULT_OS_IMAGES :: "string list" where
  "DEFAULT_OS_IMAGES = [''boot'', ''init_boot'', ''dtbo'', ''vendor_kernel_boot'', ''pvmfw'', ''vendor_boot'',
     ''vbmeta'']"

definition DEFAULT_WIPE :: "string list" where
  "DEFAULT_WIPE = [''userdata'', ''metadata'']"

definition MAX_DOWNLOAD_SIZE :: string where
  "MAX_DOWNLOAD_SIZE = ''0xf900000''"

definition PROLOG_LINES :: "string list" where
  "PROLOG_LINES = [
    ''#!/bin/sh'',
    '''',
    ''#    SSSSSSSSSSSSSSS  TTTTTTTTTTTTTTTTTTTTTTT      OOOOOOOOO      PPPPPPPPPPPPPPPPP'',
    ''#  SS:::::::::::::::S T:::::::::::::::::::::T    OO:::::::::OO    P::::::::::::::::P'',
    ''# S:::::SSSSSS::::::S T:::::::::::::::::::::T  OO:::::::::::::OO  P::::::PPPPPP:::::P'',
    ''# S:::::S     SSSSSSS T:::::TT:::::::TT:::::T O:::::::OOO:::::::O PP:::::P     P:::::P'',
    ''# S:::::S             TTTTTT  T:::::T  TTTTTT O::::::O   O::::::O   P::::P     P:::::P'',
    ''# S:::::S                     T:::::T         O:::::O     O:::::O   P::::P     P:::::P'',
    ''#  S::::SSSS                  T:::::T         O:::::O     O:::::O   P::::PPPPPP:::::P'',
    ''#   SS::::::SSSSS             T:::::T         O:::::O     O:::::O   P:::::::::::::PP'',
    ''#     SSS::::::::SS           T:::::T         O:::::O     O:::::O   P::::PPPPPPPPP'',
    ''#        SSSSSS::::S          T:::::T         O:::::O     O:::::O   P::::P'',
    ''#             S:::::S         T:::::T         O:::::O     O:::::O   P::::P'',
    ''#             S:::::S         T:::::T         O::::::O   O::::::O   P::::P'',
    ''# SSSSSSS     S:::::S       TT:::::::TT       O:::::::OOO:::::::O PP::::::PP'',
    ''# S::::::SSSSSS:::::S       T:::::::::T        OO:::::::::::::OO  P::::::::P'',
    ''# S:::::::::::::::SS        T:::::::::T          OO:::::::::OO    P::::::::P'',
    ''#  SSSSSSSSSSSSSSS          TTTTTTTTTTT            OOOOOOOOO      PPPPPPPPPP'',
    ''#'',
    ''# DO NOT EDIT THIS FILE. THE OFFICIAL GRAPHENEOS INSTALL GUIDE WILL NEVER INSTRUCT YOU'',
    ''# TO EDIT THIS FILE. IF YOU ARE FOLLOWING A 3RD PARTY GUIDE YOU SHOULD STOP IMMEDIATELY'',
    ''# AND START OVER AND FOLLOW THE OFFICIAL INSTALLATION PROCESS ON THE OFFICIAL WEBSITE.'',
    ''# USING THE WEB INSTALLER IS STRONGLY RECOMMENDED https://grapheneos.org/install/web'',
    ''# THE CLI INSTALLATION PROCESS SHOULD ONLY BE USED BY USERS WITH SPECIFIC NEEDS.'',
    '''',
    ''# Copyright 2012 The Android Open Source Project'',
    ''#'',
    ''# Licensed under the Apache License, Version 2.0 (the \"License\");'',
    ''# you may not use this file except in compliance with the License.'',
    ''# You may obtain a copy of the License at'',
    ''#'',
    ''#      http://www.apache.org/licenses/LICENSE-2.0'',
    ''#'',
    ''# Unless required by applicable law or agreed to in writing, software'',
    ''# distributed under the License is distributed on an \"AS IS\" BASIS,'',
    ''# WITHOUT WARRANTIES OR CONDITIONS OF ANY KIND, either express or implied.'',
    ''# See the License for the specific language governing permissions and'',
    ''# limitations under the License.'',
    '''',
    ''if ! command -v fastboot > /dev/null; then'',
    ''  echo \"fastboot not found\"'',
    ''  echo \"Download the latest version at https://developer.android.com/studio/releases/platform-tools.html and add it to the shell PATH\"'',
    ''  exit 1'',
    ''fi'',
    '''',
    ''set -e'',
    '''',
    ''FASTBOOT_VERSION_STR=$(fastboot --version | grep \"fastboot version \" | cut -c18-23)'',
    ''FASTBOOT_VERSION_NUM=$(echo $FASTBOOT_VERSION_STR | tr -d .)'',
    ''if ! [ $FASTBOOT_VERSION_NUM -ge 3501 ]; then'',
    ''  echo \"fastboot version ($FASTBOOT_VERSION_STR) is older than the minimum supported version (35.0.1).\"'',
    ''  echo \"Download the latest version at https://developer.android.com/studio/releases/platform-tools.html and add it to the shell PATH\"'',
    ''  exit 1'',
    ''fi'']"

text \<open>
  The class attributes \<^verbatim>\<open>wipe\<close>, \<^verbatim>\<open>os_images\<close> and \<^verbatim>\<open>wipe_partitions\<close> are not annotated, so they are not
  dataclass fields: every expectation has the same ones.
\<close>

record expectation =
  ebootloader :: string
  ebaseband :: string
  ebuild :: "string option"
  max_download_size :: string

definition wipe :: bool where
  "wipe = True"

definition Expectation :: "string \<Rightarrow> string \<Rightarrow> string option \<Rightarrow> expectation" where
  "Expectation bl bb b = \<lparr>ebootloader = bl, ebaseband = bb, ebuild = b, max_download_size = MAX_DOWNLOAD_SIZE\<rparr>"

definition bootloader_file :: "expectation \<Rightarrow> string" where
  "bootloader_file e = ''bootloader-'' @ DEVICE @ ''-'' @ lower (ebootloader e) @ ''.img''"

definition radio_file :: "expectation \<Rightarrow> string" where
  "radio_file e = ''radio-'' @ DEVICE @ ''-'' @ lower (ebaseband e) @ ''.img''"

definition check_var :: "string \<Rightarrow> string \<Rightarrow> string \<Rightarrow> string list" where
  "check_var name val msg =
    (let short = filter (\<lambda>c. c \<noteq> CHR ''-'' \<and> c \<noteq> CHR ''_'') name in
     [short @ ''=$(fastboot getvar '' @ name @ '' 2>&1 | grep \"'' @ name @ '':\" | cut -d ' ' -f 2)'',
      ''if ! [ $'' @ short @ '' = \"'' @ val @ ''\" ]; then'', ''  echo '' @ msg @ ''$'' @ short, ''  exit 1'', ''fi''])"

definition bootloader_lines :: "expectation \<Rightarrow> string list" where
  "bootloader_lines e =
    (let flash = ''fastboot flash --slot=other bootloader '' @ bootloader_file e in
     [flash, ''fastboot --set-active=other'', ''fastboot reboot-bootloader'', ''sleep 5'',
      flash, ''fastboot --set-active=other'', ''fastboot reboot-bootloader'', ''sleep 5''])"

definition middle_lines :: "expectation \<Rightarrow> string list" where
  "middle_lines e = [''fastboot flash radio '' @ radio_file e, ''fastboot reboot-bootloader'', ''sleep 5'',
     ''fastboot erase avb_custom_key'', ''fastboot flash avb_custom_key avb_pkmd.bin'',
     ''fastboot oem uart disable'', ''fastboot erase fips'', ''fastboot erase dpm_a'', ''fastboot erase dpm_b'']"

definition legacy_text :: "expectation \<Rightarrow> string \<Rightarrow> string list" where
  "legacy_text e build = PROLOG_LINES @
     ['''', ''# PROLOG_END'', ''# The above line is used by FlashCapturer in fastboot'', '''',
      ''product=$(fastboot getvar product 2>&1 | grep \"product:\" | cut -d ' ' -f 2)'',
      ''if ! [ $product = '' @ DEVICE @ '' ]; then'',
      ''  echo \"You're attempting to flash the wrong factory images. This would likely brick '' @
        ''your device.\"'',
      ''  echo'',
      ''  echo \"These factory images are for '' @ DEVICE @ '' and the detected device is '' @ ''$product.\"'',
      ''  exit 1'', ''fi'', ''''] @ bootloader_lines e @ middle_lines e @
     [''fastboot '' @ (if wipe then ''-w '' else '''') @ ''--skip-reboot update image-'' @ DEVICE @ ''-'' @ build @ ''.zip'',
      ''fastboot reboot-bootloader'', ''sleep 5'']"

definition legacy_lines :: "expectation \<Rightarrow> string list res" where
  "legacy_lines e = (case ebuild e of
     None \<Rightarrow> Inl (Refusal ''the legacy form names the image zip by build number, so the build is needed'')
   | Some b \<Rightarrow> bnd (parse_release (JStr b) True) (\<lambda>r. Inr (legacy_text e (number r))))"

definition optimized_head :: "expectation \<Rightarrow> string list" where
  "optimized_head e = PROLOG_LINES @ ['''', ''echo Available devices:'', ''fastboot devices -l'']
     @ check_var ''product'' DEVICE
         (''Error: this factory image is for '' @ DEVICE @ '', but the name of '' @ ''connected device is '')
     @ check_var ''slot-count'' ''2'' (''Error: unexpected value of slot-count variable: '' @ ''expected 2, got '')
     @ bootloader_lines e
     @ [''# size of partition splits depends on this value'']
     @ check_var ''max-download-size'' (max_download_size e)
         (''Error: unexpected value of max-download-size variable: expected '' @ max_download_size e @ '', got '')
     @ [''# layout of the super partition depends on the current slot, which is hardcoded '' @ ''to slot A'',
        ''fastboot --set-active=a'']
     @ check_var ''current-slot'' ''a'' (''Error: unexpected value of current-slot variable: '' @ ''expected a, got '')
     @ middle_lines e
     @ [''# this command only checks android-info.txt requirements, it does not perform an '' @ ''update'',
        ''fastboot --disable-super-optimization --skip-reboot update android-info.zip'',
        ''fastboot snapshot-update cancel'']"

definition super_lines :: "nat \<Rightarrow> nat \<Rightarrow> string list" where
  "super_lines splits i = [''echo Flashing super, '' @ str_nat i @ ''/'' @ str_nat splits,
     ''fastboot flash super super_'' @ str_nat i @ ''.img'']"

definition optimized_os_lines :: "nat \<Rightarrow> string list" where
  "optimized_os_lines splits =
     map (\<lambda>n. ''fastboot flash '' @ n @ '' '' @ n @ ''.img'') DEFAULT_OS_IMAGES
     @ (if wipe then map (\<lambda>n. ''fastboot erase '' @ n) DEFAULT_WIPE else [])
     @ concat (map (super_lines splits) [1..<splits + 1])"

section \<open>fastboot's command line\<close>

text \<open>An option's entry: does it take a value? (\<open>None\<close> is Python's \<open>None\<close>: an optional value, falsy.)\<close>

definition LONG_OPTIONS :: "(string, bool option) dict" where
  "LONG_OPTIONS = [(''base'', Some True), (''cmdline'', Some True), (''disable-verification'', Some False),
     (''disable-verity'', Some False), (''disable-super-optimization'', Some False),
     (''exclude-dynamic-partitions'', Some False), (''disable-fastboot-info'', Some False),
     (''force'', Some False), (''fs-options'', Some True), (''header-version'', Some True), (''help'', Some False),
     (''kernel-offset'', Some True), (''os-patch-level'', Some True), (''os-version'', Some True),
     (''page-size'', Some True), (''ramdisk-offset'', Some True), (''set-active'', None),
     (''skip-reboot'', Some False), (''skip-secondary'', Some False), (''slot'', Some True),
     (''tags-offset'', Some True), (''dtb'', Some True), (''dtb-offset'', Some True), (''unbuffered'', Some False),
     (''verbose'', Some False), (''version'', Some False)]"

definition SHORT_OPTIONS :: "(char, string) dict" where
  "SHORT_OPTIONS = [(CHR ''a'', ''set-active''), (CHR ''h'', ''help''), (CHR ''l'', ''long-listing''),
     (CHR ''s'', ''serial''), (CHR ''S'', ''sparse-limit''), (CHR ''v'', ''verbose''), (CHR ''w'', ''wipe'')]"

definition INDIRECT :: "string list" where
  "INDIRECT = [''eval'', ''exec'', ''sh'', ''bash'', ''dash'', ''env'', ''command'', ''xargs'', ''sudo'', ''doas'',
     ''source'', ''.'', ''su'', ''nohup'', ''time'', ''timeout'', ''busybox'']"

definition SHELL_WORDS :: "string list" where
  "SHELL_WORDS = [''{'', ''}'', ''!'', ''if'', ''then'', ''else'', ''elif'', ''fi'', ''do'', ''done'', ''while'', ''until'']"

definition LOCKING :: "string list list" where
  "LOCKING = [[''flashing'', ''lock''], [''flashing'', ''lock_critical''], [''oem'', ''lock'']]"

definition UNLOCKING :: "string list list" where
  "UNLOCKING = [[''flashing'', ''unlock''], [''flashing'', ''unlock_critical''], [''oem'', ''unlock'']]"

definition long_option :: "string \<Rightarrow> string option" where
  "long_option name =
     (if dget LONG_OPTIONS name \<noteq> None then Some name
      else let ms = filter (starts_with name) (dkeys LONG_OPTIONS)
           in if length ms = 1 \<and> name \<noteq> [] then Some (hd ms) else None)"

text \<open>\<^verbatim>\<open>s.partition('=')\<close>, with the text after the separator only when there is one.\<close>

definition partition_eq :: "string \<Rightarrow> string \<times> string option" where
  "partition_eq s = (case find_sub ''='' s of None \<Rightarrow> (s, None) | Some i \<Rightarrow> (take i s, Some (drop (i + 1) s)))"

type_synonym option_list = "(string \<times> string option) list"

record invocation =
  options :: option_list
  iwords :: "string list"
  problems :: "string list"

text \<open>The letters of one short argument: the options, the problems, and whether the next argument was used.\<close>

fun short_options :: "string \<Rightarrow> string option \<Rightarrow> option_list \<times> string list \<times> bool" where
  "short_options [] nxt = ([], [], False)"
| "short_options (l # ls) nxt =
     (case dget SHORT_OPTIONS l of
        None \<Rightarrow> ([], [''unknown option -'' @ [l]], False)
      | Some name \<Rightarrow>
          if l = CHR ''a'' then ([(name, if ls = [] then None else Some ls)], [], False)
          else if l \<in> set ''sS'' then
            (if ls \<noteq> [] then ([(name, Some ls)], [], False)
             else ([(name, Some (case nxt of None \<Rightarrow> [] | Some v \<Rightarrow> v))], [], True))
          else (case short_options ls nxt of (os, ps, used) \<Rightarrow> ((name, None) # os, ps, used)))"

definition add_inv :: "option_list \<Rightarrow> string list \<Rightarrow> string list \<Rightarrow> invocation \<Rightarrow> invocation" where
  "add_inv os ws ps i = \<lparr>options = os @ options i, iwords = ws @ iwords i, problems = ps @ problems i\<rparr>"

definition takes_next :: "string \<Rightarrow> string option \<Rightarrow> bool" where
  "takes_next full val \<longleftrightarrow> dget LONG_OPTIONS full = Some (Some True) \<and> val = None"

fun parse_invocation :: "string list \<Rightarrow> invocation" where
  "parse_invocation [] = \<lparr>options = [], iwords = [], problems = []\<rparr>"
| "parse_invocation (arg # rest) =
     (if arg = ''--'' then \<lparr>options = [], iwords = rest, problems = []\<rparr>
      else if starts_with ''--'' arg then
        (case partition_eq (drop 2 arg) of (name, val) \<Rightarrow>
          (case long_option name of
             None \<Rightarrow> add_inv [(arg, val)] [] [''unknown or ambiguous option '' @ arg] (parse_invocation rest)
           | Some full \<Rightarrow>
               if takes_next full val then
                 (case rest of
                    [] \<Rightarrow> add_inv [(full, Some [])] [] [] (parse_invocation [])
                  | v # others \<Rightarrow> add_inv [(full, Some v)] [] [] (parse_invocation others))
               else add_inv [(full, val)] [] [] (parse_invocation rest)))
      else if starts_with ''-'' arg \<and> arg \<noteq> ''-'' then
        (case rest of
           [] \<Rightarrow> (case short_options (tl arg) None of (os, ps, used) \<Rightarrow> add_inv os [] ps (parse_invocation []))
         | v # others \<Rightarrow> (case short_options (tl arg) (Some v) of (os, ps, used) \<Rightarrow>
             if used then add_inv os [] ps (parse_invocation others)
             else add_inv os [] ps (parse_invocation (v # others))))
      else add_inv [] [arg] [] (parse_invocation rest))"

section \<open>Reasons and findings\<close>

definition option_reason :: "string \<times> string option \<Rightarrow> string list" where
  "option_reason nv = (case nv of (name, val) \<Rightarrow>
     if name = ''set-active'' then
       [''--set-active'' @ (case val of None \<Rightarrow> [] | Some v \<Rightarrow> if v = [] then [] else ''='' @ v) @
        '' outside the official '' @ ''bootloader sequence (rule 4)'']
     else if name = ''slot'' then
       [''--slot='' @ (case val of None \<Rightarrow> ''None'' | Some v \<Rightarrow> v) @ '' outside the official bootloader sequence (rule 4)'']
     else if name = ''disable-verity'' \<or> name = ''disable-verification'' then
       [''--'' @ name @ '' switches verified boot checks off'']
     else if name \<notin> {''wipe'', ''skip-reboot'', ''disable-super-optimization'', ''force''} then
       [''option '' @ name @ '' is not used by the official script'']
     else [])"

definition OTHER_VERBS :: "string list" where
  "OTHER_VERBS = [''flashall'', ''boot'', ''wipe-super'', ''create-logical-partition'',
     ''delete-logical-partition'', ''resize-logical-partition'', ''gsi'', ''stage'',
     ''get_staged'', ''fetch'', ''continue'', ''signature'', ''download'', ''upload'',
     ''snapshot-update'', ''flashing'', ''reboot'', ''reboot-recovery'', ''reboot-fastboot'',
     ''reboot-bootloader'', ''getvar'', ''devices'', ''shutdown'']"

definition verb_reason :: "string list \<Rightarrow> string" where
  "verb_reason wds =
    (let verb = hd wds; command = take 2 wds; spaced = join '' ''; rest = spaced (tl wds) in
     if command \<in> set LOCKING then ''\"'' @ spaced command @ ''\" locks the bootloader (rule 2)''
     else if command \<in> set UNLOCKING
     then ''\"'' @ spaced command @ ''\" unlocks; only stage 7 unlocks, never a flash script''
     else if verb = ''set_active'' then ''set_active (rule 4)''
     else if starts_with ''format'' verb then verb @ '' '' @ rest @ '' formats a partition (rule 6)''
     else if verb = ''erase'' then ''erases '' @ (if rest = [] then ''nothing named'' else rest) @ '' (rule 6)''
     else if verb = ''flash'' \<or> verb = ''flash:raw''
     then verb @ '' '' @ rest @ '' writes a partition the official script does '' @ ''not write there (rule 6)''
     else if verb = ''update'' then ''update '' @ rest @ '' is not the official update (rules 4 and 6)''
     else if verb = ''oem'' then ''oem '' @ rest @ '' is not in the official script''
     else if verb \<in> set OTHER_VERBS
     then ''\"'' @ spaced wds @ ''\" is not in the official script at this place (rule 4)''
     else ''unknown fastboot command '' @ py_repr verb)"

definition classify :: "string list \<Rightarrow> string list" where
  "classify args =
    (let i = parse_invocation args;
         names = map fst (options i);
         reasons = problems i @ (if ''force'' \<in> set names then [''--force (rule 4)''] else [])
           @ concat (map option_reason (options i))
     in if iwords i = [] then
          reasons @ (if ''set-active'' \<notin> set names \<and> reasons = []
            then [''fastboot without a command is not in the official script''] else [])
        else reasons @ [verb_reason (iwords i)])"

text \<open>\<^verbatim>\<open>shlex.read_token\<close>: the lexer's state, the token so far and whether a quote was seen.\<close>

datatype lex_state = Space | Word | Punct | Quoted char | Escaped "char option"

definition lex_white :: "char \<Rightarrow> bool" where
  "lex_white c \<longleftrightarrow> c \<in> {CHR '' '', CHR 0x09, CHR 0x0D, nl}"

definition lex_punct :: "char \<Rightarrow> bool" where
  "lex_punct c \<longleftrightarrow> c \<in> set ''();<>|&''"

definition lex_quote :: "char \<Rightarrow> bool" where
  "lex_quote c \<longleftrightarrow> c = CHR 0x27 \<or> c = CHR 0x22"

definition begin_token :: "char \<Rightarrow> lex_state \<times> string" where
  "begin_token c = (if c = CHR 0x5C then (Escaped None, [])
     else if lex_punct c then (Punct, [c]) else if lex_quote c then (Quoted c, []) else (Word, [c]))"

definition emit :: "string \<Rightarrow> bool \<Rightarrow> string list res \<Rightarrow> string list res" where
  "emit tok quoted rest = bnd rest (\<lambda>ts. Inr (if tok \<noteq> [] \<or> quoted then tok # ts else ts))"

definition skip_line :: "string \<Rightarrow> string" where
  "skip_line s = drop 1 (dropWhile (\<lambda>c. c \<noteq> nl) s)"

lemma length_skip_line: "length (skip_line s) \<le> length s"
  using length_dropWhile_le [of "\<lambda>c. c \<noteq> nl" s] unfolding skip_line_def by simp

function shlex :: "lex_state \<Rightarrow> string \<Rightarrow> bool \<Rightarrow> string \<Rightarrow> string list res" where
  "shlex Space tok q [] = Inr []"
| "shlex Space tok q (c # cs) =
     (if lex_white c then shlex Space [] False cs
      else if c = CHR ''#'' then shlex Space [] False (skip_line cs)
      else shlex (fst (begin_token c)) (snd (begin_token c)) False cs)"
| "shlex (Quoted k) tok q [] = Inl (ValueError ''No closing quotation'')"
| "shlex (Quoted k) tok q (c # cs) =
     (if c = k then shlex Word tok True cs
      else if c = CHR 0x5C \<and> k = CHR 0x22 then shlex (Escaped (Some k)) tok True cs
      else shlex (Quoted k) (tok @ [c]) True cs)"
| "shlex (Escaped e) tok q [] = Inl (ValueError ''No escaped character'')"
| "shlex (Escaped e) tok q (c # cs) =
     (case e of
        None \<Rightarrow> shlex Word (tok @ [c]) q cs
      | Some k \<Rightarrow> shlex (Quoted k) ((if c \<noteq> CHR 0x5C \<and> c \<noteq> k then tok @ [CHR 0x5C] else tok) @ [c]) q cs)"
| "shlex Word tok q [] = emit tok q (Inr [])"
| "shlex Word tok q (c # cs) =
     (if lex_white c then emit tok q (shlex Space [] False cs)
      else if c = CHR ''#'' then emit tok q (shlex Space [] False (skip_line cs))
      else if lex_quote c then shlex (Quoted c) tok q cs
      else if c = CHR 0x5C then shlex (Escaped None) tok q cs
      else if lex_punct c then emit tok q (shlex Punct [c] False cs)
      else shlex Word (tok @ [c]) q cs)"
| "shlex Punct tok q [] = emit tok q (Inr [])"
| "shlex Punct tok q (c # cs) =
     (if lex_white c then emit tok q (shlex Space [] False cs)
      else if c = CHR ''#'' then emit tok q (shlex Space [] False (skip_line cs))
      else if lex_punct c then shlex Punct (tok @ [c]) q cs
      else emit tok q (shlex (fst (begin_token c)) (snd (begin_token c)) False cs))"
  by pat_completeness auto
termination
  by (relation "measure (\<lambda>(s, t, q, cs). length cs)") (auto simp: less_Suc_eq_le length_skip_line)

definition separator :: "string \<Rightarrow> bool" where
  "separator w \<longleftrightarrow> w \<noteq> [] \<and> set w \<subseteq> set '';&|()<>''"

fun group_commands :: "string list \<Rightarrow> string list \<Rightarrow> string list list" where
  "group_commands command [] = []"
| "group_commands command (w # ws) =
     (if separator w then (if command \<noteq> [] then [command] else []) @ group_commands [] ws
      else group_commands (command @ [w]) ws)"

definition simple_commands :: "string \<Rightarrow> string list list res" where
  "simple_commands line = bnd (shlex Space [] False line) (\<lambda>ws. Inr (group_commands [] (ws @ ['';''])))"

definition ASSIGNMENT :: "char rx" where
  "ASSIGNMENT = seqs [Sym (\<lambda>c. is_alpha c \<or> c = CHR ''_''), star (Sym is_word), lit ''='', star (Sym (\<lambda>c. c \<noteq> nl))]"

fun strip_words :: "string list \<Rightarrow> string list \<times> string list" where
  "strip_words [] = ([], [])"
| "strip_words (w # ws) =
     (if w \<in> set SHELL_WORDS \<or> matches ASSIGNMENT w then
        (case strip_words ws of (fs, rest) \<Rightarrow>
          ((if contains ''fastboot'' w \<and> w \<notin> set SHELL_WORDS then [''stores fastboot in a variable''] else []) @ fs, rest))
      else ([], w # ws))"

definition program_of :: "string \<Rightarrow> string" where
  "program_of w = last (split_char CHR ''/'' w)"

definition command_findings :: "string list \<Rightarrow> string list" where
  "command_findings command = (case strip_words command of (fs, wds) \<Rightarrow> fs @
     (case wds of
        [] \<Rightarrow> []
      | w # args \<Rightarrow>
          let program = program_of w in
          if starts_with ''$'' program then [''runs a command through a variable'']
          else if program = ''fastboot'' then classify args
          else if program \<in> set INDIRECT then [program @ '' can run commands indirectly'']
          else if contains ''fastboot'' (join '' '' wds)
          then [''fastboot used in a way the official script '' @ ''does not use it'']
          else []))"

definition line_findings :: "string \<Rightarrow> string list" where
  "line_findings line =
     (if CHR 0x60 \<in> set line then [''backquote command substitution is not in the '' @ ''official script''] else [])
     @ (case simple_commands line of
          Inl (ValueError e) \<Rightarrow> [''unparsable shell line ('' @ e @ '')'']
        | Inl e \<Rightarrow> []
        | Inr cs \<Rightarrow> concat (map command_findings cs))"

definition skipped_line :: "string list \<Rightarrow> string \<Rightarrow> bool" where
  "skipped_line official line \<longleftrightarrow> line \<in> set official \<or> strip line = [] \<or> starts_with ''#'' (lstrip line)"

definition scan :: "string list \<Rightarrow> string list \<Rightarrow> string list" where
  "scan lines official = concat (map (\<lambda>(n, line).
     if skipped_line official line then []
     else map (\<lambda>f. ''line '' @ str_nat n @ '': '' @ f) (line_findings line)) (zip [1..<length lines + 1] lines))"

fun index_of :: "string \<Rightarrow> string list \<Rightarrow> nat" where
  "index_of x [] = 0"
| "index_of x (y # ys) = (if x = y then 0 else Suc (index_of x ys))"

definition first_difference :: "string list \<Rightarrow> string list \<Rightarrow> nat \<Rightarrow> string option" where
  "first_difference found wanted offset =
     (case find (\<lambda>i. found ! i \<noteq> wanted ! i) [0..<min (length found) (length wanted)] of
        Some i \<Rightarrow>
          let have = found ! i; want = wanted ! i; where = ''line '' @ str_nat (offset + i + 1) in
          Some (if have \<in> set wanted
            then where @ '': found '' @ py_repr have @ '', which belongs at line '' @
              str_nat (offset + index_of have wanted + 1) @ ''; expected '' @ py_repr want @ '' (order differs)''
            else where @ '': expected '' @ py_repr want @ '', found '' @ py_repr have)
      | None \<Rightarrow>
          if length found < length wanted
          then Some (''line '' @ str_nat (offset + length found + 1) @ '': the script ends early; expected '' @
            py_repr (wanted ! length found))
          else if length found > length wanted
          then Some (''line '' @ str_nat (offset + length wanted + 1) @ '': unexpected extra line '' @
            py_repr (found ! length wanted))
          else None)"

section \<open>Reading a script\<close>

definition split_script :: "string \<Rightarrow> string list res" where
  "split_script data =
     (if length data > MAX_SCRIPT then Inl (Refusal ''the script is not bytes or is larger than 1 MiB'')
      else case decode_ascii data of
        None \<Rightarrow> Inl (Refusal ''the script is not ASCII'')
      | Some text \<Rightarrow>
          if bad_control text then Inl (Refusal ''the script contains carriage returns, tabs or NUL bytes'')
          else if \<not> ends_with [nl] text then Inl (Refusal ''the script does not end with a newline'')
          else Inr (split_char nl (butlast text)))"

definition super_splits :: "string list \<Rightarrow> nat \<Rightarrow> nat option" where
  "super_splits lines start =
    (let count = (length lines - start) div 2 in
     if length lines < start \<or> count < 1 \<or> start + 2 * count \<noteq> length lines then None
     else if \<forall>i \<in> set [1..<count + 1].
         lines ! (start + 2 * i - 2) = ''echo Flashing super, '' @ str_nat i @ ''/'' @ str_nat count \<and>
         lines ! (start + 2 * i - 1) = ''fastboot flash super super_'' @ str_nat i @ ''.img''
     then Some count else None)"

definition number_rx :: "char rx" where
  "number_rx = Seq (Sym (in_range 49 57)) (between 0 2 (Sym is_digit))"

definition SUPER_LINE :: "char rx" where
  "SUPER_LINE = Alt (seqs [lit ''echo Flashing super, '', number_rx, lit ''/'', number_rx])
     (seqs [lit ''fastboot flash super super_'', number_rx, lit ''.img''])"

record report =
  rform :: string
  files :: "string list"
  rsplits :: "nat option"
  verdict :: string
  reasons :: "string list"
  commands :: "string list"

definition detect_form :: "string list \<Rightarrow> string option \<Rightarrow> string res" where
  "detect_form lines form = (case form of
     None \<Rightarrow>
       if ''echo Available devices:'' \<in> set lines then Inr ''optimized''
       else if ''# PROLOG_END'' \<in> set lines then Inr ''legacy''
       else Inl (Refusal ''neither the legacy nor the optimized form'')
   | Some f \<Rightarrow> if f \<notin> set FORMS then Inl (Refusal ''unknown form'') else Inr f)"

definition finish_report :: "string \<Rightarrow> string list \<Rightarrow> nat option \<Rightarrow> string list \<Rightarrow> string list \<Rightarrow> string option \<Rightarrow> report" where
  "finish_report form fs splits lines official difference =
    (let rs = scan lines official @ (case difference of None \<Rightarrow> [] | Some d \<Rightarrow> [d]) in
     \<lparr>rform = form, files = fs, rsplits = splits, verdict = (if rs = [] then ''PASS'' else ''REFUSE''),
      reasons = rs, commands = filter (starts_with ''fastboot '') lines\<rparr>)"

definition base_files :: "expectation \<Rightarrow> string list" where
  "base_files e = [bootloader_file e, radio_file e, ''avb_pkmd.bin'']"

definition read_legacy :: "string list \<Rightarrow> expectation \<Rightarrow> report res" where
  "read_legacy lines e = bnd (legacy_lines e) (\<lambda>wanted.
     Inr (finish_report ''legacy''
       (base_files e @ [''image-'' @ DEVICE @ ''-'' @ (case ebuild e of None \<Rightarrow> ''None'' | Some b \<Rightarrow> b) @ ''.zip'']) None
       lines wanted (first_difference lines wanted 0)))"

definition optimized_difference :: "string list \<Rightarrow> expectation \<Rightarrow> string option \<times> nat option" where
  "optimized_difference lines e =
    (let head = optimized_head e; start = length head; fixed = optimized_os_lines 0; n = length fixed in
     case first_difference (take start lines) head 0 of
       Some d \<Rightarrow> (Some d, None)
     | None \<Rightarrow>
        (case first_difference (take n (drop start lines)) fixed start of
           Some d \<Rightarrow> (Some d, None)
         | None \<Rightarrow>
            if length lines < start + n + 2
            then (Some (''line '' @ str_nat (length lines + 1) @ '': the script ends before any super split''), None)
            else (case super_splits lines (start + n) of
                Some k \<Rightarrow> (None, Some k)
              | None \<Rightarrow>
                 (case first_difference (drop start lines) (optimized_os_lines (max 1 ((length lines - start - n) div 2))) start of
                    Some d \<Rightarrow> (Some d, None)
                  | None \<Rightarrow> (Some ''the super splits are not one numbered run'', None)))))"

definition read_optimized :: "string list \<Rightarrow> expectation \<Rightarrow> report" where
  "read_optimized lines e = (case optimized_difference lines e of (difference, splits) \<Rightarrow>
     finish_report ''optimized''
       (base_files e @ [''android-info.zip''] @ map (\<lambda>n. n @ ''.img'') DEFAULT_OS_IMAGES
        @ map (\<lambda>i. ''super_'' @ str_nat i @ ''.img'') [1..<(case splits of None \<Rightarrow> 0 | Some k \<Rightarrow> k) + 1])
       splits lines
       (optimized_head e @ optimized_os_lines 0 @ filter (matches SUPER_LINE) lines) difference)"

definition read :: "string \<Rightarrow> expectation \<Rightarrow> string option \<Rightarrow> report res" where
  "read data e form = bnd (split_script data) (\<lambda>lines. bnd (detect_form lines form) (\<lambda>f.
     if f = ''legacy'' then read_legacy lines e else Inr (read_optimized lines e)))"

text \<open>\<^verbatim>\<open>main\<close> past its argument parser, on the bytes of the two files.\<close>

definition main_flash :: "string res \<Rightarrow> string res \<Rightarrow> string option \<Rightarrow> string option \<Rightarrow> (string \<times> nat) res" where
  "main_flash info_file script_file build form =
     (case bnd info_file (\<lambda>info_data. bnd (parse_android_info info_data) (\<lambda>info.
        bnd script_file (\<lambda>data. read data (Expectation (bootloader info) (baseband info) build) form))) of
        Inl (Refusal t) \<Rightarrow> Inr (''REFUSE'', 1)
      | Inl (OSError t) \<Rightarrow> Inr (''REFUSE'', 1)
      | Inl e \<Rightarrow> Inl e
      | Inr r \<Rightarrow> Inr (verdict r, if verdict r = ''PASS'' then 0 else 1))"

section \<open>What the scan finds\<close>

lemma option_reason_set_active: "option_reason (''set-active'', v) \<noteq> []"
  by (simp add: option_reason_def)

text \<open>No invocation is harmless outside the official lines: there is always a reason.\<close>

lemma classify_nonempty: "classify args \<noteq> []"
proof (cases "iwords (parse_invocation args) = []")
  case True
  have "concat (map option_reason os) \<noteq> []" if "''set-active'' \<in> fst ` set os" for os
    using that option_reason_set_active by fastforce
  with True show ?thesis by (auto simp: classify_def Let_def)
next
  case False
  then show ?thesis by (simp add: classify_def Let_def)
qed

lemma emit_Inl: "emit tok q r = Inl e \<longleftrightarrow> r = Inl e"
  by (cases r) (auto simp: emit_def)

lemma shlex_error: "shlex st tok q cs = Inl e \<Longrightarrow> \<exists>t. e = ValueError t"
  by (induction st tok q cs rule: shlex.induct) (auto simp: emit_Inl split: if_split_asm option.split_asm)

lemma simple_commands_error: "simple_commands line = Inl e \<Longrightarrow> \<exists>t. e = ValueError t"
  using shlex_error by (fastforce simp: simple_commands_def bnd_eq_Inl)

definition harmless :: "string list \<Rightarrow> bool" where
  "harmless command = (case snd (strip_words command) of
     [] \<Rightarrow> True
   | w # ws \<Rightarrow> \<not> starts_with ''$'' (program_of w) \<and> program_of w \<notin> set INDIRECT \<and>
       \<not> contains ''fastboot'' (join '' '' (w # ws)))"

lemma program_of_contains: "program_of w = p \<Longrightarrow> contains p (join '' '' (w # ws))"
proof -
  assume p: "program_of w = p"
  obtain us where "split_char CHR ''/'' w = us @ [p]"
    using p append_butlast_last_id [of "split_char CHR ''/'' w"] by (metis program_of_def split_char_ne)
  then have "w = join ''/'' (us @ [p])" by (metis join_split_char)
  moreover have "\<exists>a. join ''/'' (us @ [p]) = a @ p"
  proof (induction us)
    case (Cons u us)
    then obtain a where "join ''/'' (us @ [p]) = a @ p" by blast
    then show ?case by (intro exI [of _ "u @ ''/'' @ a"]) (simp add: join_Cons)
  qed simp
  ultimately obtain a where w: "w = a @ p" by blast
  have "\<exists>b. join '' '' (w # ws) = w @ b" by (cases ws) auto
  with w show ?thesis unfolding contains_iff by (metis append.assoc)
qed

lemma command_findings_Nil:
  "command_findings command = [] \<longleftrightarrow> fst (strip_words command) = [] \<and> harmless command"
proof -
  obtain fs wds where st: "strip_words command = (fs, wds)" by fastforce
  show ?thesis
  proof (cases wds)
    case Nil
    with st show ?thesis by (simp add: command_findings_def harmless_def)
  next
    case (Cons w ws)
    with st program_of_contains [of w "''fastboot''" ws] show ?thesis
      by (auto simp: command_findings_def harmless_def classify_nonempty Let_def)
  qed
qed

lemma line_findings_Nil:
  "line_findings line = [] \<longleftrightarrow> CHR 0x60 \<notin> set line \<and>
     (\<exists>cs. simple_commands line = Inr cs \<and> list_all (\<lambda>c. fst (strip_words c) = [] \<and> harmless c) cs)"
proof (cases "simple_commands line")
  case (Inl e)
  with simple_commands_error [OF Inl] show ?thesis by (auto simp: line_findings_def)
next
  case (Inr cs)
  then show ?thesis by (auto simp: line_findings_def list_all_iff command_findings_Nil)
qed

lemma scan_Nil:
  "scan lines official = [] \<longleftrightarrow> list_all (\<lambda>l. skipped_line official l \<or> line_findings l = []) lines"
proof -
  let ?z = "zip [1..<length lines + 1] lines"
  have "scan lines official = [] \<longleftrightarrow> (\<forall>p \<in> set ?z. skipped_line official (snd p) \<or> line_findings (snd p) = [])"
    unfolding scan_def concat_eq_Nil_conv set_map ball_simps by (rule ball_cong) (auto split: if_split_asm)
  also have "\<dots> \<longleftrightarrow> list_all (\<lambda>l. skipped_line official l \<or> line_findings l = []) (map snd ?z)"
    by (simp add: list_all_iff)
  also have "map snd ?z = lines" by (rule map_snd_zip) (simp del: upt_Suc)
  finally show ?thesis .
qed

section \<open>Equality with the official text\<close>

lemma first_difference_None: "first_difference found wanted off = None \<longleftrightarrow> found = wanted"
proof
  assume a: "first_difference found wanted off = None"
  then have f: "find (\<lambda>i. found ! i \<noteq> wanted ! i) [0..<min (length found) (length wanted)] = None"
    and l: "length found = length wanted"
    by (auto simp: first_difference_def Let_def split: option.split_asm if_split_asm)
  from f l have "\<forall>i < length found. found ! i = wanted ! i" by (auto simp: find_None_iff)
  with l show "found = wanted" by (simp add: list_eq_iff_nth_eq)
next
  assume "found = wanted"
  moreover have "find (\<lambda>i. wanted ! i \<noteq> wanted ! i) [0..<length wanted] = None" by (simp add: find_None_iff)
  ultimately show "first_difference found wanted off = None" by (simp add: first_difference_def)
qed

lemma scan_official: "set lines \<subseteq> set official \<Longrightarrow> scan lines official = []"
  by (auto simp: scan_Nil list_all_iff skipped_line_def)

lemma finish_report_pass:
  "verdict (finish_report f fs k lines official d) = ''PASS'' \<longleftrightarrow> scan lines official = [] \<and> d = None"
  by (auto simp: finish_report_def Let_def split: option.splits)

lemma split_script_text:
  assumes "split_script data = Inr lines"
  shows "data = join [nl] lines @ [nl]"
proof -
  from assms have e: "ends_with [nl] data" and l: "lines = split_char nl (butlast data)"
    by (auto simp: split_script_def decode_ascii_def split: if_split_asm)
  from e have "data = butlast data @ [nl]" by (auto simp: ends_with_iff)
  with l show ?thesis by simp
qed

lemma read_legacy_pass:
  "read_legacy lines e = Inr r \<Longrightarrow>
   verdict r = ''PASS'' \<longleftrightarrow> legacy_lines e = Inr lines"
  by (auto simp: read_legacy_def bnd_eq_Inr finish_report_pass first_difference_None scan_official)

lemma optimized_os_lines_eq:
  "optimized_os_lines k = optimized_os_lines 0 @ concat (map (super_lines k) [1..<k + 1])"
  by (simp add: optimized_os_lines_def)

lemma concat_pairs_nth:
  assumes "i < n"
  shows "concat (map (\<lambda>j. [f j, g j]) [0..<n]) ! (2 * i) = f i"
    and "concat (map (\<lambda>j. [f j, g j]) [0..<n]) ! (2 * i + 1) = g i"
  using assms
proof (induction n)
  case (Suc n)
  have len: "length (concat (map (\<lambda>j. [f j, g j]) [0..<n])) = 2 * n"
    by (induction n) auto
  { case 1 with Suc len show ?case by (auto simp: nth_append less_Suc_eq) }
  { case 2 with Suc len show ?case by (auto simp: nth_append less_Suc_eq) }
qed auto

lemma length_concat_pairs: "length (concat (map (\<lambda>j. [f j, g j]) [0..<n])) = 2 * n"
  by (induction n) auto

lemma shift_pairs:
  "(\<forall>i \<in> set [1..<k + 1]. ls ! (s + 2 * i - 2) = F i \<and> ls ! (s + 2 * i - 1) = G i) \<longleftrightarrow>
   (\<forall>j < k. ls ! (s + 2 * j) = F (Suc j) \<and> ls ! (s + 2 * j + 1) = G (Suc j))"
  (is "?l \<longleftrightarrow> ?r")
proof
  assume l: ?l
  show ?r
  proof (intro allI impI)
    fix j assume "j < k"
    then have "Suc j \<in> set [1..<k + 1]" by (simp del: upt_Suc)
    from bspec [OF l this] show "ls ! (s + 2 * j) = F (Suc j) \<and> ls ! (s + 2 * j + 1) = G (Suc j)" by simp
  qed
next
  assume r: ?r
  have "\<exists>j < k. i = Suc j" if "i \<in> set [1..<k + 1]" for i
    using that by (intro exI [of _ "i - 1"]) (auto simp del: upt_Suc)
  with r show ?l by fastforce
qed

lemma drop_pairs:
  assumes "s \<le> length ls"
  shows "length ls = s + 2 * k \<and> (\<forall>j < k. ls ! (s + 2 * j) = f j \<and> ls ! (s + 2 * j + 1) = g j) \<longleftrightarrow>
    drop s ls = concat (map (\<lambda>j. [f j, g j]) [0..<k])" (is "?n \<and> ?r \<longleftrightarrow> drop s ls = ?c")
proof
  assume nr: "?n \<and> ?r"
  show "drop s ls = ?c"
  proof (rule nth_equalityI)
    show "length (drop s ls) = length ?c" using nr length_concat_pairs [of f g k] by simp
    fix i assume "i < length (drop s ls)"
    then have h: "i div 2 < k" using nr by auto
    consider "i = 2 * (i div 2)" | "i = 2 * (i div 2) + 1" by linarith
    then show "drop s ls ! i = ?c ! i"
    proof cases
      case 1
      with nr h concat_pairs_nth(1) [OF h, of f g] assms show ?thesis by (metis nth_drop)
    next
      case 2
      with nr h concat_pairs_nth(2) [OF h, of f g] assms show ?thesis by (metis add.assoc nth_drop)
    qed
  qed
next
  assume d: "drop s ls = ?c"
  show "?n \<and> ?r"
  proof
    show ?n using arg_cong [OF d, of length] length_concat_pairs [of f g k] assms by simp
    show ?r using concat_pairs_nth [of _ k f g] assms unfolding d [symmetric] by (simp add: add.assoc)
  qed
qed

lemma super_block:
  "concat (map (super_lines k) [1..<k + 1]) =
   concat (map (\<lambda>j. [''echo Flashing super, '' @ str_nat (Suc j) @ ''/'' @ str_nat k,
     ''fastboot flash super super_'' @ str_nat (Suc j) @ ''.img'']) [0..<k])"
proof -
  have "[1..<k + 1] = map Suc [0..<k]" by (simp only: map_Suc_upt One_nat_def add_Suc_right add_0_right)
  then show ?thesis by (simp only: map_map comp_def super_lines_def)
qed

lemma super_splits_iff:
  assumes "start \<le> length lines"
  shows "super_splits lines start = Some k \<longleftrightarrow> 1 \<le> k \<and> drop start lines = concat (map (super_lines k) [1..<k + 1])"
proof -
  have "super_splits lines start = Some k \<longleftrightarrow> 1 \<le> k \<and> length lines = start + 2 * k \<and>
      (\<forall>i \<in> set [1..<k + 1]. lines ! (start + 2 * i - 2) = ''echo Flashing super, '' @ str_nat i @ ''/'' @ str_nat k \<and>
         lines ! (start + 2 * i - 1) = ''fastboot flash super super_'' @ str_nat i @ ''.img'')"
    using assms by (auto simp: super_splits_def Let_def)
  then show ?thesis
    unfolding shift_pairs drop_pairs [OF assms] super_block .
qed

lemma take_drop_parts:
  "take (length a) ls = a \<and> take (length b) (drop (length a) ls) = b \<longleftrightarrow> (\<exists>c. ls = a @ b @ c)"
proof
  assume l: "take (length a) ls = a \<and> take (length b) (drop (length a) ls) = b"
  then have "ls = a @ b @ drop (length b) (drop (length a) ls)" by (metis append_take_drop_id)
  then show "\<exists>c. ls = a @ b @ c" by blast
qed auto

lemma optimized_difference_iff:
  "optimized_difference lines e = (None, Some k) \<longleftrightarrow> 1 \<le> k \<and> lines = optimized_head e @ optimized_os_lines k"
proof -
  let ?h = "optimized_head e" and ?f = "optimized_os_lines 0"
  let ?b = "concat (map (super_lines k) [1..<k + 1])"
  have lb: "length ?b = 2 * k" unfolding super_block by (rule length_concat_pairs)
  have "optimized_difference lines e = (None, Some k) \<longleftrightarrow>
      take (length ?h) lines = ?h \<and> take (length ?f) (drop (length ?h) lines) = ?f \<and>
      length ?h + length ?f + 2 \<le> length lines \<and> super_splits lines (length ?h + length ?f) = Some k"
    unfolding optimized_difference_def Let_def first_difference_None [symmetric, of _ ?h 0]
      first_difference_None [symmetric, of _ ?f "length ?h"]
    by (auto split: option.splits)
  also have "\<dots> \<longleftrightarrow> (\<exists>c. lines = ?h @ ?f @ c \<and> 2 \<le> length c \<and> 1 \<le> k \<and> c = ?b)"
    unfolding conj_assoc [symmetric] take_drop_parts by (auto simp: super_splits_iff)
  also have "\<dots> \<longleftrightarrow> 1 \<le> k \<and> lines = ?h @ optimized_os_lines k"
    unfolding optimized_os_lines_eq [of k] using lb by auto
  finally show ?thesis .
qed

lemma optimized_difference_None: "fst (optimized_difference lines e) = None \<longleftrightarrow> (\<exists>k. optimized_difference lines e = (None, Some k))"
  by (auto simp: optimized_difference_def Let_def split: option.splits)

definition is_number :: "string \<Rightarrow> bool" where
  "is_number w \<longleftrightarrow> w \<noteq> [] \<and> in_range 49 57 (hd w) \<and> length w \<le> 3 \<and> list_all is_digit (tl w)"

lemma runs_number_rx [simp]: "runs number_rx w cs \<longleftrightarrow> is_number w \<and> cs = []"
  by (cases w) (auto simp: number_rx_def is_number_def)

lemmas runs_Seq_number [simp] = runs_Seq_leaf [OF runs_number_rx]

lemma plain_SUPER_LINE [simp]: "plain SUPER_LINE"
  by (simp add: SUPER_LINE_def number_rx_def)

lemma is_number_str_nat:
  assumes "1 \<le> n" and "n \<le> 999"
  shows "is_number (str_nat n)"
proof -
  have len: "length (str_nat n) \<le> 3"
    using assms(2) by (simp add: str_nat.simps [of n] str_nat.simps [of "n div 10"] str_nat.simps [of "n div 10 div 10"])
  obtain c ds where s: "str_nat n = c # ds" by (cases "str_nat n") auto
  then have d: "is_digit c" "list_all is_digit ds" using digits_str_nat [of n] by auto
  have "c \<noteq> CHR ''0''"
  proof
    assume c: "c = CHR ''0''"
    with canonical_str_nat [of n] s have "str_nat n = ''0''" by (auto simp: canonical_nat_def)
    then have "n = nat_of ''0''" by (metis nat_of_str_nat)
    with assms(1) show False by (simp add: nat_of_def digit_val_def)
  qed
  with d(1) have "ord_c c \<noteq> 48" using digit_val_0 [of c] by (auto simp: digit_val_def)
  with d s len show ?thesis by (auto simp: is_number_def is_digit_def in_range_def)
qed

lemma super_line_official:
  assumes "1 \<le> i" "i \<le> k" "k \<le> 999" "l \<in> set (super_lines k i)"
  shows "matches SUPER_LINE l"
proof -
  have n: "is_number (str_nat i)" "is_number (str_nat k)" using assms(1-3) is_number_str_nat by simp_all
  from assms(4) consider "l = ''echo Flashing super, '' @ str_nat i @ ''/'' @ str_nat k"
    | "l = ''fastboot flash super super_'' @ str_nat i @ ''.img''" by (auto simp: super_lines_def)
  then have "\<exists>cs. runs SUPER_LINE l cs"
  proof cases
    case 1
    have "runs (seqs [lit ''echo Flashing super, '', number_rx, lit ''/'', number_rx]) l []"
      unfolding 1 seqs.simps using n by (simp del: append.simps) blast
    then show ?thesis unfolding SUPER_LINE_def by (blast intro: runs_Alt1)
  next
    case 2
    have "runs (seqs [lit ''fastboot flash super super_'', number_rx, lit ''.img'']) l []"
      unfolding 2 seqs.simps using n by (simp del: append.simps)
    then show ?thesis unfolding SUPER_LINE_def by (blast intro: runs_Alt2)
  qed
  then show ?thesis by (simp add: fullmatch_lang lang_def)
qed

text \<open>The pattern of the official split lines stops at three digits.\<close>

definition split_1000 :: string where
  "split_1000 = ''fastboot flash super super_1000.img''"

lemma split_1000_found: "\<not> matches SUPER_LINE split_1000" "line_findings split_1000 \<noteq> []"
  "strip split_1000 \<noteq> []" "\<not> starts_with ''#'' (lstrip split_1000)" "split_1000 \<notin> set (optimized_os_lines 0)"
  by code_simp+

lemma split_1000_mem: "1000 \<le> k \<Longrightarrow> split_1000 \<in> set (optimized_os_lines k)"
proof -
  assume k: "1000 \<le> k"
  have "split_1000 \<in> set (super_lines k 1000)"
  proof -
    have "str_nat 1000 = ''1000''" by code_simp
    then show ?thesis by (simp add: super_lines_def split_1000_def)
  qed
  moreover have "1000 \<in> set [1..<k + 1]" using k by (simp del: upt_Suc)
  ultimately show ?thesis unfolding optimized_os_lines_eq [of k] by (auto simp del: upt_Suc)
qed

lemma split_1000_not_head: "split_1000 \<notin> set (optimized_head e)"
proof -
  have p: "split_1000 \<notin> set PROLOG_LINES" by code_simp
  have "split_1000 \<notin> set (bootloader_lines e)" "split_1000 \<notin> set (middle_lines e)"
    by (simp_all add: split_1000_def bootloader_lines_def middle_lines_def Let_def)
  moreover have "split_1000 \<notin> set (check_var ''product'' v m)" "split_1000 \<notin> set (check_var ''slot-count'' v m)"
    "split_1000 \<notin> set (check_var ''max-download-size'' v m)" "split_1000 \<notin> set (check_var ''current-slot'' v m)" for v m
    by (simp_all add: split_1000_def check_var_def Let_def)
  ultimately show ?thesis
    unfolding optimized_head_def set_append Un_iff using p by (simp add: split_1000_def)
qed

lemma read_optimized_pass:
  "verdict (read_optimized lines e) = ''PASS'' \<longleftrightarrow>
     (\<exists>k. 1 \<le> k \<and> k \<le> 999 \<and> lines = optimized_head e @ optimized_os_lines k)"
proof -
  let ?off = "optimized_head e @ optimized_os_lines 0 @ filter (matches SUPER_LINE) lines"
  have v: "verdict (read_optimized lines e) = ''PASS'' \<longleftrightarrow>
      scan lines ?off = [] \<and> (\<exists>k. 1 \<le> k \<and> lines = optimized_head e @ optimized_os_lines k)"
  proof -
    have "verdict (read_optimized lines e) = ''PASS'' \<longleftrightarrow> scan lines ?off = [] \<and> fst (optimized_difference lines e) = None"
      by (simp add: read_optimized_def finish_report_pass split: prod.split)
    then show ?thesis unfolding optimized_difference_None optimized_difference_iff .
  qed
  have "scan lines ?off = [] \<longleftrightarrow> k \<le> 999" if k: "1 \<le> k" and l: "lines = optimized_head e @ optimized_os_lines k" for k
  proof
    assume sc: "scan lines ?off = []"
    show "k \<le> 999"
    proof (rule ccontr)
      assume "\<not> k \<le> 999"
      then have "split_1000 \<in> set lines" using split_1000_mem [of k] l by simp
      with sc have "skipped_line ?off split_1000 \<or> line_findings split_1000 = []"
        by (auto simp: scan_Nil list_all_iff)
      with split_1000_found split_1000_not_head [of e] show False by (simp add: skipped_line_def)
    qed
  next
    assume le: "k \<le> 999"
    have "matches SUPER_LINE x" if "x \<in> set (super_lines k i)" "i \<in> set [1..<k + 1]" for x i
      using super_line_official [of i k x] that le by (simp del: upt_Suc)
    then have "set lines \<subseteq> set ?off"
      unfolding l optimized_os_lines_eq [of k] by (auto simp del: upt_Suc)
    then show "scan lines ?off = []" by (rule scan_official)
  qed
  with v show ?thesis by blast
qed

definition official_script :: "expectation \<Rightarrow> string list \<Rightarrow> bool" where
  "official_script e lines \<longleftrightarrow> legacy_lines e = Inr lines \<or>
     (\<exists>k. 1 \<le> k \<and> k \<le> 999 \<and> lines = optimized_head e @ optimized_os_lines k)"

lemma read_pass:
  assumes "read data e form = Inr r"
  shows "\<exists>lines. split_script data = Inr lines \<and> data = join [nl] lines @ [nl] \<and>
    detect_form lines form = Inr (rform r) \<and>
    (verdict r = ''PASS'' \<longleftrightarrow>
      (if rform r = ''legacy'' then legacy_lines e = Inr lines
       else \<exists>k. 1 \<le> k \<and> k \<le> 999 \<and> lines = optimized_head e @ optimized_os_lines k))"
proof -
  from assms obtain lines f where l: "split_script data = Inr lines" and f: "detect_form lines form = Inr f"
    and r: "(if f = ''legacy'' then read_legacy lines e else Inr (read_optimized lines e)) = Inr r"
    by (auto simp: read_def bnd_eq_Inr)
  have ff: "f = ''legacy'' \<or> f = ''optimized''"
    using f by (auto simp: detect_form_def FORMS_def split: option.split_asm if_split_asm)
  have "rform r = f"
    using ff r by (auto simp: read_legacy_def read_optimized_def bnd_eq_Inr finish_report_def Let_def split: prod.splits)
  with l f r split_script_text [OF l] show ?thesis
    by (intro exI [of _ lines]) (auto simp: read_legacy_pass read_optimized_pass split: if_split_asm)
qed

section \<open>The properties\<close>

definition script_c :: "char \<Rightarrow> bool" where
  "script_c c \<longleftrightarrow> is_ascii c \<and> c \<noteq> nl \<and> c \<noteq> CHR 0x0D \<and> c \<noteq> CHR 0x00 \<and> c \<noteq> CHR 0x09"

lemma set_join: "set (join sep ls) \<subseteq> set sep \<union> \<Union> (set ` set ls)"
  by (induction sep ls rule: join.induct) auto

lemma split_script_join:
  assumes "ls \<noteq> []" and "list_all (list_all script_c) ls" and "length (join [nl] ls) < MAX_SCRIPT"
  shows "split_script (join [nl] ls @ [nl]) = Inr ls"
proof -
  have c: "script_c c \<or> c = nl" if "c \<in> set (join [nl] ls @ [nl])" for c
    using that set_join [of "[nl]" ls] assms(2) by (fastforce simp: list_all_iff)
  have "split_char nl (join [nl] ls) = ls"
    using assms(2) by (intro split_char_join [OF assms(1)]) (auto simp: list_all_iff script_c_def)
  moreover have "list_all is_ascii (join [nl] ls @ [nl])"
  proof -
    have "is_ascii nl" by (simp add: is_ascii_def)
    with c show ?thesis unfolding list_all_iff script_c_def by blast
  qed
  moreover have "\<not> bad_control (join [nl] ls @ [nl])"
    using c [of "CHR 0x0D"] c [of "CHR 0x00"] c [of "CHR 0x09"] by (auto simp: bad_control_def script_c_def)
  ultimately show ?thesis using assms(3) by (simp add: split_script_def decode_ascii_def ends_with_iff)
qed

lemma length_join_nl: "length (join [nl] ls) \<le> sum_list (map (\<lambda>l. Suc (length l)) ls)"
  by (induction "[nl]" ls rule: join.induct) auto

definition sample_expect :: expectation where
  "sample_expect = Expectation ''ripcurrentpro-16.0-1'' ''g5400c-1'' (Some ''2026010200'')"

definition sample_script :: "string list" where
  "sample_script = optimized_head sample_expect @ optimized_os_lines 2"

lemma sample_script_facts:
  "sample_script \<noteq> []" "list_all (list_all script_c) sample_script" "length (join [nl] sample_script) < MAX_SCRIPT"
  "detect_form sample_script None = Inr ''optimized''"
proof -
  have "sum_list (map (\<lambda>l. Suc (length l)) sample_script) \<le> 10000" by code_simp
  with length_join_nl [of sample_script] show "length (join [nl] sample_script) < MAX_SCRIPT" by (simp add: MAX_SCRIPT_def)
qed code_simp+

lemmas split_sample_script = split_script_join [OF sample_script_facts(1-3)]

lemma read_sample_script:
  "read (join [nl] sample_script @ [nl]) sample_expect None = Inr (read_optimized sample_script sample_expect)"
  by (simp add: read_def split_sample_script sample_script_facts(4))

text \<open>
  C6: a script passes exactly when its bytes are the official script: in the legacy form the text fixed by
  the firmware versions and the build, in the optimized form the fixed head, the OS images, the wipe
  erases and one numbered run of between one and 999 super splits, and nothing else.
\<close>

theorem read_pass_exact:
  assumes "read data e form = Inr r"
  shows "\<exists>lines. split_script data = Inr lines \<and> data = join [nl] lines @ [nl] \<and>
    detect_form lines form = Inr (rform r) \<and>
    (verdict r = ''PASS'' \<longleftrightarrow>
      (if rform r = ''legacy'' then legacy_lines e = Inr lines
       else \<exists>k. 1 \<le> k \<and> k \<le> 999 \<and> lines = optimized_head e @ optimized_os_lines k))"
  by (rule read_pass) (rule assms)

theorem read_pass_exact_witness:
  "\<exists>r. read (join [nl] sample_script @ [nl]) sample_expect None = Inr r \<and> verdict r = ''PASS''"
proof -
  obtain r where r: "read (join [nl] sample_script @ [nl]) sample_expect None = Inr r" "rform r = ''optimized''"
    using read_sample_script by (simp add: read_optimized_def finish_report_def Let_def split: prod.split)
  have "\<exists>k. 1 \<le> k \<and> k \<le> 999 \<and> sample_script = optimized_head sample_expect @ optimized_os_lines k"
    by (rule exI [of _ 2]) (simp add: sample_script_def)
  with read_pass_exact [OF r(1)] r split_sample_script have "verdict r = ''PASS''" by auto
  with r(1) show ?thesis by blast
qed


text \<open>
  C30: PASS with exit status 0 is printed only when the android-info.txt parses and the script's bytes are
  an official script for its firmware versions and the given build.
\<close>

theorem main_flash_pass:
  assumes "main_flash info_file script_file build form = Inr (''PASS'', st)"
  shows "st = 0 \<and> (\<exists>idata info data lines. info_file = Inr idata \<and> parse_android_info idata = Inr info \<and>
    script_file = Inr data \<and> data = join [nl] lines @ [nl] \<and>
    official_script (Expectation (bootloader info) (baseband info) build) lines)"
proof (cases "bnd info_file (\<lambda>info_data. bnd (parse_android_info info_data) (\<lambda>info.
        bnd script_file (\<lambda>data. read data (Expectation (bootloader info) (baseband info) build) form)))")
  case (Inl e)
  with assms show ?thesis by (cases e) (auto simp: main_flash_def)
next
  case (Inr r)
  with assms have st: "st = 0" "verdict r = ''PASS''" by (auto simp: main_flash_def split: if_split_asm)
  from Inr obtain idata info data where i: "info_file = Inr idata" "parse_android_info idata = Inr info"
    "script_file = Inr data" and rd: "read data (Expectation (bootloader info) (baseband info) build) form = Inr r"
    by (auto simp: bnd_eq_Inr)
  from read_pass [OF rd] st(2) obtain lines where "data = join [nl] lines @ [nl]"
    "official_script (Expectation (bootloader info) (baseband info) build) lines"
    by (auto simp: official_script_def split: if_split_asm)
  with i st(1) show ?thesis by blast
qed

theorem main_flash_pass_witness:
  "main_flash (Inr (info_text sample_info)) (Inr (join [nl] sample_script @ [nl])) (Some ''2026010200'') None = Inr (''PASS'', 0) \<and>
   (\<exists>lines. official_script sample_expect lines)"
proof -
  have e: "Expectation (bootloader sample_info) (baseband sample_info) (Some ''2026010200'') = sample_expect"
    by (simp add: sample_expect_def sample_info_def)
  have "verdict (read_optimized sample_script sample_expect) = ''PASS''"
    unfolding read_optimized_pass by (rule exI [of _ 2]) (simp add: sample_script_def)
  then have m: "main_flash (Inr (info_text sample_info)) (Inr (join [nl] sample_script @ [nl])) (Some ''2026010200'') None
      = Inr (''PASS'', 0)"
    by (simp add: main_flash_def parse_info_text [OF wf_sample_info] e read_sample_script)
  from main_flash_pass [OF m] m show ?thesis by (auto simp: parse_info_text [OF wf_sample_info] e)
qed

end
