(* ===== verification/Install_Zip.thy ===== *)
theory Install_Zip
  imports Vbmeta Adevtool_Record Flash_Script
begin

text \<open>
  The checks of \<^verbatim>\<open>scripts/pixel/install_zip.py\<close> that need no phone. The zip is the bytes of its private copy;
  how \<^verbatim>\<open>zipfile\<close> lists them is the parameter \<open>unzip\<close>, and ssh-keygen, avbtool, simg2img and lpunpack are
  parameters that give the exit status and the output of each run. Only Python's own exceptions and the
  answers of these tools decide an outcome; every check of the source is a definition below.
\<close>

section \<open>Constants\<close>

definition SIGNER :: string where
  "SIGNER = ''contact@grapheneos.org''"

definition NAMESPACE :: string where
  "NAMESPACE = ''factory images''"

definition KEY_FINGERPRINT :: string where
  "KEY_FINGERPRINT = ''SHA256:AhgHif0mei+9aNyKLfMZBh2yptHdw/aN7Tlh/j2eFwM''"

definition PKMD_SHA256 :: string where
  "PKMD_SHA256 = ''f729cab861da1b83fdfab402fc9480758f2ae78ee0b61c1f2137dd1ab7076e86''"

definition AVBTOOL_SHA256 :: string where
  "AVBTOOL_SHA256 = ''1aa6f2b462aa67aa3fdf488bee83ab517de8ad9d8228c7b45c35267ab2cf6781''"

definition SHA256_RSA4096 :: nat where
  "SHA256_RSA4096 = 2"

definition SMALL :: nat where
  "SMALL = 1048576"

definition IMAGE :: nat where
  "IMAGE = 536870912"

text \<open>The digests that are recorded once the tools are reviewed and the workshop key exists; none is yet.\<close>

record pins =
  simg2img_pin :: "string option"
  lpunpack_pin :: "string option"
  workshop_pin :: "string option"

definition current_pins :: pins where
  "current_pins = \<lparr>simg2img_pin = None, lpunpack_pin = None, workshop_pin = None\<rparr>"

definition good_line :: string where
  "good_line = ''Good \"'' @ NAMESPACE @ ''\" signature for '' @ SIGNER @ '' with ED25519 key '' @ KEY_FINGERPRINT"

section \<open>Signers\<close>

text \<open>The upstream base records: by tag, and as the list of the values of all files in order of their names.\<close>

record upstream =
  by_tag :: bases
  base_values :: "json res list"

definition signers_pin :: "json res \<Rightarrow> string res" where
  "signers_pin value = bnd value (\<lambda>v. case v of
     JDict d \<Rightarrow>
       bnd (sub_get (jget d ''manifest'') ''allowed_signers_sha256'') (\<lambda>digest.
         if \<not> is_str digest \<or> \<not> matches SHA256 (str_of digest) then refuse ''pins no allowed signers digest''
         else Inr (str_of digest))
   | _ \<Rightarrow> Inl AttributeError)"

definition pinned_signers_digest :: "upstream \<Rightarrow> string res" where
  "pinned_signers_digest up = bnd (map_res signers_pin (base_values up)) (\<lambda>ds.
     single (remdups ds) ''the upstream base records pin different allowed signers digests'')"

definition read_small :: "string res \<Rightarrow> string res" where
  "read_small file = (case file of
     Inl e \<Rightarrow> refuse ''cannot be read''
   | Inr data \<Rightarrow> if length data > SMALL then refuse ''is larger than the limit'' else Inr data)"

type_synonym keygen = "string \<Rightarrow> string \<Rightarrow> string \<Rightarrow> (int \<times> string) res"

record signature_report =
  signers_sha :: string
  signature_sha :: string

definition check_signature :: "keygen \<Rightarrow> (string \<Rightarrow> string) \<Rightarrow> string \<Rightarrow> string \<Rightarrow> string \<Rightarrow> signature_report res" where
  "check_signature keygen sha copy signature signers =
     bnd (keygen signers signature copy) (\<lambda>(code, out).
       if code \<noteq> 0 \<or> out \<noteq> good_line @ [nl] then refuse ''ssh-keygen did not print the expected line''
       else Inr \<lparr>signers_sha = sha signers, signature_sha = sha signature\<rparr>)"

definition check_signers :: "(string \<Rightarrow> string) \<Rightarrow> upstream \<Rightarrow> string \<Rightarrow> string res" where
  "check_signers sha up signers = bnd (pinned_signers_digest up) (\<lambda>pinned.
     if sha signers \<noteq> pinned then refuse ''allowed_signers does not hash to the pinned digest'' else Inr (sha signers))"

section \<open>The archive\<close>

record entry =
  filename :: string
  external_attr :: nat
  flag_bits :: nat
  file_size :: nat
  content :: "string res"

type_synonym unzip = "string \<Rightarrow> entry list option"

record archive =
  aprefix :: string
  members :: "(string, entry) dict"

definition is_dir :: "entry \<Rightarrow> bool" where
  "is_dir e \<longleftrightarrow> ends_with ''/'' (filename e)"

text \<open>\<^verbatim>\<open>PurePosixPath(name).parts\<close>.\<close>

definition path_parts :: "string \<Rightarrow> string list" where
  "path_parts name =
     (if starts_with ''/'' name then [''/''] else []) @ filter (\<lambda>p. p \<noteq> [] \<and> p \<noteq> ''.'') (split_char CHR ''/'' name)"

definition add_member :: "string \<Rightarrow> (string, entry) dict \<Rightarrow> entry \<Rightarrow> (string, entry) dict res" where
  "add_member prefix ms e =
     (if filename e = prefix \<and> is_dir e then Inr ms
      else let parts = path_parts (filename e) in
        if \<not> starts_with prefix (filename e) \<or> CHR 0x5C \<in> set (filename e) \<or> length parts \<noteq> 2
          \<or> list_ex (\<lambda>p. p \<in> {[], ''.'', ''..''}) parts \<or> is_dir e
        then refuse ''is not a file directly under the directory''
        else if (external_attr e div 65536) div 4096 mod 16 = 10 then refuse ''is a symbolic link''
        else if flag_bits e mod 2 = 1 then refuse ''is encrypted''
        else if dget ms (parts ! 1) \<noteq> None then refuse ''appears twice''
        else Inr (dput (parts ! 1) e ms))"

definition INSTALL_NAME :: "char rx" where
  "INSTALL_NAME = seqs [lit (DEVICE @ ''-install-''), plus (Sym is_version_c), lit ''.zip'']"

definition archive_release :: "string \<Rightarrow> string option \<Rightarrow> string res" where
  "archive_release name rel = (case rel of
     Some r \<Rightarrow> Inr r
   | None \<Rightarrow>
       if \<not> matches INSTALL_NAME name then refuse ''is not named caiman-install-BUILD.zip''
       else Inr (take (length name - length (DEVICE @ ''-install-'') - 4) (drop (length (DEVICE @ ''-install-'')) name)))"

definition open_archive :: "unzip \<Rightarrow> string \<Rightarrow> string option \<Rightarrow> string \<Rightarrow> archive res" where
  "open_archive unzip name rel data =
     bnd (archive_release name rel) (\<lambda>r.
       let prefix = DEVICE @ ''-install-'' @ r @ ''/'' in
       if name \<noteq> DEVICE @ ''-install-'' @ r @ ''.zip'' then refuse ''is not named after the release''
       else (case unzip data of
           None \<Rightarrow> refuse ''is not a readable zip''
         | Some es \<Rightarrow> bnd (fold_res (add_member prefix) [] es) (\<lambda>ms. Inr \<lparr>aprefix = prefix, members = ms\<rparr>)))"

definition read_member :: "archive \<Rightarrow> string \<Rightarrow> nat \<Rightarrow> string res" where
  "read_member a name limit = (case dget (members a) name of
     None \<Rightarrow> refuse ''the zip has no such member''
   | Some e \<Rightarrow>
       if file_size e > limit then refuse ''is larger than the limit''
       else bnd (content e) (\<lambda>data.
         if length (take (limit + 1) data) \<noteq> file_size e then refuse ''does not have its recorded size''
         else Inr (take (limit + 1) data)))"

definition firmware_digests :: "(string \<Rightarrow> string) \<Rightarrow> archive \<Rightarrow> android_info \<Rightarrow> (string, string) dict res" where
  "firmware_digests sha a info =
     (let e = Expectation (bootloader info) (baseband info) None in
      bnd (read_member a (bootloader_file e) IMAGE) (\<lambda>b.
      bnd (read_member a (radio_file e) IMAGE) (\<lambda>r.
        Inr (dput (radio_file e) (sha r) [(bootloader_file e, sha b)]))))"

section \<open>vbmeta and its images\<close>

text \<open>
  The outside tools: the bytes of the avbtool that was given; its \<^verbatim>\<open>verify_image\<close> run on the images in a directory
  with the path \<open>image_path\<close> of vbmeta; the key that \<^verbatim>\<open>info_image\<close> extracts; the bytes of simg2img and lpunpack
  where they were given; and the slot images that they write for the super splits, each with its name, whether it
  is a regular file, and its bytes.
\<close>

record tools =
  avbtool :: "string res"
  image_path :: string
  verify_image :: "string \<Rightarrow> (string \<times> string) list \<Rightarrow> (int \<times> string) res"
  info_image :: "string \<Rightarrow> (int \<times> string option) res"
  simg2img :: "string option"
  lpunpack :: "string option"
  unpack_super :: "string list \<Rightarrow> (string \<times> bool \<times> string) list res"

definition pinned_tool :: "(string \<Rightarrow> string) \<Rightarrow> string option \<Rightarrow> string option \<Rightarrow> unit res" where
  "pinned_tool sha tool pin = (case tool of
     None \<Rightarrow> refuse ''rebuilding the dynamic partitions needs the pinned tool''
   | Some data \<Rightarrow>
       (case pin of
          None \<Rightarrow> refuse ''is not reviewed and pinned yet''
        | Some p \<Rightarrow> if sha data \<noteq> p then refuse ''is not the pinned tool'' else Inr ()))"

definition SUPER_NAME :: "char rx" where
  "SUPER_NAME = seqs [lit ''super_'', Grp 1 (seqs [Sym (\<lambda>c. is_digit c \<and> c \<noteq> CHR ''0''), between 0 2 (Sym is_digit)]), lit ''.img'']"

definition SLOT_NAME :: "char rx" where
  "SLOT_NAME = seqs [Grp 1 (plus (Sym part_c)), lit ''_'', Grp 2 (words [''a'', ''b'']), lit ''.img'']"

definition super_numbers :: "archive \<Rightarrow> nat list" where
  "super_numbers a = sort (concat (map (\<lambda>n. case rx_fullmatch SUPER_NAME n of None \<Rightarrow> [] | Some m \<Rightarrow> [nat_of (group m 1)])
     (map fst (members a))))"

definition slot_image :: "archive \<Rightarrow> string list \<Rightarrow> (string, string) dict \<Rightarrow> string \<times> bool \<times> string \<Rightarrow> (string, string) dict res" where
  "slot_image a described rebuilt file = (case file of (name, regular, data) \<Rightarrow>
     (case rx_fullmatch SLOT_NAME name of
        None \<Rightarrow> refuse ''lpunpack wrote what is not a slot image''
      | Some m \<Rightarrow>
          if \<not> regular then refuse ''lpunpack wrote what is not a slot image''
          else if group m 2 = ''b'' then (if data \<noteq> [] then refuse ''is not empty'' else Inr rebuilt)
          else if group m 1 \<notin> set described then refuse ''the super image holds what vbmeta does not describe''
          else if dget (members a) (group m 1 @ ''.img'') \<noteq> None \<or> group m 1 = ''vbmeta''
          then refuse ''the super image holds what the zip also holds outside it''
          else Inr (dput (group m 1) data rebuilt)))"

definition rebuild_dynamic ::
  "(string \<Rightarrow> string) \<Rightarrow> pins \<Rightarrow> tools \<Rightarrow> archive \<Rightarrow> string list \<Rightarrow> (string, string) dict res" where
  "rebuild_dynamic sha pin t a described =
     bnd (pinned_tool sha (simg2img t) (simg2img_pin pin)) (\<lambda>_.
     bnd (pinned_tool sha (lpunpack t) (lpunpack_pin pin)) (\<lambda>_.
       let numbers = super_numbers a in
       if numbers = [] \<or> numbers \<noteq> [1..<length numbers + 1] then refuse ''the zip does not hold one numbered run of super splits''
       else bnd (map_res (\<lambda>n. read_member a (''super_'' @ str_nat n @ ''.img'') IMAGE) numbers) (\<lambda>splits.
         bnd (unpack_super t splits) (\<lambda>files. fold_res (slot_image a described) [] (sort_key fst files)))))"

definition VERIFIED :: "char rx" where
  "VERIFIED = seqs [plus (Sym part_c), lit '': Successfully verified '', plus (Sym not_nl)]"

definition verified_names :: "string list \<Rightarrow> string list" where
  "verified_names out = map (\<lambda>l. takeWhile (\<lambda>c. c \<noteq> CHR '':'') l) (filter (matches VERIFIED) out)"

definition member_image :: "archive \<Rightarrow> (string, string) dict \<Rightarrow> string \<Rightarrow> (string \<times> string) res" where
  "member_image a rebuilt name = (case dget rebuilt name of
     Some data \<Rightarrow> Inr (name, data)
   | None \<Rightarrow> bnd (read_member a (name @ ''.img'') IMAGE) (\<lambda>data. Inr (name, data)))"

record vbmeta_report =
  v_parsed :: vbmeta
  v_images :: "(string \<times> string) list"
  v_rebuilt :: "string list"

definition check_vbmeta_fields :: "vbmeta \<Rightarrow> string \<Rightarrow> string \<Rightarrow> unit res" where
  "check_vbmeta_fields v pkmd level =
     (if algorithm v \<noteq> SHA256_RSA4096 then refuse ''vbmeta is not signed with SHA256_RSA4096''
      else if public_key v \<noteq> pkmd then refuse ''the public key embedded in vbmeta is not avb_pkmd.bin''
      else if vflags v \<noteq> 0 \<or> rollback_index_location v \<noteq> 0 then refuse ''vbmeta flags and rollback index location are not both 0''
      else bnd (patch_timestamp (JStr level)) (\<lambda>wanted.
        if int (rollback_index v) \<noteq> wanted then refuse ''the rollback index is not the patch timestamp''
        else if property_values ''com.android.build.system.security_patch'' v \<noteq> [level]
        then refuse ''vbmeta records another system security patch''
        else Inr ()))"

definition verify_images ::
  "(string \<Rightarrow> string) \<Rightarrow> pins \<Rightarrow> tools \<Rightarrow> archive \<Rightarrow> string \<Rightarrow> string list \<Rightarrow> ((string \<times> string) list \<times> string list) res" where
  "verify_images sha pin t a pkmd images =
     (let missing = filter (\<lambda>n. dget (members a) (n @ ''.img'') = None) images in
      bnd (if missing = [] then Inr [] else rebuild_dynamic sha pin t a images) (\<lambda>rebuilt.
        if filter (\<lambda>n. dget rebuilt n = None) missing \<noteq> []
        then refuse ''vbmeta has descriptors for images neither the zip nor its super splits hold''
        else bnd (read_member a ''vbmeta.img'' SMALL) (\<lambda>image.
          bnd (map_res (member_image a rebuilt) images) (\<lambda>files.
          bnd (verify_image t image files) (\<lambda>(code, out).
            let lines = split_char nl (decode_text out) in
            if code \<noteq> 0 \<or> ''vbmeta: Successfully verified SHA256_RSA4096 vbmeta struct in '' @ image_path t \<notin> set lines
              \<or> set (verified_names lines) \<noteq> set (''vbmeta'' # images)
            then refuse ''avbtool verify_image failed''
            else bnd (info_image t image) (\<lambda>(code', key).
              if code' \<noteq> 0 \<or> key \<noteq> Some pkmd then refuse ''the key avbtool extracts from vbmeta is not avb_pkmd.bin''
              else Inr (files, sort (map fst rebuilt))))))))"

definition check_vbmeta ::
  "(string \<Rightarrow> string) \<Rightarrow> pins \<Rightarrow> tools \<Rightarrow> archive \<Rightarrow> string \<Rightarrow> string \<Rightarrow> string \<Rightarrow> vbmeta_report res" where
  "check_vbmeta sha pin t a data pkmd level =
     bnd (parse_vbmeta data) (\<lambda>v.
     bnd (check_vbmeta_fields v pkmd level) (\<lambda>_.
     bnd (images_to_verify v) (\<lambda>images.
     bnd (avbtool t) (\<lambda>tool.
       if sha tool \<noteq> AVBTOOL_SHA256 then refuse ''is not avbtool.py of the pinned tree''
       else bnd (verify_images sha pin t a pkmd images) (\<lambda>(files, rebuilt).
         Inr \<lparr>v_parsed = v, v_images = files, v_rebuilt = rebuilt\<rparr>)))))"

section \<open>The security patch level\<close>

definition recorded_patch :: "upstream \<Rightarrow> release \<Rightarrow> json res" where
  "recorded_patch up rel = (case base_record (by_tag up) (base rel) of
     Inl (Refusal t) \<Rightarrow> Inr JNull
   | Inl e \<Rightarrow> Inl e
   | Inr v \<Rightarrow> bnd (jitem v ''security_patch_level'') (entry_item ''value''))"

definition patch_level :: "upstream \<Rightarrow> release \<Rightarrow> string option \<Rightarrow> string res" where
  "patch_level up rel given =
     bnd (recorded_patch up rel) (\<lambda>recorded.
       let g = (case given of None \<Rightarrow> JNull | Some t \<Rightarrow> JStr t) in
       if recorded \<noteq> JNull \<and> g \<noteq> JNull \<and> \<not> py_eq recorded g then refuse ''the given patch level is not the recorded one''
       else let level = (if py_true recorded then recorded else g) in
         if level = JNull then refuse ''no base record gives the patch level, and none was given''
         else bnd (patch_timestamp level) (\<lambda>_. Inr (str_of level)))"

section \<open>The whole check of a kit\<close>

text \<open>
  The inputs: the zip's name and what reading it into its private copy gives, the two small files, the expected
  release, caiman-stable and the adevtool record, a given patch level, and whether the copy could be removed.
\<close>

record inputs =
  zip_name :: string
  zip_data :: "string res"
  signature_file :: "string res"
  signers_file :: "string res"
  expected :: string
  stable_file :: "string res"
  adevtool :: json
  given_patch :: "string option"
  removed :: bool

record world =
  w_sha :: "string \<Rightarrow> string"
  w_keygen :: keygen
  w_unzip :: unzip
  w_tools :: tools
  w_upstream :: upstream
  w_pins :: pins

record prepared =
  p_release :: release
  p_stable :: release
  p_stock :: string
  p_info :: android_info
  p_patch :: string

definition prepare :: "world \<Rightarrow> inputs \<Rightarrow> prepared res" where
  "prepare w i =
     bnd (parse_release (JStr (expected i)) True) (\<lambda>rel.
     bnd (bnd (stable_file i) parse_stable_channel) (\<lambda>stab.
     bnd (validate_record (by_tag (w_upstream w)) (adevtool i)) (\<lambda>r.
     bnd (bnd (entry_item ''release'' (adevtool i)) (\<lambda>v. parse_release v True)) (\<lambda>recorded.
       if number recorded \<noteq> base rel then refuse ''the adevtool record is for another release''
       else bnd (patch_level (w_upstream w) rel (given_patch i)) (\<lambda>level.
         Inr \<lparr>p_release = rel, p_stable = stab, p_stock = v_stock r, p_info = v_info r, p_patch = level\<rparr>)))))"

definition check_pkmd :: "world \<Rightarrow> archive \<Rightarrow> string res" where
  "check_pkmd w a = bnd (read_member a ''avb_pkmd.bin'' SMALL) (\<lambda>data.
     if w_sha w data \<noteq> PKMD_SHA256 then refuse ''avb_pkmd.bin does not hash to the published digest'' else Inr data)"

definition check_info :: "prepared \<Rightarrow> archive \<Rightarrow> android_info res" where
  "check_info p a = bnd (bnd (read_member a ''android-info.txt'' SMALL) parse_android_info) (\<lambda>info.
     if info \<noteq> p_info p then refuse ''the zip android-info.txt differs from that of adevtool'' else Inr info)"

definition check_script :: "world \<Rightarrow> prepared \<Rightarrow> archive \<Rightarrow> (string, string) dict res" where
  "check_script w p a =
     bnd (read_member a ''flash-all.sh'' SMALL) (\<lambda>data.
     bnd (read data (Expectation (bootloader (p_info p)) (baseband (p_info p)) (Some (number (p_release p)))) None) (\<lambda>r.
       if verdict r \<noteq> ''PASS'' then refuse ''flash-all.sh''
       else if filter (\<lambda>n. dget (members a) n = None) (files r) \<noteq> [] then refuse ''flash-all.sh writes files the zip does not contain''
       else firmware_digests (w_sha w) a (p_info p)))"

text \<open>The outcome of every check, in the order of the source; \<open>None\<close> is a check that did not run.\<close>

record outcomes =
  o_signature :: "signature_report res"
  o_signers :: "string res"
  o_layout :: "archive res"
  o_pkmd :: "string res option"
  o_info :: "android_info res option"
  o_vbmeta :: "vbmeta_report res option"
  o_identity :: "identity_report res option"
  o_script :: "(string, string) dict res option"

definition in_archive :: "archive res \<Rightarrow> (archive \<Rightarrow> 'a res) \<Rightarrow> 'a res option" where
  "in_archive layout f = (case layout of Inl e \<Rightarrow> None | Inr a \<Rightarrow> Some (f a))"

definition kit_vbmeta :: "world \<Rightarrow> prepared \<Rightarrow> archive \<Rightarrow> vbmeta_report res" where
  "kit_vbmeta w p a = (case check_pkmd w a of
     Inl e \<Rightarrow> refuse ''avb_pkmd.bin did not pass, so the embedded key cannot be compared''
   | Inr key \<Rightarrow> bnd (read_member a ''vbmeta.img'' SMALL) (\<lambda>d.
       check_vbmeta (w_sha w) (w_pins w) (w_tools w) a d key (p_patch p)))"

definition kit_identity :: "world \<Rightarrow> prepared \<Rightarrow> archive \<Rightarrow> identity_report res" where
  "kit_identity w p a = (case kit_vbmeta w p a of
     Inl e \<Rightarrow> refuse ''vbmeta did not pass, so the build number inside it is not trusted''
   | Inr v \<Rightarrow> check_release_identity (v_parsed v) (p_release p) (p_stable p) (Some (p_stock p)))"

definition run_checks :: "world \<Rightarrow> inputs \<Rightarrow> prepared \<Rightarrow> string \<Rightarrow> outcomes" where
  "run_checks w i p copy =
     (let sig = read_small (signature_file i); signers = read_small (signers_file i);
        layout = open_archive (w_unzip w) (zip_name i) (Some (number (p_release p))) copy
      in \<lparr>o_signature = bnd sig (\<lambda>s. bnd signers (\<lambda>g. check_signature (w_keygen w) (w_sha w) copy s g)),
        o_signers = bnd signers (check_signers (w_sha w) (w_upstream w)),
        o_layout = layout,
        o_pkmd = in_archive layout (check_pkmd w),
        o_info = in_archive layout (check_info p),
        o_vbmeta = in_archive layout (kit_vbmeta w p),
        o_identity = in_archive layout (kit_identity w p),
        o_script = in_archive layout (check_script w p)\<rparr>)"

definition passed :: "'a res option \<Rightarrow> bool" where
  "passed c = (case c of None \<Rightarrow> True | Some r \<Rightarrow> is_ok r)"

definition all_pass :: "outcomes \<Rightarrow> bool" where
  "all_pass c \<longleftrightarrow> is_ok (o_signature c) \<and> is_ok (o_signers c) \<and> is_ok (o_layout c) \<and> passed (o_pkmd c) \<and>
     passed (o_info c) \<and> passed (o_vbmeta c) \<and> passed (o_identity c) \<and> passed (o_script c)"

datatype kit_report =
    Kit_refuse "outcomes option"
  | Kit_pass string identity_report android_info "(string, string) dict"

definition finish :: "outcomes \<Rightarrow> string \<Rightarrow> kit_report" where
  "finish c digest =
     (if all_pass c
      then (case (o_identity c, o_info c, o_script c) of
          (Some (Inr d), Some (Inr info), Some (Inr fw)) \<Rightarrow> Kit_pass digest d info fw
        | _ \<Rightarrow> Kit_refuse (Some c))
      else Kit_refuse (Some c))"

definition check_kit :: "world \<Rightarrow> inputs \<Rightarrow> kit_report res" where
  "check_kit w i = (case prepare w i of
     Inl (Refusal t) \<Rightarrow> Inr (Kit_refuse None)
   | Inl (OSError t) \<Rightarrow> Inr (Kit_refuse None)
   | Inl e \<Rightarrow> Inl e
   | Inr p \<Rightarrow>
       (case zip_data i of
          Inl (Refusal t) \<Rightarrow> Inr (Kit_refuse None)
        | Inl (OSError t) \<Rightarrow> Inr (Kit_refuse None)
        | Inl e \<Rightarrow> Inl e
        | Inr copy \<Rightarrow>
            if \<not> removed i then refuse ''the private directory could not be removed''
            else Inr (finish (run_checks w i p copy) (w_sha w copy))))"

definition main_install :: "world \<Rightarrow> json res \<Rightarrow> inputs \<Rightarrow> nat res" where
  "main_install w rec i = (case rec of
     Inl (OSError t) \<Rightarrow> Inr 1
   | Inl (ValueError t) \<Rightarrow> Inr 1
   | Inl e \<Rightarrow> Inl e
   | Inr v \<Rightarrow>
       (case check_kit w (i\<lparr>adevtool := v\<rparr>) of
          Inl (Refusal t) \<Rightarrow> Inr 1
        | Inl e \<Rightarrow> Inl e
        | Inr (Kit_pass d n f g) \<Rightarrow> Inr 0
        | Inr (Kit_refuse c) \<Rightarrow> Inr 1))"

section \<open>An Andrix zip\<close>

record andrix_identity =
  a_sha :: string
  a_base_tag :: release
  a_stock :: string
  a_info :: android_info
  a_firmware :: "(string, string) dict"

definition andrix_identity_of :: "world \<Rightarrow> string \<Rightarrow> string res \<Rightarrow> bool \<Rightarrow> andrix_identity res" where
  "andrix_identity_of w name data cleaned =
     bnd data (\<lambda>copy.
     bnd (open_archive (w_unzip w) name None copy) (\<lambda>a.
     bnd (read_member a ''avb_pkmd.bin'' SMALL) (\<lambda>pkmd.
       (case workshop_pin (w_pins w) of
          None \<Rightarrow> refuse ''the workshop key for this phone is not recorded yet, so no Andrix zip is trusted''
        | Some pin \<Rightarrow>
            if w_sha w pkmd \<noteq> pin then refuse ''the Andrix zip is not signed with the workshop key''
            else
              bnd (bnd (read_member a ''vbmeta.img'' SMALL) parse_vbmeta) (\<lambda>v.
              bnd (andrix_base_tag v) (\<lambda>tag.
              bnd (patch_level (w_upstream w) tag None) (\<lambda>level.
              bnd (bnd (read_member a ''vbmeta.img'' SMALL) (\<lambda>d. check_vbmeta (w_sha w) (w_pins w) (w_tools w) a d pkmd level)) (\<lambda>_.
              bnd (andrix_stock_build v) (\<lambda>stock.
              bnd (bnd (read_member a ''android-info.txt'' SMALL) parse_android_info) (\<lambda>info.
              bnd (bnd (read_member a ''flash-all.sh'' SMALL)
                (\<lambda>d. read d (Expectation (bootloader info) (baseband info) None) None)) (\<lambda>r.
                if verdict r \<noteq> ''PASS'' then refuse ''the Andrix flash-all.sh''
                else bnd (firmware_digests (w_sha w) a info) (\<lambda>fw.
                  if \<not> cleaned then refuse ''the private directory could not be removed''
                  else Inr \<lparr>a_sha = w_sha w copy, a_base_tag = tag, a_stock = stock, a_info = info, a_firmware = fw\<rparr>))))))))))))"

section \<open>What a passing check rests on\<close>

lemma check_signature_Inr:
  "check_signature keygen sha copy s g = Inr r \<Longrightarrow> keygen g s copy = Inr (0, good_line @ [nl])"
  by (auto simp: check_signature_def bnd_eq_Inr split: if_split_asm)

lemma check_signers_Inr: "check_signers sha up g = Inr d \<Longrightarrow> pinned_signers_digest up = Inr (sha g)"
  by (auto simp: check_signers_def bnd_eq_Inr split: if_split_asm)

lemma read_small_Inr: "read_small f = Inr d \<Longrightarrow> f = Inr d"
  by (auto simp: read_small_def split: sum.split_asm if_split_asm)

lemma check_pkmd_Inr: "check_pkmd w a = Inr key \<Longrightarrow> read_member a ''avb_pkmd.bin'' SMALL = Inr key \<and> w_sha w key = PKMD_SHA256"
  by (auto simp: check_pkmd_def bnd_eq_Inr split: if_split_asm)

lemma check_vbmeta_Inr:
  assumes "check_vbmeta sha pin t a data pkmd level = Inr r"
  shows "parse_vbmeta data = Inr (v_parsed r) \<and> check_vbmeta_fields (v_parsed r) pkmd level = Inr () \<and>
    images_to_verify (v_parsed r) = Inr (map fst (v_images r))"
proof -
  from assms obtain v images files rebuilt where v: "parse_vbmeta data = Inr v" "check_vbmeta_fields v pkmd level = Inr ()"
    "images_to_verify v = Inr images" "verify_images sha pin t a pkmd images = Inr (files, rebuilt)"
    "r = \<lparr>v_parsed = v, v_images = files, v_rebuilt = rebuilt\<rparr>"
    by (auto simp: check_vbmeta_def bnd_eq_Inr split: if_split_asm)
  from v(4) obtain rb where m: "map_res (member_image a rb) images = Inr files"
    by (auto simp: verify_images_def Let_def bnd_eq_Inr split: if_split_asm)
  have fst: "fst f = n" if "member_image a rb n = Inr f" for n f
    using that by (auto simp: member_image_def bnd_eq_Inr split: option.split_asm)
  from m have "map fst files = images"
    unfolding map_res_Inr by (induction rule: list_all2_induct) (auto dest!: fst)
  with v show ?thesis by simp
qed

lemma kit_vbmetaE:
  assumes "kit_vbmeta w p a = Inr r"
  obtains key data where "check_pkmd w a = Inr key" "read_member a ''vbmeta.img'' SMALL = Inr data"
    "check_vbmeta (w_sha w) (w_pins w) (w_tools w) a data key (p_patch p) = Inr r"
  using assms by (auto simp: kit_vbmeta_def bnd_eq_Inr split: sum.split_asm)

lemma check_release_identityD:
  assumes "check_release_identity v rel stab (Some stock) = Inr d"
  shows "\<exists>r names. build_identity v = Inr (r, stock, names) \<and> number r = number rel \<and> \<not> newer r stab \<and>
    build_number d = number rel \<and> stock_build d = stock"
  using assms by (auto simp: check_release_identity_def bnd_eq_Inr split: if_split_asm)

lemma check_infoD:
  assumes "check_info p a = Inr info"
  shows "info = p_info p \<and> (\<exists>text. read_member a ''android-info.txt'' SMALL = Inr text \<and> parse_android_info text = Inr info)"
  using assms by (auto simp: check_info_def bnd_eq_Inr split: if_split_asm)

lemma check_scriptD:
  assumes "check_script w p a = Inr fw"
  shows "firmware_digests (w_sha w) a (p_info p) = Inr fw \<and>
    (\<exists>data lines. read_member a ''flash-all.sh'' SMALL = Inr data \<and> data = join [nl] lines @ [nl] \<and>
      official_script (Expectation (bootloader (p_info p)) (baseband (p_info p)) (Some (number (p_release p)))) lines)"
proof -
  from assms obtain data r where d: "read_member a ''flash-all.sh'' SMALL = Inr data"
    "read data (Expectation (bootloader (p_info p)) (baseband (p_info p)) (Some (number (p_release p)))) None = Inr r"
    "verdict r = ''PASS''" "firmware_digests (w_sha w) a (p_info p) = Inr fw"
    by (auto simp: check_script_def bnd_eq_Inr split: if_split_asm)
  from read_pass [OF d(2)] d(3) show ?thesis
    using d(1,4) by (auto simp: official_script_def split: if_split_asm)
qed

lemma finish_pass:
  assumes "finish c digest = Kit_pass d ident info fw"
  shows "d = digest \<and> all_pass c \<and> o_identity c = Some (Inr ident) \<and> o_info c = Some (Inr info) \<and> o_script c = Some (Inr fw)"
  using assms by (auto simp: finish_def split: if_split_asm option.split_asm sum.split_asm)

lemma check_kit_passE:
  assumes "check_kit w i = Inr (Kit_pass d ident info fw)"
  obtains p copy where "prepare w i = Inr p" "zip_data i = Inr copy" "removed i" "d = w_sha w copy"
    "all_pass (run_checks w i p copy)" "o_identity (run_checks w i p copy) = Some (Inr ident)"
    "o_info (run_checks w i p copy) = Some (Inr info)" "o_script (run_checks w i p copy) = Some (Inr fw)"
proof -
  from assms obtain p copy where p: "prepare w i = Inr p" "zip_data i = Inr copy" "removed i"
    "finish (run_checks w i p copy) (w_sha w copy) = Kit_pass d ident info fw"
    by (auto simp: check_kit_def split: sum.split_asm py_error.split_asm if_split_asm)
  from finish_pass [OF p(4)] p(1-3) show thesis using that by blast
qed

lemma prepareD:
  assumes "prepare w i = Inr p"
  shows "number (p_release p) = expected i \<and> (\<exists>r. validate_record (by_tag (w_upstream w)) (adevtool i) = Inr r \<and>
    p_stock p = v_stock r \<and> p_info p = v_info r) \<and> (\<exists>s. stable_file i = Inr s \<and> parse_stable_channel s = Inr (p_stable p))"
  using assms by (auto simp: prepare_def bnd_eq_Inr parse_release_iff split: if_split_asm)

section \<open>The properties\<close>


section \<open>A kit that passes\<close>

definition plain_name :: "string \<Rightarrow> bool" where
  "plain_name n \<longleftrightarrow> n \<notin> {[], ''.'', ''..''} \<and> list_all (\<lambda>c. c \<noteq> CHR ''/'' \<and> c \<noteq> CHR 0x5C) n"

definition plain_entry :: "string \<Rightarrow> string \<times> string \<Rightarrow> entry" where
  "plain_entry prefix nd = \<lparr>filename = prefix @ fst nd, external_attr = 0, flag_bits = 0, file_size = length (snd nd),
     content = Inr (snd nd)\<rparr>"

lemma add_plain_entry:
  assumes "plain_name dir" and "plain_name (fst nd)" and "dget ms (fst nd) = None"
  shows "add_member (dir @ ''/'') ms (plain_entry (dir @ ''/'') nd) = Inr (ms @ [(fst nd, plain_entry (dir @ ''/'') nd)])"
proof -
  obtain n d where nd: "nd = (n, d)" by (cases nd)
  have s: "CHR ''/'' \<notin> set dir" "CHR ''/'' \<notin> set n" "CHR 0x5C \<notin> set dir" "CHR 0x5C \<notin> set n" "n \<noteq> []" "dir \<noteq> []"
    using assms(1,2) by (auto simp: plain_name_def nd list_all_iff)
  have "split_char CHR ''/'' (dir @ ''/'' @ n) = [dir, n]"
    using s by (simp add: split_char_append split_char_no_sep)
  moreover have "\<not> starts_with ''/'' (dir @ ''/'' @ n)" using s by (cases dir) auto
  ultimately have p: "path_parts (dir @ ''/'' @ n) = [dir, n]"
    using assms(1,2) by (simp add: path_parts_def plain_name_def nd)
  have e: "\<not> ends_with ''/'' (dir @ ''/'' @ n)"
  proof
    assume "ends_with ''/'' (dir @ ''/'' @ n)"
    then obtain t where "dir @ ''/'' @ n = t @ ''/''" by (auto simp: ends_with_iff)
    then have "last (dir @ ''/'' @ n) = CHR ''/''" by simp
    then have "last n = CHR ''/''" using s by simp
    with s(2) last_in_set [OF s(5)] show False by (simp only:)
  qed
  have st: "starts_with (dir @ ''/'') (dir @ ''/'' @ n)" using starts_with_append [of "dir @ ''/''" n] by simp
  show ?thesis
    using assms p e st s by (simp add: add_member_def plain_entry_def nd Let_def is_dir_def plain_name_def dput_new)
qed

lemma add_plain_entries:
  assumes "plain_name dir" and "list_all plain_name (map fst nds)" and "distinct (map fst nds)"
  shows "fold_res (add_member (dir @ ''/'')) [] (map (plain_entry (dir @ ''/'')) nds) =
    Inr (map (\<lambda>nd. (fst nd, plain_entry (dir @ ''/'') nd)) nds)"
  using assms(2,3)
proof (induction nds rule: rev_induct)
  case (snoc nd nds)
  have "dget (map (\<lambda>nd. (fst nd, plain_entry (dir @ ''/'') nd)) nds) (fst nd) = None"
    using snoc.prems(2) by (auto simp: dget_None image_iff)
  with snoc show ?case
    using add_plain_entry [OF assms(1), of nd] by (simp add: fold_res_append)
qed simp

lemma read_plain_member:
  assumes "members a = map (\<lambda>nd. (fst nd, plain_entry prefix nd)) nds" and "distinct (map fst nds)" and "(n, d) \<in> set nds"
    and "length d \<le> limit"
  shows "read_member a n limit = Inr d"
proof -
  have "(n, plain_entry prefix (n, d)) \<in> set (members a)" using assms(1,3) by force
  moreover have "distinct (map fst (members a))" using assms(1,2) by (simp add: comp_def)
  ultimately have "dget (members a) n = Some (plain_entry prefix (n, d))" by (simp add: map_of_eq_Some_iff)
  with assms(4) show ?thesis by (simp add: read_member_def plain_entry_def)
qed

definition kit_members :: "(string \<times> string) list" where
  "kit_members = [(''avb_pkmd.bin'', ''key''), (''android-info.txt'', info_text sample_info),
     (''vbmeta.img'', vbmeta_bytes [] sample_properties sample_vbmeta), (''flash-all.sh'', join [nl] sample_script @ [nl]),
     (bootloader_file sample_expect, ''b''), (radio_file sample_expect, ''r''), (''android-info.zip'', []), (''boot.img'', []),
     (''init_boot.img'', []), (''dtbo.img'', []), (''vendor_kernel_boot.img'', []), (''pvmfw.img'', []), (''vendor_boot.img'', []),
     (''super_1.img'', []), (''super_2.img'', [])]"

definition kit_names :: "string list" where
  "kit_names = [''avb_pkmd.bin'', ''android-info.txt'', ''vbmeta.img'', ''flash-all.sh'', bootloader_file sample_expect,
     radio_file sample_expect, ''android-info.zip'', ''boot.img'', ''init_boot.img'', ''dtbo.img'', ''vendor_kernel_boot.img'',
     ''pvmfw.img'', ''vendor_boot.img'', ''super_1.img'', ''super_2.img'']"

lemma kit_names: "map fst kit_members = kit_names"
  by (simp add: kit_members_def kit_names_def)

lemma kit_names_plain: "list_all plain_name kit_names" "distinct kit_names"
  by code_simp+

definition kit_archive :: archive where
  "kit_archive = \<lparr>aprefix = ''caiman-install-2026010200/'',
     members = map (\<lambda>nd. (fst nd, plain_entry ''caiman-install-2026010200/'' nd)) kit_members\<rparr>"

definition kit_sha :: "string \<Rightarrow> string" where
  "kit_sha d = (if d = ''key'' then PKMD_SHA256 else if d = ''avb'' then AVBTOOL_SHA256 else zeros 64)"

definition kit_base :: json where
  "kit_base = JDict [(''schema'', JStr ''andrix.upstream.base/1''), (''release'', JStr ''2026010200''),
     (''manifest'', JDict [(''sha256'', JStr (zeros 64)), (''allowed_signers_sha256'', JStr (zeros 64))]),
     (''security_patch_level'', JDict [(''value'', JStr ''2026-01-05'')])]"

definition kit_upstream :: upstream where
  "kit_upstream = \<lparr>by_tag = (\<lambda>t. if t = ''2026010200'' then Some kit_base else None), base_values = [Inr kit_base]\<rparr>"

definition kit_adevtool :: json where
  "kit_adevtool = JDict [(''schema'', JStr ADEV_SCHEMA), (''device'', JStr DEVICE), (''release'', JStr ''2026010200''),
     (''adevtool_revision'', JStr (zeros 40)), (''manifest_sha256'', JStr (zeros 64)), (''tree_head'', JStr (zeros 40)),
     (''stock_build'', JStr sample_build),
     (''build_index'', JDict [(DEVICE, JDict [(sample_build, JDict [(''desc'', JStr ''15''), (''factory_sha256'', JStr (zeros 64)),
        (''factory_file'', JStr ''f'')])])]),
     (''generated_module'', JDict [(''android-info.txt'', as_dict sample_info)])]"

definition kit_tools :: tools where
  "kit_tools = \<lparr>avbtool = Inr ''avb'', image_path = ''v'',
     verify_image = (\<lambda>_ _. Inr (0, ''vbmeta: Successfully verified SHA256_RSA4096 vbmeta struct in v'')),
     info_image = (\<lambda>_. Inr (0, Some ''key'')), simg2img = None, lpunpack = None, unpack_super = (\<lambda>_. Inr [])\<rparr>"

definition kit_world :: world where
  "kit_world = \<lparr>w_sha = kit_sha, w_keygen = (\<lambda>_ _ _. Inr (0, good_line @ [nl])),
     w_unzip = (\<lambda>_. Some (map (plain_entry ''caiman-install-2026010200/'') kit_members)), w_tools = kit_tools,
     w_upstream = kit_upstream, w_pins = current_pins\<rparr>"

definition kit_inputs :: inputs where
  "kit_inputs = \<lparr>zip_name = ''caiman-install-2026010200.zip'', zip_data = Inr ''PK'', signature_file = Inr ''sig'',
     signers_file = Inr ''signers'', expected = ''2026010200'', stable_file = Inr ''2026010200 1767571200 caiman stable'',
     adevtool = kit_adevtool, given_patch = None, removed = True\<rparr>"

definition kit_release :: release where
  "kit_release = \<lparr>number = ''2026010200'', base = ''2026010200'', preview = False\<rparr>"

definition kit_prepared :: prepared where
  "kit_prepared = \<lparr>p_release = kit_release, p_stable = kit_release, p_stock = sample_build, p_info = sample_info,
     p_patch = ''2026-01-05''\<rparr>"

lemma kit_prepare: "prepare kit_world kit_inputs = Inr kit_prepared"
proof -
  have 1: "parse_release (JStr ''2026010200'') True = Inr kit_release"
    "parse_stable_channel ''2026010200 1767571200 caiman stable'' = Inr kit_release"
    by code_simp+
  have 2: "case validate_record (by_tag kit_upstream) kit_adevtool of Inl _ \<Rightarrow> False
    | Inr r \<Rightarrow> v_stock r = sample_build \<and> v_info r = sample_info" by code_simp
  have 3: "patch_level kit_upstream kit_release None = Inr ''2026-01-05''" by code_simp
  have 4: "entry_item ''release'' kit_adevtool = Inr (JStr ''2026010200'')" by (simp add: kit_adevtool_def entry_item_def jitem_def)
  have "base kit_release = ''2026010200''" "number kit_release = ''2026010200''" by (simp_all add: kit_release_def)
  with 1 2 3 4 show ?thesis
    by (auto simp: prepare_def kit_world_def kit_inputs_def kit_prepared_def split: sum.split_asm)
qed

lemma kit_opens: "open_archive (w_unzip kit_world) ''caiman-install-2026010200.zip'' (Some ''2026010200'') copy = Inr kit_archive"
proof -
  have "plain_name ''caiman-install-2026010200''" by code_simp
  from add_plain_entries [OF this, of kit_members] kit_names_plain
  show ?thesis by (simp add: open_archive_def archive_release_def kit_world_def kit_archive_def DEVICE_def kit_names Let_def)
qed

lemmas read_kit = read_plain_member [of kit_archive "''caiman-install-2026010200/''" kit_members, simplified kit_archive_def kit_names,
  simplified, OF kit_names_plain(2), folded kit_archive_def]

lemma kit_reads:
  "read_member kit_archive ''avb_pkmd.bin'' SMALL = Inr ''key''"
  "read_member kit_archive ''android-info.txt'' SMALL = Inr (info_text sample_info)"
  "read_member kit_archive ''vbmeta.img'' SMALL = Inr (vbmeta_bytes [] sample_properties sample_vbmeta)"
  "read_member kit_archive ''flash-all.sh'' SMALL = Inr (join [nl] sample_script @ [nl])"
  "read_member kit_archive (bootloader_file sample_expect) IMAGE = Inr ''b''"
  "read_member kit_archive (radio_file sample_expect) IMAGE = Inr ''r''"
proof -
  show "read_member kit_archive ''avb_pkmd.bin'' SMALL = Inr ''key''"
    by (rule read_kit) (simp_all add: kit_members_def SMALL_def)
  show "read_member kit_archive (bootloader_file sample_expect) IMAGE = Inr ''b''"
    "read_member kit_archive (radio_file sample_expect) IMAGE = Inr ''r''"
    by (rule read_kit; simp add: kit_members_def IMAGE_def)+
  have "length (info_text sample_info) \<le> 1000" by code_simp
  then show "read_member kit_archive ''android-info.txt'' SMALL = Inr (info_text sample_info)"
    by (intro read_kit) (simp_all add: kit_members_def SMALL_def)
  have "length (join [nl] sample_script) \<le> 10000"
  proof -
    have "sum_list (map (\<lambda>l. Suc (length l)) sample_script) \<le> 10000" by code_simp
    with length_join_nl [of sample_script] show ?thesis by linarith
  qed
  then show "read_member kit_archive ''flash-all.sh'' SMALL = Inr (join [nl] sample_script @ [nl])"
    by (intro read_kit) (simp_all add: kit_members_def SMALL_def)
  have "length (vbmeta_bytes [] sample_properties sample_vbmeta) \<le> 10000"
    by (simp add: vbmeta_bytes_def Let_def sample_properties_def sample_vbmeta_def property_bytes_def pad8_def pad64_def)
  then show "read_member kit_archive ''vbmeta.img'' SMALL = Inr (vbmeta_bytes [] sample_properties sample_vbmeta)"
    by (intro read_kit) (simp_all add: kit_members_def SMALL_def)
qed

lemma kit_vbmeta_ok:
  "kit_vbmeta kit_world kit_prepared kit_archive = Inr \<lparr>v_parsed = sample_vbmeta, v_images = [], v_rebuilt = []\<rparr>"
proof -
  have 1: "check_vbmeta_fields sample_vbmeta ''key'' ''2026-01-05'' = Inr ()" by code_simp
  have 2: "images_to_verify sample_vbmeta = Inr []" by code_simp
  have 3: "''vbmeta: Successfully verified SHA256_RSA4096 vbmeta struct in v'' \<in> set (split_char nl
      (decode_text ''vbmeta: Successfully verified SHA256_RSA4096 vbmeta struct in v''))"
    "verified_names (split_char nl (decode_text ''vbmeta: Successfully verified SHA256_RSA4096 vbmeta struct in v'')) = [''vbmeta'']"
    by code_simp+
  have 4: "verify_images kit_sha current_pins kit_tools kit_archive ''key'' [] = Inr ([], [])"
    using 3 by (simp add: verify_images_def Let_def kit_reads kit_tools_def)
  have 5: "check_pkmd kit_world kit_archive = Inr ''key''"
    by (simp add: check_pkmd_def kit_reads kit_world_def kit_sha_def)
  have 6: "avbtool kit_tools = Inr ''avb''" "kit_sha ''avb'' = AVBTOOL_SHA256"
    by (simp_all add: kit_tools_def kit_sha_def)
  show ?thesis
    using 1 2 4 5 6 parse_vbmeta_bytes [OF sample_encodable]
    by (simp add: kit_vbmeta_def kit_reads check_vbmeta_def kit_prepared_def kit_world_def)
qed

lemma kit_identity_ok: "is_ok (kit_identity kit_world kit_prepared kit_archive)"
proof -
  have "newer kit_release kit_release = False" by (simp add: newer_def)
  then show ?thesis
    unfolding kit_identity_def kit_vbmeta_ok
    by (simp add: check_release_identity_def sample_identity [folded kit_release_def] kit_prepared_def sample_build_def)
qed

lemma kit_script_ok:
  "check_script kit_world kit_prepared kit_archive =
     Inr (dput (radio_file sample_expect) (kit_sha ''r'') [(bootloader_file sample_expect, kit_sha ''b'')])"
proof -
  have e: "Expectation (bootloader (p_info kit_prepared)) (baseband (p_info kit_prepared)) (Some (number (p_release kit_prepared))) = sample_expect"
    by (simp add: kit_prepared_def kit_release_def sample_info_def sample_expect_def)
  have od: "optimized_difference sample_script sample_expect = (None, Some 2)"
    by (simp add: optimized_difference_iff sample_script_def)
  let ?r = "read_optimized sample_script sample_expect"
  have rd: "read (join [nl] sample_script @ [nl]) sample_expect None = Inr ?r" by (rule read_sample_script)
  have "rform ?r = ''optimized''" by (simp add: read_optimized_def od finish_report_def Let_def)
  moreover have "\<exists>k. 1 \<le> k \<and> k \<le> 999 \<and> sample_script = optimized_head sample_expect @ optimized_os_lines k"
    by (rule exI [of _ 2]) (simp add: sample_script_def)
  ultimately have pass: "verdict ?r = ''PASS''"
    using read_pass [OF rd] split_sample_script by auto
  have "files ?r = base_files sample_expect @ [''android-info.zip''] @ map (\<lambda>n. n @ ''.img'') DEFAULT_OS_IMAGES @ [''super_1.img'', ''super_2.img'']"
  proof -
    have "str_nat 1 = ''1''" "str_nat 2 = ''2''" by code_simp+
    then show ?thesis by (simp add: read_optimized_def od finish_report_def Let_def upt_conv_Cons)
  qed
  then have "set (files ?r) \<subseteq> set kit_names"
    by (auto simp: kit_names_def base_files_def DEFAULT_OS_IMAGES_def)
  then have "filter (\<lambda>n. dget (members kit_archive) n = None) (files ?r) = []"
    by (auto simp: filter_empty_conv dget_None kit_archive_def kit_names [symmetric] image_iff subset_iff)
  moreover have "firmware_digests kit_sha kit_archive sample_info =
      Inr (dput (radio_file sample_expect) (kit_sha ''r'') [(bootloader_file sample_expect, kit_sha ''b'')])"
  proof -
    have "bootloader_file (Expectation (bootloader sample_info) (baseband sample_info) None) = bootloader_file sample_expect"
      "radio_file (Expectation (bootloader sample_info) (baseband sample_info) None) = radio_file sample_expect"
      by (simp_all add: sample_info_def sample_expect_def bootloader_file_def radio_file_def Expectation_def)
    then show ?thesis by (simp add: firmware_digests_def kit_reads Let_def)
  qed
  ultimately show ?thesis
    unfolding check_script_def e by (simp add: kit_reads rd pass kit_world_def kit_prepared_def)
qed

lemma kit_passes: "\<exists>d ident info fw. check_kit kit_world kit_inputs = Inr (Kit_pass d ident info fw)"
proof -
  obtain ident where id: "kit_identity kit_world kit_prepared kit_archive = Inr ident"
    using kit_identity_ok by (auto simp: is_ok_iff)
  have info: "check_info kit_prepared kit_archive = Inr sample_info"
    using parse_info_text [OF wf_sample_info] by (simp add: check_info_def kit_reads kit_prepared_def)
  have pk: "check_pkmd kit_world kit_archive = Inr ''key''"
    by (simp add: check_pkmd_def kit_reads kit_world_def kit_sha_def)
  have up: "pinned_signers_digest kit_upstream = Inr (zeros 64)" by code_simp
  have layout: "open_archive (w_unzip kit_world) (zip_name kit_inputs) (Some (number (p_release kit_prepared))) c = Inr kit_archive" for c
    using kit_opens [of c] by (simp add: kit_inputs_def kit_prepared_def kit_release_def)
  have sg: "check_signers kit_sha kit_upstream ''signers'' = Inr (zeros 64)"
    by (simp add: check_signers_def up kit_sha_def)
  have kit_zip: "zip_data kit_inputs = Inr ''PK''" "removed kit_inputs" by (simp_all add: kit_inputs_def)
  have "all_pass (run_checks kit_world kit_inputs kit_prepared ''PK'')"
    unfolding all_pass_def run_checks_def Let_def layout
    by (simp add: in_archive_def passed_def id info pk kit_vbmeta_ok kit_script_ok)
      (simp add: kit_world_def kit_inputs_def read_small_def SMALL_def check_signature_def sg)
  moreover have "o_identity (run_checks kit_world kit_inputs kit_prepared ''PK'') = Some (Inr ident)"
    "o_info (run_checks kit_world kit_inputs kit_prepared ''PK'') = Some (Inr sample_info)"
    "\<exists>fw. o_script (run_checks kit_world kit_inputs kit_prepared ''PK'') = Some (Inr fw)"
    unfolding run_checks_def Let_def layout by (simp_all add: in_archive_def id info kit_script_ok)
  ultimately show ?thesis
    using kit_zip by (auto simp: check_kit_def kit_prepare finish_def)
qed


section \<open>Members and pins\<close>

definition flat_member :: "string \<times> entry \<Rightarrow> bool" where
  "flat_member ne \<longleftrightarrow> CHR ''/'' \<notin> set (fst ne) \<and> fst ne \<notin> {[], ''.'', ''..''} \<and> \<not> is_dir (snd ne) \<and>
     CHR 0x5C \<notin> set (filename (snd ne)) \<and> flag_bits (snd ne) mod 2 = 0 \<and>
     (external_attr (snd ne) div 65536) div 4096 mod 16 \<noteq> 10"

lemma add_member_flat:
  assumes "add_member (DEVICE @ rest) ms e = Inr ms'" and "list_all flat_member ms" and "distinct (map fst ms)"
  shows "list_all flat_member ms' \<and> distinct (map fst ms')"
proof (cases "ms' = ms")
  case False
  let ?ps = "path_parts (filename e)"
  define q where "q p \<longleftrightarrow> p \<in> {[], ''.'', ''..''}" for p :: string
  from assms(1) have "(filename e = DEVICE @ rest \<and> is_dir e) \<or> (starts_with (DEVICE @ rest) (filename e) \<and>
      CHR 0x5C \<notin> set (filename e) \<and> length ?ps = 2 \<and> \<not> list_ex q ?ps \<and> \<not> is_dir e \<and>
      (external_attr e div 65536) div 4096 mod 16 \<noteq> 10 \<and> flag_bits e mod 2 \<noteq> 1 \<and> dget ms (?ps ! 1) = None \<and>
      ms' = dput (?ps ! 1) e ms)"
    unfolding add_member_def Let_def q_def [symmetric]
    by (cases "filename e = DEVICE @ rest \<and> is_dir e") (simp_all only: if_False if_Inl_eq_Inr de_Morgan_disj not_not sum.inject simp_thms)
  moreover have "\<not> (filename e = DEVICE @ rest \<and> is_dir e)"
    using assms(1) False by (cases "filename e = DEVICE @ rest \<and> is_dir e") (simp_all add: add_member_def)
  ultimately have a: "starts_with (DEVICE @ rest) (filename e)" "CHR 0x5C \<notin> set (filename e)" "length ?ps = 2"
    "\<not> list_ex q ?ps" "\<not> is_dir e" "(external_attr e div 65536) div 4096 mod 16 \<noteq> 10"
    "flag_bits e mod 2 = 0" "dget ms (?ps ! 1) = None" "ms' = dput (?ps ! 1) e ms" by simp_all
  obtain t where t: "filename e = CHR ''c'' # t" using a(1) by (auto simp: starts_with_iff DEVICE_def)
  then have "\<not> starts_with ''/'' (filename e)" by simp
  then have sub: "set ?ps \<subseteq> set (split_char CHR ''/'' (filename e))"
    unfolding path_parts_def by (simp only: if_False append_Nil filter_is_subset)
  have in1: "?ps ! 1 \<in> set ?ps" by (rule nth_mem) (simp only: a(3))
  have slash: "CHR ''/'' \<notin> set (?ps ! 1)" by (rule split_char_pieces [OF subsetD [OF sub in1]])
  have "\<not> q (?ps ! 1)" using a(4) in1 unfolding list_ex_iff by blast
  then have step: "?ps ! 1 \<notin> {[], ''.'', ''..''}" unfolding q_def .
  have "flat_member (?ps ! 1, e)" unfolding flat_member_def fst_conv snd_conv by (intro conjI slash step a(2,5,6,7))
  with a(8,9) assms(2,3) show ?thesis by (auto simp: dput_new dget_None)
qed (use assms in simp)



text \<open>
  While the workshop key is not recorded, no Andrix zip has an identity, and while the host tools are not
  pinned, no dynamic partition is rebuilt: both refuse on every input.
\<close>

lemma unpinned_refuses:
  assumes "w_pins w = current_pins"
  shows "\<not> is_ok (andrix_identity_of w name data cleaned) \<and> \<not> is_ok (rebuild_dynamic sha (w_pins w) t a described)"
proof
  have pin: "workshop_pin (w_pins w) = None" "simg2img_pin (w_pins w) = None" using assms by (simp_all add: current_pins_def)
  show "\<not> is_ok (andrix_identity_of w name data cleaned)"
    by (auto simp: is_ok_iff andrix_identity_of_def bnd_eq_Inr pin)
  show "\<not> is_ok (rebuild_dynamic sha (w_pins w) t a described)"
    by (auto simp: is_ok_iff rebuild_dynamic_def bnd_eq_Inr pinned_tool_def pin split: option.split_asm)
qed

end
