(* ===== verification/Decision.thy ===== *)
theory Decision
  imports Install_Zip Session_Record
begin

text \<open>
  \<^verbatim>\<open>scripts/pixel/version_criterion.py\<close>, stop point 4: the signed tags of the manifest repository and the records
  bound to them, images identified from the image itself, the session's approval, \<^verbatim>\<open>decide\<close> and \<^verbatim>\<open>desk\<close>. Git is the
  record \<open>repo\<close> of what its commands answer. The clock is an argument, as the functions allow, and the session
  record that an \<^verbatim>\<open>ALLOW\<close> extends is returned with the decision; writing it is in \<open>Session_Chain\<close>.
\<close>

section \<open>Constants\<close>

definition ONLY_OFFICIAL :: string where
  "ONLY_OFFICIAL = ''only the complete GrapheneOS script or the web installer may run''"

definition APPROVAL_SCHEMA :: string where
  "APPROVAL_SCHEMA = ''andrix.pixel.approval/2''"

definition READINGS_MAX_AGE_LIMIT :: int where
  "READINGS_MAX_AGE_LIMIT = 15"

definition VERIFY_PINS :: "string list" where
  "VERIFY_PINS = [''-c'', ''gpg.ssh.program=/usr/bin/ssh-keygen'',
     ''-c'', ''gpg.program=/usr/bin/false'', ''-c'', ''gpg.openpgp.program=/usr/bin/false'',
     ''-c'', ''gpg.x509.program=/usr/bin/false'', ''-c'', ''gpg.minTrustLevel=fully'',
     ''-c'', ''gpg.ssh.revocationFile=/dev/null'']"

section \<open>Signed tags and the records bound to them\<close>

text \<open>
  What the commands of a local manifest repository print, or \<open>None\<close> where Git fails: the names under
  \<^verbatim>\<open>refs/tags\<close>, \<^verbatim>\<open>rev-parse --verify\<close> and \<^verbatim>\<open>cat-file blob\<close>; and whether \<^verbatim>\<open>verify-tag\<close> succeeds with the given
  settings and the bytes of the allowed signers file.
\<close>

record repo =
  for_each_ref :: "string option"
  rev_parse :: "string \<Rightarrow> string option"
  cat_file :: "string \<Rightarrow> string option"
  verify_tag :: "string list \<Rightarrow> string \<Rightarrow> string \<Rightarrow> bool"

definition git :: "'a option \<Rightarrow> 'a res" where
  "git out = (case out of None \<Rightarrow> refuse ''git in the manifest repository failed'' | Some v \<Rightarrow> Inr v)"

definition decode_strict :: "string \<Rightarrow> string res" where
  "decode_strict b = (if utf8_ok (map ord_c b) then Inr (decode_text b) else Inl (ValueError ''utf-8''))"

text \<open>\<^verbatim>\<open>text.split()\<close>: the runs without white space.\<close>

fun split_space :: "string \<Rightarrow> string list" where
  "split_space [] = []"
| "split_space (c # s) =
     (if is_space c then split_space s
      else (case s of
          [] \<Rightarrow> [[c]]
        | d # t \<Rightarrow> if is_space d then [c] # split_space s
            else (case split_space s of [] \<Rightarrow> [[c]] | w # ws \<Rightarrow> (c # w) # ws)))"

definition low_high :: "release \<Rightarrow> release \<Rightarrow> release \<times> release" where
  "low_high a b = (if nat_of (base a) \<le> nat_of (base b) then (a, b) else (b, a))"

definition tag_step :: "repo \<Rightarrow> string \<Rightarrow> release \<times> release \<Rightarrow> string list \<Rightarrow> string \<Rightarrow> string list res" where
  "tag_step g signers bounds found name =
     (if nat_of (base (fst bounds)) \<le> nat_of name \<and> nat_of name \<le> nat_of (base (snd bounds))
      then bnd (parse_release (JStr name) True) (\<lambda>rel.
        if \<not> verify_tag g VERIFY_PINS signers name then refuse ''git in the manifest repository failed''
        else Inr (found @ [number rel]))
      else Inr found)"

definition signed_tags :: "(string \<Rightarrow> string) \<Rightarrow> upstream \<Rightarrow> repo \<Rightarrow> string res \<Rightarrow> bool \<Rightarrow> release \<Rightarrow> release \<Rightarrow> string list res" where
  "signed_tags sha up g signers cleaned a b =
     bnd (read_small signers) (\<lambda>data.
     bnd (pinned_signers_digest up) (\<lambda>pin.
       if sha data \<noteq> pin then refuse ''is not the allowed signers file that upstream/bases pins''
       else bnd (bnd (git (for_each_ref g)) decode_strict) (\<lambda>out.
         if \<not> cleaned then refuse ''the private directory could not be removed''
         else bnd (fold_res (tag_step g data (low_high a b)) [] (sort (filter (matches RELEASE) (split_space out)))) (\<lambda>found.
           if base (fst (low_high a b)) \<notin> set found \<or> base (snd (low_high a b)) \<notin> set found
           then refuse ''is not a signed release tag of the manifest repository''
           else Inr found))))"

definition rev_is :: "repo \<Rightarrow> string \<Rightarrow> json \<Rightarrow> unit res" where
  "rev_is g ref wanted = bnd (bnd (git (rev_parse g ref)) decode_strict) (\<lambda>out.
     if JStr (strip out) \<noteq> wanted then refuse ''the tag is not the one upstream/bases pins'' else Inr ())"

definition bind_record :: "projects \<Rightarrow> (string \<Rightarrow> string) \<Rightarrow> bases \<Rightarrow> repo \<Rightarrow> session \<Rightarrow> string res" where
  "bind_record projects sha bases g record =
     bnd (jitem record ''release'') (\<lambda>rel.
     bnd (base_record bases (str_of rel)) (\<lambda>b.
     bnd (bnd (jitem b ''manifest'') (\<lambda>m. case m of JDict d \<Rightarrow> Inr d | _ \<Rightarrow> Inl AttributeError)) (\<lambda>pinned.
     bnd (rev_is g (''refs/tags/'' @ py_str rel) (jget pinned ''tag_object'')) (\<lambda>_.
     bnd (rev_is g (''refs/tags/'' @ py_str rel @ ''^{commit}'') (jget pinned ''commit'')) (\<lambda>_.
     bnd (bnd (git (rev_parse g (py_str (jget pinned ''commit'') @ '':'' @ py_str (jget pinned ''path'')))) decode_strict) (\<lambda>out.
       let blob = strip out in
       if JStr blob \<noteq> jget pinned ''blob'' then refuse ''the manifest blob is not the one upstream/bases pins''
       else bnd (git (cat_file g blob)) (\<lambda>data.
         if JStr (sha data) \<noteq> jget pinned ''sha256'' then refuse ''the manifest does not hash to the digest upstream/bases pins''
         else bnd (adevtool_pin projects data) (\<lambda>revision.
           if jget record ''adevtool_revision'' \<noteq> JStr revision
           then refuse ''the record names another adevtool than the signed manifest pins''
           else Inr revision))))))))"

text \<open>Each recorded release's stock build and versions, and the builds of the indexes.\<close>

record table =
  t_stock :: "(string, string) dict"
  t_versions :: "(string, android_info) dict"
  t_builds :: "(string, json) dict"

definition add_build :: "(string, json) dict \<Rightarrow> string \<times> json \<Rightarrow> (string, json) dict res" where
  "add_build builds kv = (case dget builds (fst kv) of
     None \<Rightarrow> Inr (dput (fst kv) (snd kv) builds)
   | Some e \<Rightarrow> if py_eq e (snd kv) then Inr builds else refuse ''the indexes disagree about a build'')"

definition add_record ::
  "projects \<Rightarrow> (string \<Rightarrow> string) \<Rightarrow> bases \<Rightarrow> repo option \<Rightarrow> bool \<Rightarrow> table \<Rightarrow> json \<Rightarrow> table res" where
  "add_record projects sha bases g require_tree_head t v =
     bnd (validate_record bases v) (\<lambda>r.
       let d = dict_of v; b = base (v_release r) in
       if require_tree_head \<and> \<not> py_eq (jget d ''tree_head'') (jget d ''adevtool_revision'')
       then refuse ''names no tree commit it was derived from''
       else bnd (case g of None \<Rightarrow> Inr () | Some p \<Rightarrow> bnd (bind_record projects sha bases p d) (\<lambda>_. Inr ())) (\<lambda>_.
         if dget (t_stock t) b \<noteq> None \<and> (dget (t_stock t) b, dget (t_versions t) b) \<noteq> (Some (v_stock r), Some (v_info r))
         then refuse ''two records disagree''
         else bnd (fold_res add_build (t_builds t) (v_builds r)) (\<lambda>builds.
           Inr \<lparr>t_stock = dput b (v_stock r) (t_stock t), t_versions = dput b (v_info r) (t_versions t), t_builds = builds\<rparr>)))"

definition load_table ::
  "projects \<Rightarrow> (string \<Rightarrow> string) \<Rightarrow> bases \<Rightarrow> repo option \<Rightarrow> bool \<Rightarrow> json list \<Rightarrow> table res" where
  "load_table projects sha bases g require_tree_head records =
     (if records = [] then refuse ''no adevtool record was supplied, so no release has a known stock build''
      else fold_res (add_record projects sha bases g require_tree_head) \<lparr>t_stock = [], t_versions = [], t_builds = []\<rparr> records)"

definition check_coverage :: "table \<Rightarrow> string list \<Rightarrow> release \<Rightarrow> release \<Rightarrow> string list res" where
  "check_coverage t tags a b =
     (let lo = nat_of (base (fst (low_high a b))); hi = nat_of (base (snd (low_high a b)));
        covered = filter (\<lambda>n. lo \<le> nat_of n \<and> nat_of n \<le> hi) tags
      in if base a \<notin> set tags \<or> base b \<notin> set tags then refuse ''is not a signed release tag''
         else if filter (\<lambda>n. dget (t_stock t) n = None) covered \<noteq> [] then refuse ''no adevtool record for signed release tags''
         else Inr covered)"

section \<open>Images, identified from the image itself\<close>

text \<open>\<^verbatim>\<open>==\<close> of two dictionaries, whatever their order.\<close>

definition same_dict :: "('k, 'v) dict \<Rightarrow> ('k, 'v) dict \<Rightarrow> bool" where
  "same_dict d e \<longleftrightarrow> list_all (\<lambda>k. dget d k = dget e k) (map fst d @ map fst e)"

record image =
  ikind :: string
  isha :: string
  irelease :: release
  istock :: string
  iinfo :: android_info
  isource :: string
  iwipes :: bool

text \<open>
  A file given as an image: its name, what reading it gives, its signature file, and whether the private copy of a
  zip could be removed.
\<close>

record image_file =
  f_name :: string
  f_data :: "string res"
  f_signature :: "string res"
  f_removed :: bool

definition identity_entry :: "image \<Rightarrow> string \<Rightarrow> session" where
  "identity_entry i at =
     [(''kind'', JStr (ikind i)), (''release'', JStr (number (irelease i))), (''stock_build'', JStr (istock i)),
      (''android_info'', as_dict (iinfo i)), (''source'', JStr (isource i)), (''wipes_data'', JBool (iwipes i)), (''at'', JStr at)]"

definition check_identity :: "image \<Rightarrow> table \<Rightarrow> unit res" where
  "check_identity i t =
     (let b = base (irelease i);
        agrees = (dget (t_stock t) b = Some (istock i) \<and> dget (t_versions t) b = Some (iinfo i));
        built = sort (map fst (filter (\<lambda>kv. snd kv = istock i) (t_stock t)))
      in bnd (if ikind i \<noteq> ''stock'' \<or> \<not> agrees then Inr agrees
              else (case dget (t_builds t) (istock i) of
                  None \<Rightarrow> Inr False
                | Some e \<Rightarrow> bnd (entry_item ''factory_sha256'' e) (\<lambda>d. Inr (d = JStr (isha i) \<and> take 1 built = [b])))) (\<lambda>ok.
         if \<not> ok then refuse ''the verified identity disagrees with the supplied adevtool records'' else Inr ()))"

text \<open>The members of a kept identity; a checked record has texts and a Boolean there.\<close>

definition text_item :: "string \<Rightarrow> json \<Rightarrow> string res" where
  "text_item k e = bnd (entry_item k e) (\<lambda>v. case v of JStr s \<Rightarrow> Inr s | _ \<Rightarrow> Inl TypeError)"

definition flag_item :: "string \<Rightarrow> json \<Rightarrow> bool res" where
  "flag_item k e = bnd (entry_item k e) (\<lambda>v. case v of JBool b \<Rightarrow> Inr b | _ \<Rightarrow> Inl TypeError)"

definition kept_image :: "session \<Rightarrow> string \<Rightarrow> string \<Rightarrow> table \<Rightarrow> image res" where
  "kept_image s kind digest t =
     bnd (bnd (jitem s ''verified'') (\<lambda>v. case v of JDict vs \<Rightarrow> Inr vs | _ \<Rightarrow> Inl AttributeError)) (\<lambda>vs.
     (case dget vs digest of
        None \<Rightarrow> refuse ''the session record holds no verified identity under that SHA-256''
      | Some e \<Rightarrow>
          bnd (entry_item ''kind'' e) (\<lambda>k.
            if k \<noteq> JStr kind then refuse ''was verified as another kind''
            else
              bnd (bnd (entry_item ''release'' e) (\<lambda>r. parse_release r True)) (\<lambda>rel.
              bnd (text_item ''stock_build'' e) (\<lambda>stock.
              bnd (bnd (entry_item ''android_info'' e) android_info_of) (\<lambda>info.
              bnd (text_item ''source'' e) (\<lambda>src.
              bnd (flag_item ''wipes_data'' e) (\<lambda>wipes.
                let i = \<lparr>ikind = kind, isha = digest, irelease = rel, istock = stock, iinfo = info, isource = src, iwipes = wipes\<rparr>
                in bnd (check_identity i t) (\<lambda>_. Inr i)))))))))"

definition as_refusal :: "'a res \<Rightarrow> 'a res" where
  "as_refusal r = (case r of
     Inl (Refusal t) \<Rightarrow> Inl (Refusal t) | Inl e \<Rightarrow> refuse ''its own identity cannot be read'' | Inr x \<Rightarrow> Inr x)"

definition own_identity :: "unzip \<Rightarrow> string \<Rightarrow> string \<Rightarrow> string \<Rightarrow> (release \<times> string \<times> android_info) res" where
  "own_identity unzip name copy kind =
     bnd (open_archive unzip name None copy) (\<lambda>a.
     bnd (as_refusal (bnd (bnd (read_member a ''android-info.txt'' SMALL) parse_android_info) (\<lambda>info.
       bnd (bnd (read_member a ''vbmeta.img'' SMALL) parse_vbmeta) (\<lambda>v. Inr (info, v))))) (\<lambda>(info, v).
       if kind = ''andrix''
       then bnd (andrix_base_tag v) (\<lambda>tag. bnd (andrix_stock_build v) (\<lambda>stock. Inr (tag, stock, info)))
       else bnd (build_identity v) (\<lambda>(rel, stock, names). Inr (rel, stock, info))))"

definition check_own_identity :: "unzip \<Rightarrow> string \<Rightarrow> string \<Rightarrow> image \<Rightarrow> unit res" where
  "check_own_identity unzip name copy i =
     bnd (own_identity unzip name copy (ikind i)) (\<lambda>(rel, stock, info).
       if number rel \<noteq> number (irelease i) \<or> stock \<noteq> istock i \<or> info \<noteq> iinfo i
       then refuse ''the record no longer holds what verify read'' else Inr ())"

definition verified_image :: "world \<Rightarrow> session \<Rightarrow> image_file \<Rightarrow> string \<Rightarrow> table \<Rightarrow> image res" where
  "verified_image w s f kind t =
     bnd (f_data f) (\<lambda>data.
       if kind = ''stock'' then kept_image s kind (w_sha w data) t
       else if \<not> f_removed f then refuse ''the private directory could not be removed''
       else bnd (kept_image s kind (w_sha w data) t) (\<lambda>i.
         bnd (check_own_identity (w_unzip w) (f_name f) data i) (\<lambda>_. Inr i)))"

definition factory_digest_is :: "string \<Rightarrow> string \<times> json \<Rightarrow> string list res" where
  "factory_digest_is digest kv = bnd (entry_item ''factory_sha256'' (snd kv)) (\<lambda>d. Inr (if d = JStr digest then [fst kv] else []))"

definition stock_image :: "(string \<Rightarrow> string) \<Rightarrow> image_file \<Rightarrow> table \<Rightarrow> image res" where
  "stock_image sha f t =
     bnd (f_data f) (\<lambda>data.
     bnd (map_res (factory_digest_is (sha data)) (t_builds t)) (\<lambda>found.
     (case concat found of
        [build] \<Rightarrow>
          (case sort (map fst (filter (\<lambda>kv. snd kv = build) (t_stock t))) of
             [] \<Rightarrow> refuse ''no supplied GrapheneOS release is built from the stock build''
           | b # _ \<Rightarrow>
               bnd (parse_release (JStr b) True) (\<lambda>rel.
                 (case dget (t_versions t) (base rel) of
                    None \<Rightarrow> Inl (KeyError (base rel))
                  | Some info \<Rightarrow> Inr \<lparr>ikind = ''stock'', isha = sha data, irelease = rel, istock = build, iinfo = info,
                      isource = ''factory image digest of '' @ build @ '' in adevtool'' @ [CHR 0x27]
                        @ ''s index; the earliest recorded release built from it is '' @ number rel, iwipes = True\<rparr>)))
      | _ \<Rightarrow> refuse ''matches no factory image digest in the supplied adevtool indexes'')))"

text \<open>What \<^verbatim>\<open>_image\<close> gives the kit checks: the records by their base, and the files that the options name.\<close>

record kit =
  k_records :: "(string, json) dict"
  k_signers :: "string res"
  k_stable :: "string res option"
  k_avbtool :: bool
  k_official :: "image_file option"

definition KIT_NAME :: "char rx" where
  "KIT_NAME = seqs [lit ''caiman-install-'', Grp 1 (digits_rx 10), lit ''.zip'']"

definition grapheneos_kit :: "world \<Rightarrow> kit \<Rightarrow> string res \<Rightarrow> image_file \<Rightarrow> (image \<times> (string, string) dict) res" where
  "grapheneos_kit w k stab f = (case rx_fullmatch KIT_NAME (f_name f) of
     None \<Rightarrow> refuse ''is not arts caiman-install-RELEASE.zip''
   | Some m \<Rightarrow>
       bnd (parse_release (JStr (group m 1)) True) (\<lambda>given.
       (case dget (k_records k) (base given) of
          None \<Rightarrow> refuse ''no adevtool record for the release that the name gives''
        | Some rec \<Rightarrow>
            bnd (check_kit w \<lparr>zip_name = f_name f, zip_data = f_data f, signature_file = f_signature f,
              signers_file = k_signers k, expected = group m 1, stable_file = stab, adevtool = rec,
              given_patch = None, removed = f_removed f\<rparr>) (\<lambda>report.
            (case report of
               Kit_refuse c \<Rightarrow> refuse ''does not pass the checks that need no phone''
             | Kit_pass digest identity info firmware \<Rightarrow>
                 bnd (parse_release (JStr (build_number identity)) True) (\<lambda>rel.
                   Inr (\<lparr>ikind = ''grapheneos'', isha = digest, irelease = rel, istock = stock_build identity, iinfo = info,
                     isource = ''the signed build number inside the zip'', iwipes = True\<rparr>, firmware)))))))"

definition andrix_image :: "world \<Rightarrow> kit \<Rightarrow> string res \<Rightarrow> image_file \<Rightarrow> table \<Rightarrow> image res" where
  "andrix_image w k stab f t =
     bnd (andrix_identity_of w (f_name f) (f_data f) (f_removed f)) (\<lambda>identity.
     bnd (parse_release (JStr (number (a_base_tag identity))) False) (\<lambda>tag.
     (case dget (t_versions t) (base tag) of
        None \<Rightarrow> refuse ''no adevtool record for the Andrix base tag''
      | Some info \<Rightarrow>
          if a_info identity \<noteq> info then refuse ''the Andrix android-info.txt is not the recorded one''
          else (case dget (t_stock t) (base tag) of
              None \<Rightarrow> Inl (KeyError (base tag))
            | Some stock \<Rightarrow>
                if a_stock identity \<noteq> stock then refuse ''the Andrix fingerprint names another stock build''
                else (case k_official k of
                    None \<Rightarrow> refuse ''an Andrix zip needs the official GrapheneOS kit for its firmware''
                  | Some kitfile \<Rightarrow>
                      bnd (grapheneos_kit w k stab kitfile) (\<lambda>(official, theirs).
                        if number (irelease official) \<noteq> number tag then refuse ''the official kit is not the base tag''
                        else if \<not> same_dict (a_firmware identity) theirs
                        then refuse ''the Andrix bootloader and radio images are not byte identical to the official kit''
                        else Inr \<lparr>ikind = ''andrix'', isha = a_sha identity, irelease = tag, istock = a_stock identity,
                          iinfo = a_info identity, isource = ''the workshop signed vbmeta, its base tag '' @ number tag
                            @ '' and the official kit '' @ isha official, iwipes = True\<rparr>))))))"

text \<open>\<^verbatim>\<open>_image\<close>: the image that a command is given, by its kind.\<close>

definition given_image :: "world \<Rightarrow> kit \<Rightarrow> string \<Rightarrow> image_file \<Rightarrow> table \<Rightarrow> image res" where
  "given_image w k kind f t =
     (if kind = ''stock'' then stock_image (w_sha w) f t
      else (case k_stable k of
          None \<Rightarrow> refuse ''a GrapheneOS kit or an Andrix zip needs --stable and --avbtool''
        | Some stab \<Rightarrow>
            if \<not> k_avbtool k then refuse ''a GrapheneOS kit or an Andrix zip needs --stable and --avbtool''
            else if kind = ''grapheneos'' then bnd (grapheneos_kit w k stab f) (\<lambda>(i, fw). Inr i)
            else andrix_image w k stab f t))"

section \<open>The approval\<close>

record approval =
  ap_session :: json
  ap_date :: json
  ap_artifacts :: "(json, session) dict"

definition APPROVAL_KEYS :: "string list" where
  "APPROVAL_KEYS = [''schema'', ''session'', ''date'', ''artifacts'']"

definition ARTIFACT_KEYS :: "string list" where
  "ARTIFACT_KEYS = [''sha256'', ''kind'', ''wipes_data'']"

definition add_artifact :: "(json, session) dict \<Rightarrow> json \<Rightarrow> (json, session) dict res" where
  "add_artifact arts v = (case v of
     JDict e \<Rightarrow>
       if \<not> keys_are e ARTIFACT_KEYS \<or> \<not> matches SHA256 (py_str (jget e ''sha256''))
         \<or> jget e ''kind'' \<notin> JStr ` set KINDS \<or> \<not> is_bool (jget e ''wipes_data'')
       then refuse ''approval entry is not sha256, kind and wipes_data''
       else if dget arts (jget e ''sha256'') \<noteq> None then refuse ''the approval names an artifact twice''
       else Inr (dput (jget e ''sha256'') e arts)
   | _ \<Rightarrow> refuse ''approval entry is not sha256, kind and wipes_data'')"

text \<open>The argument is what \<^verbatim>\<open>json.loads\<close> gives for the file's bytes.\<close>

definition load_approval :: "json res \<Rightarrow> approval res" where
  "load_approval loaded = (case loaded of
     Inl (ValueError t) \<Rightarrow> refuse ''the approval is not JSON''
   | Inl TypeError \<Rightarrow> refuse ''the approval is not JSON''
   | Inl e \<Rightarrow> Inl e
   | Inr (JDict d) \<Rightarrow>
       if jget d ''schema'' \<noteq> JStr APPROVAL_SCHEMA then refuse ''the approval is no such document''
       else if \<not> keys_are d APPROVAL_KEYS then refuse ''the approval holds exactly schema, session, date and artifacts''
       else if \<not> matches SESSION_ID (py_str (jget d ''session'')) then refuse ''the approval names no plain session''
       else bnd (check_day (jget d ''date'')) (\<lambda>day.
         (case jget d ''artifacts'' of
            JList es \<Rightarrow>
              if es = [] then refuse ''the approval names no artifact''
              else bnd (fold_res add_artifact [] es) (\<lambda>arts.
                Inr \<lparr>ap_session = jget d ''session'', ap_date = JStr day, ap_artifacts = arts\<rparr>)
          | _ \<Rightarrow> refuse ''the approval names no artifact''))
   | Inr _ \<Rightarrow> refuse ''the approval is no such document'')"

section \<open>The decision\<close>

definition firmware_match ::
  "readings \<Rightarrow> release list \<Rightarrow> table \<Rightarrow> string \<Rightarrow> (android_info \<Rightarrow> string) \<Rightarrow> string list res" where
  "firmware_match rs known t name key =
     bnd (item rs name) (\<lambda>r. (case rvalue r of
        None \<Rightarrow> refuse ''is unanswered, so it matches no known release''
      | Some v \<Rightarrow>
          bnd (map_res (\<lambda>k. case dget (t_versions t) (base k) of
              None \<Rightarrow> refuse ''no adevtool record gives the versions of a known release''
            | Some i \<Rightarrow> Inr (if key i = v then [number k] else [])) known) (\<lambda>found.
            if concat found = [] then refuse ''reads what none of the known releases records''
            else Inr (sorted_set (concat found)))))"

definition check_firmware :: "readings \<Rightarrow> release list \<Rightarrow> table \<Rightarrow> (string, string list) dict res" where
  "check_firmware rs known t =
     bnd (firmware_match rs known t ''version-bootloader'' bootloader) (\<lambda>b.
     bnd (firmware_match rs known t ''version-baseband'' baseband) (\<lambda>m.
       Inr [(''version-bootloader'', b), (''version-baseband'', m)]))"

definition criterion :: "image \<Rightarrow> release \<Rightarrow> table \<Rightarrow> string res" where
  "criterion i reference t =
     (if newer (irelease i) reference then Inr ''newer''
      else (case dget (t_stock t) (base reference) of
          None \<Rightarrow> refuse ''no supplied record gives the stock build of the reference''
        | Some stock \<Rightarrow>
            if istock i \<noteq> stock then refuse ''is not newer, and its stock build is another one''
            else Inr ''same stock build''))"

record decide_args =
  da_table :: table
  da_tags :: "string list"
  da_readings :: readings
  da_stage :: int
  da_os_booted :: bool
  da_update_pending :: string
  da_channel :: string
  da_approval :: approval
  da_stable :: "release option"
  da_fetched :: "string option"
  da_now :: string
  da_max_age :: int

record decision =
  d_verdict :: string
  d_branch :: string
  d_exception :: bool
  d_phone :: release
  d_known :: "string list"
  d_matches :: "(string, string list) dict"
  d_taken :: string
  d_covered :: "string list"
  d_conditions :: "string list"
  d_recorded :: "session option"

definition decide_guards :: "image \<Rightarrow> decide_args \<Rightarrow> json \<Rightarrow> session res" where
  "decide_guards i a sv =
     (if da_update_pending a \<notin> set [''yes'', ''no'', ''unknown'']
      then refuse ''whether the OS booted and whether an update is pending must be stated''
      else if da_channel a \<noteq> ''stable'' then refuse ''this plan requires Stable''
      else bnd (check_session sv) (\<lambda>s.
        bnd (jitem s ''session'') (\<lambda>name.
        bnd (jitem s ''date'') (\<lambda>day.
          if \<not> py_eq (ap_session (da_approval a)) name \<or> \<not> py_eq (ap_date (da_approval a)) day
          then refuse ''the approval does not name the session''
          else if da_stage a = 3 then refuse ''nothing is written in stage 3''
          else if ikind i = ''andrix'' \<and> da_stage a < 8 then refuse ''no Andrix image is written before stage 8''
          else if da_os_booted a \<and> da_update_pending a \<noteq> ''no''
          then refuse ''stop point 1: an update is pending or its state is unknown''
          else Inr s))))"

definition readings_time :: "decide_args \<Rightarrow> session \<Rightarrow> string res" where
  "readings_time a s =
     bnd (item (da_readings a) ''taken-at'') (\<lambda>r.
     bnd (check_time (case rvalue r of None \<Rightarrow> JNull | Some t \<Rightarrow> JStr t)) (\<lambda>taken.
     bnd (check_time (JStr (da_now a))) (\<lambda>now.
       if taken > now then refuse ''the readings are dated after now; check the clock''
       else if \<not> (1 \<le> da_max_age a \<and> da_max_age a \<le> READINGS_MAX_AGE_LIMIT)
       then refuse ''the maximum age of readings is 1 to 15 minutes''
       else if \<not> within_minutes (da_max_age a) taken now then refuse ''the readings are too old; take fresh readings''
       else
         bnd (text_item ''started_at'' (JDict s)) (\<lambda>started.
         bnd (list_item s ''allowed'') (\<lambda>es.
         bnd (case last_opt es of None \<Rightarrow> Inr None | Some e \<Rightarrow> bnd (text_item ''at'' e) (\<lambda>t. Inr (Some t))) (\<lambda>at.
           if taken < started \<or> (case at of None \<Rightarrow> False | Some t \<Rightarrow> taken \<le> t)
           then refuse ''the readings were taken before the session start or its last ALLOW''
           else Inr taken))))))"

definition allow_entry :: "image \<Rightarrow> string \<Rightarrow> session" where
  "allow_entry i now = [(''release'', JStr (number (irelease i))), (''sha256'', JStr (isha i)), (''kind'', JStr (ikind i)), (''at'', JStr now)]"

definition approve :: "decision \<Rightarrow> image \<Rightarrow> approval \<Rightarrow> session \<Rightarrow> string \<Rightarrow> (decision \<times> session) res" where
  "approve d i ap s now = (case dget (ap_artifacts ap) (JStr (isha i)) of
     None \<Rightarrow> Inr (d\<lparr>d_verdict := ''WAIT''\<rparr>, s)
   | Some e \<Rightarrow>
       bnd (jitem e ''kind'') (\<lambda>k. bnd (jitem e ''wipes_data'') (\<lambda>wipes.
         if k \<noteq> JStr (ikind i) \<or> wipes \<noteq> JBool (iwipes i) then refuse ''the approval names it as another kind or wipe effect''
         else bnd (list_item s ''allowed'') (\<lambda>es.
           let s' = dput ''allowed'' (JList (es @ [JDict (allow_entry i now)])) s in
           bnd (check_session (JDict s')) (\<lambda>_.
             Inr (d\<lparr>d_verdict := ''ALLOW'', d_recorded := Some (allow_entry i now)\<rparr>, s'))))))"

text \<open>The exception while an update may be pending: only the current stable official release.\<close>

definition pending_stable :: "image \<Rightarrow> release \<Rightarrow> decide_args \<Rightarrow> string list res" where
  "pending_stable i reference a = (case (da_stable a, da_fetched a) of
     (Some cur, Some fetched) \<Rightarrow>
       if fetched = [] then refuse ''caiman-stable read at this moment is needed''
       else bnd (check_fetch fetched (da_now a)) (\<lambda>_.
         if ikind i \<noteq> ''grapheneos'' then refuse ''only the current stable official GrapheneOS release may be written''
         else if \<not> same_release (irelease i) cur then refuse ''only the current stable release or its security preview may be written''
         else if newer reference cur then refuse ''the release of the phone counts as newer than the current stable release''
         else check_coverage (da_table a) (da_tags a) reference (irelease i))
   | _ \<Rightarrow> refuse ''caiman-stable read at this moment is needed'')"

definition decide :: "image \<Rightarrow> decide_args \<Rightarrow> json \<Rightarrow> (decision \<times> session) res" where
  "decide i a sv =
     bnd (decide_guards i a sv) (\<lambda>s.
     bnd (readings_time a s) (\<lambda>taken.
     bnd (stop_point_3 (da_readings a) (da_stage a) (da_os_booted a)) (\<lambda>p3.
       if \<not> continue p3 then refuse ''stop point 3''
       else
         bnd (known_releases s) (\<lambda>known.
         bnd (bnd (phone_release s) (\<lambda>r. case r of None \<Rightarrow> Inl AttributeError | Some x \<Rightarrow> Inr x)) (\<lambda>reference.
         bnd (check_firmware (da_readings a) known (da_table a)) (\<lambda>matched.
           let d = \<lparr>d_verdict = [], d_branch = [], d_exception = \<not> da_os_booted a, d_phone = reference,
             d_known = sorted_set (map number known), d_matches = matched, d_taken = taken, d_covered = [],
             d_conditions = [], d_recorded = None\<rparr>
           in if \<not> da_os_booted a \<and> (da_update_pending a \<noteq> ''no'' \<or> restricted p3)
              then bnd (pending_stable i reference a) (\<lambda>covered.
                approve (d\<lparr>d_branch := ''current stable'', d_covered := covered, d_conditions := [ONLY_OFFICIAL]\<rparr>)
                  i (da_approval a) s (da_now a))
              else bnd (check_coverage (da_table a) (da_tags a) reference (irelease i)) (\<lambda>covered.
                bnd (criterion i reference (da_table a)) (\<lambda>branch.
                  approve (d\<lparr>d_branch := branch, d_covered := covered\<rparr>) i (da_approval a) s (da_now a)))))))))"

text \<open>Gate step 8 at the desk: the way back judged against the build's base tag, without a phone.\<close>

definition desk :: "image \<Rightarrow> table \<Rightarrow> string list \<Rightarrow> string \<Rightarrow> (string list \<times> string) res" where
  "desk i t tags base_tag =
     (if ikind i = ''andrix'' then refuse ''the desk check judges way back kits''
      else bnd (parse_release (JStr base_tag) False) (\<lambda>tag.
        if dget (t_versions t) (base tag) = None then refuse ''no adevtool record for the base tag''
        else bnd (check_coverage t tags tag (irelease i)) (\<lambda>covered.
          if ikind i = ''grapheneos''
          then (if newer tag (irelease i) then refuse ''the GrapheneOS kit is older than the base tag''
                else Inr (covered, ''no older than the base tag''))
          else bnd (criterion i tag t) (\<lambda>branch. Inr (covered, branch)))))"

section \<open>Tables\<close>

definition table_le :: "table \<Rightarrow> table \<Rightarrow> bool" where
  "table_le t u \<longleftrightarrow> (\<forall>k v. dget (t_stock t) k = Some v \<longrightarrow> dget (t_stock u) k = Some v \<and> dget (t_versions u) k = dget (t_versions t) k) \<and>
     (\<forall>k v. dget (t_builds t) k = Some v \<longrightarrow> dget (t_builds u) k = Some v)"

lemma table_le_refl [simp]: "table_le t t"
  by (simp add: table_le_def)

lemma table_le_trans: "table_le t u \<Longrightarrow> table_le u v \<Longrightarrow> table_le t v"
  unfolding table_le_def by (metis (no_types, lifting))

definition recorded :: "bases \<Rightarrow> table \<Rightarrow> json \<Rightarrow> bool" where
  "recorded bases t v \<longleftrightarrow> (\<exists>r. validate_record bases v = Inr r \<and> dget (t_stock t) (base (v_release r)) = Some (v_stock r) \<and>
     dget (t_versions t) (base (v_release r)) = Some (v_info r) \<and>
     (\<forall>kv \<in> set (v_builds r). \<exists>e. dget (t_builds t) (fst kv) = Some e \<and> (e = snd kv \<or> py_eq e (snd kv))))"

lemma recorded_mono: "recorded bases t v \<Longrightarrow> table_le t u \<Longrightarrow> recorded bases u v"
  unfolding recorded_def table_le_def by metis

lemma add_builds:
  assumes "fold_res add_build bs kvs = Inr cs"
  shows "(\<forall>k e. dget bs k = Some e \<longrightarrow> dget cs k = Some e) \<and>
    (\<forall>kv \<in> set kvs. \<exists>e. dget cs (fst kv) = Some e \<and> (e = snd kv \<or> py_eq e (snd kv)))"
  using assms
proof (induction kvs arbitrary: bs)
  case (Cons kv kvs)
  from Cons.prems obtain ds where ds: "add_build bs kv = Inr ds" "fold_res add_build ds kvs = Inr cs" by (auto simp: bnd_eq_Inr)
  from ds(1) have "(\<forall>k e. dget bs k = Some e \<longrightarrow> dget ds k = Some e) \<and> (\<exists>e. dget ds (fst kv) = Some e \<and> (e = snd kv \<or> py_eq e (snd kv)))"
    by (auto simp: add_build_def dget_dput split: option.split_asm if_split_asm)
  with Cons.IH [OF ds(2)] show ?case by auto
qed simp

lemma add_recordD:
  assumes "add_record projects sha bases g rq t v = Inr u"
  shows "table_le t u" and "recorded bases u v"
    and "case g of None \<Rightarrow> True | Some p \<Rightarrow> is_ok (bind_record projects sha bases p (dict_of v))"
    and "rq \<longrightarrow> py_eq (jget (dict_of v) ''tree_head'') (jget (dict_of v) ''adevtool_revision'')"
proof -
  from assms obtain r where r: "validate_record bases v = Inr r"
    and h: "\<not> (rq \<and> \<not> py_eq (jget (dict_of v) ''tree_head'') (jget (dict_of v) ''adevtool_revision''))"
    and g: "(case g of None \<Rightarrow> Inr () | Some p \<Rightarrow> bnd (bind_record projects sha bases p (dict_of v)) (\<lambda>_. Inr ())) = Inr ()"
    and c: "\<not> (dget (t_stock t) (base (v_release r)) \<noteq> None \<and>
        (dget (t_stock t) (base (v_release r)), dget (t_versions t) (base (v_release r))) \<noteq> (Some (v_stock r), Some (v_info r)))"
    and b: "fold_res add_build (t_builds t) (v_builds r) = Inr (t_builds u)"
    and u: "t_stock u = dput (base (v_release r)) (v_stock r) (t_stock t)" "t_versions u = dput (base (v_release r)) (v_info r) (t_versions t)"
    unfolding add_record_def bnd_eq_Inr Let_def if_Inl_eq_Inr by fastforce
  note add_builds [OF b]
  with c u show "table_le t u" by (auto simp: table_le_def dget_dput)
  show "recorded bases u v" using r u add_builds [OF b] by (auto simp: recorded_def dget_dput)
  show "case g of None \<Rightarrow> True | Some p \<Rightarrow> is_ok (bind_record projects sha bases p (dict_of v))"
    using g by (auto simp: is_ok_iff bnd_eq_Inr split: option.splits)
  show "rq \<longrightarrow> py_eq (jget (dict_of v) ''tree_head'') (jget (dict_of v) ''adevtool_revision'')" using h by blast
qed

lemma add_records:
  assumes "fold_res (add_record projects sha bases g rq) t vs = Inr u"
  shows "table_le t u \<and> (\<forall>v \<in> set vs. recorded bases u v \<and>
    (case g of None \<Rightarrow> True | Some p \<Rightarrow> is_ok (bind_record projects sha bases p (dict_of v))))"
  using assms
proof (induction vs arbitrary: t)
  case (Cons v vs)
  from Cons.prems obtain m where m: "add_record projects sha bases g rq t v = Inr m"
    "fold_res (add_record projects sha bases g rq) m vs = Inr u" by (auto simp: bnd_eq_Inr)
  note first = add_recordD [OF m(1)] and rest = Cons.IH [OF m(2)]
  have "table_le t u" using first(1) rest table_le_trans by blast
  moreover have "recorded bases u v" using first(2) rest recorded_mono by blast
  ultimately show ?case using first(3) rest by simp
qed simp

section \<open>What a decision rests on\<close>

lemma list_item_Inr [res_simps]: "list_item d k = Inr xs \<longleftrightarrow> dget d k = Some (JList xs)"
proof (cases "dget d k")
  case (Some v)
  then show ?thesis by (cases v) (simp_all add: list_item_def jitem_def)
qed (simp add: list_item_def jitem_def)

lemma text_item_iff: "text_item k e = Inr t \<longleftrightarrow> entry_item k e = Inr (JStr t)"
proof (cases "entry_item k e")
  case (Inr v)
  then show ?thesis by (cases v) (simp_all add: text_item_def)
qed (simp add: text_item_def)

lemma text_item_Inr [res_simps]: "text_item k (JDict d) = Inr t \<longleftrightarrow> dget d k = Some (JStr t)"
  by (simp add: text_item_iff entry_item_def jitem_Inr)

lemma approveE:
  assumes "approve d i ap s now = Inr (d', s')"
  obtains "d' = d\<lparr>d_verdict := ''WAIT''\<rparr>" "s' = s" "dget (ap_artifacts ap) (JStr (isha i)) = None"
  | e es where "d' = d\<lparr>d_verdict := ''ALLOW'', d_recorded := Some (allow_entry i now)\<rparr>"
      "dget (ap_artifacts ap) (JStr (isha i)) = Some e" "dget e ''kind'' = Some (JStr (ikind i))"
      "dget e ''wipes_data'' = Some (JBool (iwipes i))" "dget s ''allowed'' = Some (JList es)"
      "s' = dput ''allowed'' (JList (es @ [JDict (allow_entry i now)])) s" "check_session (JDict s') = Inr s'"
proof (cases "dget (ap_artifacts ap) (JStr (isha i))")
  case None
  with assms that(1) show thesis by (auto simp: approve_def)
next
  case (Some e)
  from assms [unfolded approve_def Some option.case bnd_eq_Inr if_Inl_eq_Inr Let_def]
  obtain k w es where e: "jitem e ''kind'' = Inr k" "jitem e ''wipes_data'' = Inr w" "k = JStr (ikind i)" "w = JBool (iwipes i)"
    "list_item s ''allowed'' = Inr es" "s' = dput ''allowed'' (JList (es @ [JDict (allow_entry i now)])) s"
    "is_ok (check_session (JDict s'))" "d' = d\<lparr>d_verdict := ''ALLOW'', d_recorded := Some (allow_entry i now)\<rparr>"
    by (auto simp: is_ok_iff)
  from e(5) have "dget s ''allowed'' = Some (JList es)" by (simp add: list_item_Inr)
  moreover from e(7) have "check_session (JDict s') = Inr s'" by (auto simp: is_ok_iff dest: check_session_id)
  ultimately show thesis using that(2) [of e es] Some e by (simp add: jitem_Inr)
qed

lemma decideE:
  assumes "decide i a sv = Inr (d, s')"
  obtains s taken p3 known phone matched d0 where "decide_guards i a sv = Inr s" "readings_time a s = Inr taken"
    "stop_point_3 (da_readings a) (da_stage a) (da_os_booted a) = Inr p3" "continue p3" "known_releases s = Inr known"
    "phone_release s = Inr (Some phone)" "check_firmware (da_readings a) known (da_table a) = Inr matched"
    "approve d0 i (da_approval a) s (da_now a) = Inr (d, s')" "d_phone d0 = phone" "d_matches d0 = matched"
    "if \<not> da_os_booted a \<and> (da_update_pending a \<noteq> ''no'' \<or> restricted p3)
      then pending_stable i phone a = Inr (d_covered d0) \<and> d_branch d0 = ''current stable'' \<and> d_conditions d0 = [ONLY_OFFICIAL]
      else check_coverage (da_table a) (da_tags a) phone (irelease i) = Inr (d_covered d0) \<and> criterion i phone (da_table a) = Inr (d_branch d0)"
proof -
  from assms obtain s taken p3 known phone matched where m: "decide_guards i a sv = Inr s" "readings_time a s = Inr taken"
    "stop_point_3 (da_readings a) (da_stage a) (da_os_booted a) = Inr p3" "\<not> \<not> continue p3" "known_releases s = Inr known"
    "bnd (phone_release s) (\<lambda>r. case r of None \<Rightarrow> Inl AttributeError | Some x \<Rightarrow> Inr x) = Inr phone"
    "check_firmware (da_readings a) known (da_table a) = Inr matched"
    and rest: "(let d0 = \<lparr>d_verdict = [], d_branch = [], d_exception = \<not> da_os_booted a, d_phone = phone,
             d_known = sorted_set (map number known), d_matches = matched, d_taken = taken, d_covered = [],
             d_conditions = [], d_recorded = None\<rparr>
           in if \<not> da_os_booted a \<and> (da_update_pending a \<noteq> ''no'' \<or> restricted p3)
              then bnd (pending_stable i phone a) (\<lambda>covered.
                approve (d0\<lparr>d_branch := ''current stable'', d_covered := covered, d_conditions := [ONLY_OFFICIAL]\<rparr>)
                  i (da_approval a) s (da_now a))
              else bnd (check_coverage (da_table a) (da_tags a) phone (irelease i)) (\<lambda>covered.
                bnd (criterion i phone (da_table a)) (\<lambda>branch.
                  approve (d0\<lparr>d_branch := branch, d_covered := covered\<rparr>) i (da_approval a) s (da_now a)))) = Inr (d, s')"
    unfolding decide_def bnd_eq_Inr if_Inl_eq_Inr by blast
  from m(6) have phone: "phone_release s = Inr (Some phone)" by (auto simp: bnd_eq_Inr split: option.split_asm)
  show thesis
  proof (cases "\<not> da_os_booted a \<and> (da_update_pending a \<noteq> ''no'' \<or> restricted p3)")
    case True
    from rest [unfolded Let_def if_P [OF True] bnd_eq_Inr] obtain covered where c: "pending_stable i phone a = Inr covered"
      "approve \<lparr>d_verdict = [], d_branch = ''current stable'', d_exception = \<not> da_os_booted a, d_phone = phone,
         d_known = sorted_set (map number known), d_matches = matched, d_taken = taken, d_covered = covered,
         d_conditions = [ONLY_OFFICIAL], d_recorded = None\<rparr> i (da_approval a) s (da_now a) = Inr (d, s')"
      by auto
    show thesis by (rule that [OF m(1-3) _ m(5) phone m(7) c(2)]) (use m(4) True c(1) in auto)
  next
    case False
    from rest [unfolded Let_def if_not_P [OF False] bnd_eq_Inr] obtain covered branch where c: "check_coverage (da_table a) (da_tags a) phone (irelease i) = Inr covered"
      "criterion i phone (da_table a) = Inr branch"
      "approve \<lparr>d_verdict = [], d_branch = branch, d_exception = \<not> da_os_booted a, d_phone = phone,
         d_known = sorted_set (map number known), d_matches = matched, d_taken = taken, d_covered = covered,
         d_conditions = [], d_recorded = None\<rparr> i (da_approval a) s (da_now a) = Inr (d, s')"
      by auto
    show thesis by (rule that [OF m(1-3) _ m(5) phone m(7) c(3)]) (use m(4) False c(1,2) in auto)
  qed
qed

lemma decide_guardsE:
  assumes "decide_guards i a sv = Inr s"
  obtains name day where "check_session sv = Inr s" "da_channel a = ''stable''" "da_stage a \<noteq> 3" "dget s ''session'' = Some name"
    "dget s ''date'' = Some day" "py_eq (ap_session (da_approval a)) name" "py_eq (ap_date (da_approval a)) day"
    "ikind i = ''andrix'' \<longrightarrow> 8 \<le> da_stage a" "da_os_booted a \<longrightarrow> da_update_pending a = ''no''"
  using assms unfolding decide_guards_def bnd_eq_Inr if_Inl_eq_Inr jitem_Inr sum.inject
  by (elim conjE exE) (rule that; simp; linarith?)

lemma firmware_matchD:
  assumes "firmware_match rs known t name key = Inr ns"
  shows "\<exists>r v k info. dget rs name = Some r \<and> rvalue r = Some v \<and> k \<in> set known \<and> dget (t_versions t) (base k) = Some info \<and> key info = v"
proof -
  from assms obtain r v found where r: "dget rs name = Some r" "rvalue r = Some v" "concat found \<noteq> []"
    "map_res (\<lambda>k. case dget (t_versions t) (base k) of
              None \<Rightarrow> refuse ''no adevtool record gives the versions of a known release''
            | Some i \<Rightarrow> Inr (if key i = v then [number k] else [])) known = Inr found"
    unfolding firmware_match_def bnd_eq_Inr item_Inr
    by (auto simp: bnd_eq_Inr simp del: concat_eq_Nil_conv split: option.split_asm if_split_asm)
  from r(3) obtain ys where "ys \<in> set found" "ys \<noteq> []" by auto
  with map_res_mem [OF r(4)] r(1,2) show ?thesis by (fastforce split: option.split_asm if_split_asm)
qed

lemma check_firmwareD:
  assumes "check_firmware rs known t = Inr m"
  shows "\<exists>r v k info. dget rs ''version-bootloader'' = Some r \<and> rvalue r = Some v \<and> k \<in> set known \<and>
      dget (t_versions t) (base k) = Some info \<and> bootloader info = v"
    and "\<exists>r v k info. dget rs ''version-baseband'' = Some r \<and> rvalue r = Some v \<and> k \<in> set known \<and>
      dget (t_versions t) (base k) = Some info \<and> baseband info = v"
  using assms firmware_matchD [of rs known t "''version-bootloader''" bootloader]
    firmware_matchD [of rs known t "''version-baseband''" baseband]
  unfolding check_firmware_def bnd_eq_Inr by blast+

lemma readings_timeD:
  assumes "readings_time a s = Inr taken" and "check_session sv = Inr s"
  shows "\<exists>r. dget (da_readings a) ''taken-at'' = Some r \<and> rvalue r = Some taken \<and> is_time taken \<and> is_time (da_now a) \<and>
    taken \<le> da_now a \<and> within_minutes 15 taken (da_now a) \<and> (\<exists>started. dget s ''started_at'' = Some (JStr started) \<and> started \<le> taken) \<and>
    (\<exists>last es. last_entry s = Inr (JStr last) \<and> last \<le> taken \<and> dget s ''allowed'' = Some (JList es) \<and> (es \<noteq> [] \<longrightarrow> last < taken))"
proof -
  from assms(1) obtain r now started es at where r: "dget (da_readings a) ''taken-at'' = Some r"
    "check_time (case rvalue r of None \<Rightarrow> JNull | Some t \<Rightarrow> JStr t) = Inr taken" "check_time (JStr (da_now a)) = Inr now"
    "\<not> taken > now" "1 \<le> da_max_age a \<and> da_max_age a \<le> READINGS_MAX_AGE_LIMIT" "within_minutes (da_max_age a) taken now"
    "dget s ''started_at'' = Some (JStr started)" "dget s ''allowed'' = Some (JList es)"
    "(case last_opt es of None \<Rightarrow> Inr None | Some e \<Rightarrow> bnd (text_item ''at'' e) (\<lambda>t. Inr (Some t))) = Inr at"
    "\<not> (taken < started \<or> (case at of None \<Rightarrow> False | Some t \<Rightarrow> taken \<le> t))"
    unfolding readings_time_def bnd_eq_Inr if_Inl_eq_Inr item_Inr text_item_Inr list_item_Inr not_not by blast
  have t: "rvalue r = Some taken" "is_time taken" using r(2) by (auto simp: check_time_iff split: option.split_asm)
  have n: "now = da_now a" "is_time (da_now a)" using r(3) by (auto simp: check_time_iff)
  have w: "within_minutes 15 taken now" using r(5,6) by (auto simp: within_minutes_def READINGS_MAX_AGE_LIMIT_def)
  from assms(2) obtain st at' where c: "dget s ''started_at'' = Some (JStr st)" "fold_res check_entry st es = Inr at'"
    using r(8) by (auto elim!: check_sessionE)
  have l: "list_item s ''allowed'' = Inr es" by (simp add: list_item_Inr r(8))
  have "\<exists>last. last_entry s = Inr (JStr last) \<and> last \<le> taken \<and> (es \<noteq> [] \<longrightarrow> last < taken)"
  proof (cases "last_opt es")
    case None
    then have "last_entry s = Inr (JStr started)" by (simp add: last_entry_def l jitem_def r(7) del: last_opt_None)
    with None show ?thesis using r(10) by auto
  next
    case (Some e)
    from check_entries [OF c(2)] Some have e: "entry_item ''at'' e = Inr (JStr at')" by auto
    with r(9) Some have "at = Some at'" by (auto simp: text_item_def)
    moreover have "last_entry s = Inr (JStr at')" using e by (simp add: last_entry_def l Some)
    ultimately show ?thesis using r(10) by auto
  qed
  with r t n w show ?thesis by auto
qed

lemma covered_recorded:
  "check_coverage t tags a b = Inr c \<longleftrightarrow> base a \<in> set tags \<and> base b \<in> set tags \<and>
     c = filter (\<lambda>n. min (nat_of (base a)) (nat_of (base b)) \<le> nat_of n \<and> nat_of n \<le> max (nat_of (base a)) (nat_of (base b))) tags \<and>
     list_all (\<lambda>n. dget (t_stock t) n \<noteq> None) c"
  by (cases "nat_of (base a) \<le> nat_of (base b)")
    (auto simp: check_coverage_def low_high_def Let_def min_def max_def filter_empty_conv list_all_iff)

lemma decide_criterion:
  assumes "if \<not> da_os_booted a \<and> (da_update_pending a \<noteq> ''no'' \<or> restricted p3)
      then pending_stable i phone a = Inr c \<and> X
      else check_coverage (da_table a) (da_tags a) phone (irelease i) = Inr c \<and> criterion i phone (da_table a) = Inr br"
  shows "check_coverage (da_table a) (da_tags a) phone (irelease i) = Inr c"
    and "newer (irelease i) phone \<or> dget (t_stock (da_table a)) (base phone) = Some (istock i) \<or>
      \<not> da_os_booted a \<and> ikind i = ''grapheneos'' \<and> (\<exists>cur. da_stable a = Some cur \<and> same_release (irelease i) cur \<and> \<not> newer phone cur)"
proof -
  have p: "check_coverage (da_table a) (da_tags a) phone (irelease i) = Inr c \<and> ikind i = ''grapheneos'' \<and>
      (\<exists>cur. da_stable a = Some cur \<and> same_release (irelease i) cur \<and> \<not> newer phone cur)" if "pending_stable i phone a = Inr c"
    using that unfolding pending_stable_def by (auto simp: bnd_eq_Inr split: option.split_asm if_split_asm)
  have q: "newer (irelease i) phone \<or> dget (t_stock (da_table a)) (base phone) = Some (istock i)" if "criterion i phone (da_table a) = Inr br"
    using that by (auto simp: criterion_def split: option.split_asm if_split_asm)
  show "check_coverage (da_table a) (da_tags a) phone (irelease i) = Inr c" using assms p by (auto split: if_split_asm)
  show "newer (irelease i) phone \<or> dget (t_stock (da_table a)) (base phone) = Some (istock i) \<or>
      \<not> da_os_booted a \<and> ikind i = ''grapheneos'' \<and> (\<exists>cur. da_stable a = Some cur \<and> same_release (irelease i) cur \<and> \<not> newer phone cur)"
    using assms p q by (auto split: if_split_asm)
qed

lemma current_not_older: "same_release i cur \<Longrightarrow> \<not> newer phone cur \<Longrightarrow> \<not> newer phone i"
  by (simp add: same_release_def newer_def)

lemma known_allowed:
  assumes "check_session (JDict s) = Inr s" "known_releases s = Inr known" "dget s ''allowed'' = Some (JList es)" "wf_release (irelease i)"
  shows "known_releases (dput ''allowed'' (JList (es @ [JDict (allow_entry i now)])) s) = Inr (known @ [irelease i])"
proof -
  let ?s = "dput ''allowed'' (JList (es @ [JDict (allow_entry i now)])) s"
  from assms(2) obtain ns where ns: "known_numbers s = Inr ns" "map_res (\<lambda>n. parse_release n True) ns = Inr known"
    by (auto simp: known_releases_def bnd_eq_Inr)
  have "known_numbers ?s = Inr (ns @ [JStr (number (irelease i))])"
    using ns(1) assms(3) by (auto simp: known_numbers_def bnd_eq_Inr jitem_Inr list_item_Inr dget_dput map_res_append
      entry_item_def allow_entry_def jitem_def list_item_def)
  then show ?thesis using ns(2) wf_release_parse [OF assms(4)] by (simp add: known_releases_def map_res_append)
qed

section \<open>The properties\<close>

definition sample_table :: table where
  "sample_table = \<lparr>t_stock = [(''2026010200'', ''BP4A.260105.004''), (''2026010300'', ''BP4A.260105.004.E1'')],
     t_versions = [(''2026010200'', sample_info), (''2026010300'', sample_info)], t_builds = []\<rparr>"

definition sample_image :: image where
  "sample_image = \<lparr>ikind = ''grapheneos'', isha = replicate 64 CHR ''1'', irelease = \<lparr>number = ''2026010300'', base = ''2026010300'', preview = False\<rparr>,
     istock = ''BP4A.260105.004.E1'', iinfo = sample_info, isource = ''the signed build number inside the zip'', iwipes = True\<rparr>"

definition sample_answers :: readings where
  "sample_answers = map (\<lambda>(k, v). (k, answer k v))
     [(''taken-at'', ''2026-01-02T03:10:00Z''), (''product'', ''caiman''), (''is-userspace'', ''no''),
      (''version-bootloader'', ''ripcurrentpro-16.0-1''), (''version-baseband'', ''g5400c-1''), (''current-slot'', ''a''),
      (''unlocked'', ''yes''), (''snapshot-update-status'', ''none''), (''get_unlock_ability'', ''1'')]"

definition sample_approval :: approval where
  "sample_approval = \<lparr>ap_session = JStr ''first'', ap_date = JStr ''2026-01-02'',
     ap_artifacts = [(JStr (isha sample_image), [(''sha256'', JStr (isha sample_image)), (''kind'', JStr ''grapheneos''), (''wipes_data'', JBool True)])]\<rparr>"

definition sample_request :: decide_args where
  "sample_request = \<lparr>da_table = sample_table, da_tags = [''2026010200'', ''2026010300''], da_readings = sample_answers, da_stage = 8,
     da_os_booted = True, da_update_pending = ''no'', da_channel = ''stable'', da_approval = sample_approval,
     da_stable = None, da_fetched = None, da_now = ''2026-01-02T03:12:00Z'', da_max_age = 15\<rparr>"

lemma sample_decides:
  "case decide sample_image sample_request (JDict sample_first) of Inl e \<Rightarrow> False | Inr (d, s) \<Rightarrow> d_verdict d = ''ALLOW''"
  by code_simp

lemma sample_decidesE:
  obtains d s where "decide sample_image sample_request (JDict sample_first) = Inr (d, s)" "d_verdict d = ''ALLOW''"
  using sample_decides by (auto split: sum.split_asm)

text \<open>
  C1: No decision approves older firmware. Whatever the answer, an image that decide does not refuse is newer than
  the newest release that the session knows, or has that release's stock build, or is, in a phone that does not
  boot, the official kit of the current stable release, which is then not older than that release; both firmware
  readings are versions that releases known to the session record, and every signed tag from the phone's release
  to the image's has a record. So an image of an older release is let through only with the same stock build.
\<close>

theorem decide_no_older_firmware:
  assumes "decide i a sv = Inr (d, s')"
  shows "\<exists>s known phone. check_session sv = Inr s \<and> known_releases s = Inr known \<and> newest known = Some phone \<and>
    (newer (irelease i) phone \<or> dget (t_stock (da_table a)) (base phone) = Some (istock i) \<or>
      \<not> da_os_booted a \<and> ikind i = ''grapheneos'' \<and> (\<exists>cur. da_stable a = Some cur \<and> same_release (irelease i) cur \<and> \<not> newer phone cur)) \<and>
    (newer phone (irelease i) \<longrightarrow> dget (t_stock (da_table a)) (base phone) = Some (istock i)) \<and>
    (\<exists>r k info. dget (da_readings a) ''version-bootloader'' = Some r \<and> k \<in> set known \<and>
      dget (t_versions (da_table a)) (base k) = Some info \<and> rvalue r = Some (bootloader info)) \<and>
    (\<exists>r k info. dget (da_readings a) ''version-baseband'' = Some r \<and> k \<in> set known \<and>
      dget (t_versions (da_table a)) (base k) = Some info \<and> rvalue r = Some (baseband info)) \<and>
    is_ok (check_coverage (da_table a) (da_tags a) phone (irelease i))"
proof -
  from assms obtain s known phone matched and d0 :: decision and p3 :: point3 where
    g: "decide_guards i a sv = Inr s" and k: "known_releases s = Inr known" and ph: "phone_release s = Inr (Some phone)"
    and f: "check_firmware (da_readings a) known (da_table a) = Inr matched"
    and cr: "if \<not> da_os_booted a \<and> (da_update_pending a \<noteq> ''no'' \<or> restricted p3)
      then pending_stable i phone a = Inr (d_covered d0) \<and> d_branch d0 = ''current stable'' \<and> d_conditions d0 = [ONLY_OFFICIAL]
      else check_coverage (da_table a) (da_tags a) phone (irelease i) = Inr (d_covered d0) \<and> criterion i phone (da_table a) = Inr (d_branch d0)"
    by (rule decideE)
  have n: "newest known = Some phone" using ph k by (simp add: phone_release_def)
  have older: "newer phone (irelease i) \<longrightarrow> dget (t_stock (da_table a)) (base phone) = Some (istock i)"
    using decide_criterion(2) [OF cr] current_not_older newer_asym by blast
  from g have "check_session sv = Inr s" by (rule decide_guardsE)
  with k n older decide_criterion [OF cr] check_firmwareD [OF f] show ?thesis by (auto simp: is_ok_iff)
qed

theorem decide_no_older_firmware_witness:
  "\<exists>d s. decide sample_image sample_request (JDict sample_first) = Inr (d, s) \<and> d_verdict d = ''ALLOW'' \<and>
     is_ok (check_session (JDict sample_first))"
proof -
  obtain d s where d: "decide sample_image sample_request (JDict sample_first) = Inr (d, s)" "d_verdict d = ''ALLOW''"
    by (rule sample_decidesE)
  from decide_no_older_firmware [OF d(1)] d show ?thesis by (auto simp: is_ok_iff)
qed

text \<open>
  C3: An ALLOW is bound to this session, its approval and fresh readings. The channel is stable and the stage is not
  3, the approval names the session, its date and the image's SHA-256 with its kind and wipe effect, and the readings
  were taken at most fifteen minutes before the decision, not before the session's start, and after its last ALLOW.
\<close>

theorem decide_allow_bound:
  assumes "decide i a sv = Inr (d, s')" and "d_verdict d = ''ALLOW''"
  shows "\<exists>s name day e taken start at es. sv = JDict s \<and> da_channel a = ''stable'' \<and> da_stage a \<noteq> 3 \<and> (ikind i = ''andrix'' \<longrightarrow> 8 \<le> da_stage a) \<and>
    dget s ''session'' = Some name \<and> dget s ''date'' = Some day \<and> py_eq (ap_session (da_approval a)) name \<and> py_eq (ap_date (da_approval a)) day \<and>
    dget (ap_artifacts (da_approval a)) (JStr (isha i)) = Some e \<and> dget e ''kind'' = Some (JStr (ikind i)) \<and>
    dget e ''wipes_data'' = Some (JBool (iwipes i)) \<and> val_of (da_readings a) ''taken-at'' = Some taken \<and>
    taken \<le> da_now a \<and> within_minutes 15 taken (da_now a) \<and> dget s ''started_at'' = Some (JStr start) \<and> start \<le> taken \<and>
    last_entry s = Inr (JStr at) \<and> at \<le> taken \<and> dget s ''allowed'' = Some (JList es) \<and> (es \<noteq> [] \<longrightarrow> at < taken)"
proof -
  from assms(1) obtain s taken d0 where g: "decide_guards i a sv = Inr s" and rt: "readings_time a s = Inr taken"
    and ap: "approve d0 i (da_approval a) s (da_now a) = Inr (d, s')" by (rule decideE)
  from g obtain name day where gs: "check_session sv = Inr s" "da_channel a = ''stable''" "da_stage a \<noteq> 3" "dget s ''session'' = Some name"
    "dget s ''date'' = Some day" "py_eq (ap_session (da_approval a)) name" "py_eq (ap_date (da_approval a)) day"
    "ikind i = ''andrix'' \<longrightarrow> 8 \<le> da_stage a" by (rule decide_guardsE)
  from ap assms(2) obtain e where e: "dget (ap_artifacts (da_approval a)) (JStr (isha i)) = Some e"
    "dget e ''kind'' = Some (JStr (ikind i))" "dget e ''wipes_data'' = Some (JBool (iwipes i))" by (cases rule: approveE) auto
  from readings_timeD [OF rt gs(1)] obtain r start at es where r: "dget (da_readings a) ''taken-at'' = Some r \<and> rvalue r = Some taken"
    and t: "taken \<le> da_now a" "within_minutes 15 taken (da_now a)"
      "dget s ''started_at'' = Some (JStr start)" "start \<le> taken" "last_entry s = Inr (JStr at)" "at \<le> taken"
      "dget s ''allowed'' = Some (JList es)" "es \<noteq> [] \<longrightarrow> at < taken"
    by blast
  have v: "val_of (da_readings a) ''taken-at'' = Some taken" using r by (simp add: val_of_def)
  note sv = check_session_id [OF gs(1)]
  show ?thesis by (intro exI conjI; (rule sv gs e t v)?)
qed

theorem decide_allow_bound_witness:
  "\<exists>d s taken. decide sample_image sample_request (JDict sample_first) = Inr (d, s) \<and> d_verdict d = ''ALLOW'' \<and>
     val_of sample_answers ''taken-at'' = Some taken \<and> within_minutes 15 taken ''2026-01-02T03:12:00Z''"
proof -
  obtain d s where d: "decide sample_image sample_request (JDict sample_first) = Inr (d, s)" "d_verdict d = ''ALLOW''"
    by (rule sample_decidesE)
  from decide_allow_bound [OF d] d show ?thesis by (auto simp: sample_request_def)
qed

text \<open>
  C2: A decision keeps the session record. A WAIT leaves it as it was; an ALLOW appends exactly one entry, the
  image's release, SHA-256 and kind at the time of the decision, and the extended record is again a checked record
  that knows the image's release as well; so the newest known release, the phone's reference, never gets older.
\<close>

theorem decide_keeps_record:
  assumes "decide i a (JDict s) = Inr (d, s')" and "wf_release (irelease i)"
  shows "check_session (JDict s') = Inr s' \<and>
    (\<exists>phone phone'. phone_release s = Inr (Some phone) \<and> phone_release s' = Inr (Some phone') \<and> \<not> newer phone phone' \<and>
      (d_verdict d = ''ALLOW'' \<longrightarrow> \<not> newer (irelease i) phone')) \<and>
    (d_verdict d = ''WAIT'' \<and> s' = s \<or>
     d_verdict d = ''ALLOW'' \<and> d_recorded d = Some (allow_entry i (da_now a)) \<and>
       (\<exists>known es. known_releases s = Inr known \<and> known_releases s' = Inr (known @ [irelease i]) \<and>
          dget s ''allowed'' = Some (JList es) \<and> s' = dput ''allowed'' (JList (es @ [JDict (allow_entry i (da_now a))])) s))"
proof -
  from assms(1) obtain t known phone d0 where g: "decide_guards i a (JDict s) = Inr t" and k: "known_releases t = Inr known"
    and ph: "phone_release t = Inr (Some phone)"
    and ap: "approve d0 i (da_approval a) t (da_now a) = Inr (d, s')" by (rule decideE)
  from g have c: "check_session (JDict s) = Inr t" by (rule decide_guardsE)
  with check_session_id [OF c] have t: "t = s" "check_session (JDict s) = Inr s" by auto
  have n: "newest known = Some phone" using ph k by (simp add: phone_release_def)
  from ap show ?thesis
  proof (cases rule: approveE)
    case 1
    then show ?thesis using t ph by auto
  next
    case (2 e es)
    have k': "known_releases s' = Inr (known @ [irelease i])"
      unfolding 2(6) using known_allowed [of s known es i] t k 2(5) assms(2) by simp
    from phone_release_checked [OF 2(7)] k' obtain phone' where p: "phone_release s' = Inr (Some phone')" "newest (known @ [irelease i]) = Some phone'"
      by auto
    have "\<not> newer phone phone'" using rel.pick_mono [OF n p(2)] .
    moreover have "\<not> newer (irelease i) phone'" using rel.pick_max [OF p(2)] by simp
    ultimately show ?thesis using 2 t k k' ph p by auto
  qed
qed

theorem decide_keeps_record_witness:
  "\<exists>d s. decide sample_image sample_request (JDict sample_first) = Inr (d, s) \<and> d_verdict d = ''ALLOW'' \<and> check_session (JDict s) = Inr s"
proof -
  obtain d s where d: "decide sample_image sample_request (JDict sample_first) = Inr (d, s)" "d_verdict d = ''ALLOW''"
    by (rule sample_decidesE)
  have "wf_release (irelease sample_image)" by code_simp
  from decide_keeps_record [OF d(1) this] d show ?thesis by auto
qed



section \<open>Only refusals\<close>

definition refuses_only :: "'a res \<Rightarrow> bool" where
  "refuses_only r = (case r of Inl (Refusal t) \<Rightarrow> True | Inl e \<Rightarrow> False | Inr x \<Rightarrow> True)"

named_theorems ro_intros

lemma ro_simps [simp]: "refuses_only (Inr x)" "refuses_only (Inl (Refusal t))"
  by (simp_all add: refuses_only_def)

lemma ro_bnd [ro_intros]: "refuses_only m \<Longrightarrow> (\<And>x. m = Inr x \<Longrightarrow> refuses_only (f x)) \<Longrightarrow> refuses_only (bnd m f)"
  by (cases m) (auto simp: refuses_only_def)

lemma ro_if [ro_intros]: "(c \<Longrightarrow> refuses_only a) \<Longrightarrow> (\<not> c \<Longrightarrow> refuses_only b) \<Longrightarrow> refuses_only (if c then a else b)"
  by simp

lemma ro_map_res [ro_intros]: "(\<And>x. x \<in> set xs \<Longrightarrow> refuses_only (f x)) \<Longrightarrow> refuses_only (map_res f xs)"
  by (induction xs) (auto intro!: ro_bnd)

lemma ro_each_res [ro_intros]: "(\<And>x. x \<in> set xs \<Longrightarrow> refuses_only (f x)) \<Longrightarrow> refuses_only (each_res f xs)"
  by (induction xs) (auto intro!: ro_bnd)

lemma ro_fold_res [ro_intros]: "(\<And>s x. x \<in> set xs \<Longrightarrow> refuses_only (f s x)) \<Longrightarrow> refuses_only (fold_res f s xs)"
  by (induction xs arbitrary: s) (auto intro!: ro_bnd)

lemma ro_parse_release [simp]: "refuses_only (parse_release v ap)"
  by (cases v) (auto simp: parse_release_def Let_def intro!: ro_intros)

lemma ro_check_time [simp]: "refuses_only (check_time v)"
  by (cases v) (auto simp: check_time_def intro!: ro_intros)

lemma ro_check_day [simp]: "refuses_only (check_day v)"
  by (cases v) (auto simp: check_day_def intro!: ro_intros)

lemma ro_parse_build_id [simp]: "refuses_only (parse_build_id v)"
  by (cases v) (auto simp: parse_build_id_def intro!: ro_intros)

lemma ro_android_info_of [simp]: "refuses_only (android_info_of v)"
  by (cases v) (auto simp: android_info_of_def intro!: ro_intros split: jval.splits)

lemma ro_check_stable_entry [simp]: "refuses_only (check_stable_entry d start started)"
  unfolding check_stable_entry_def by (auto intro!: ro_intros split: option.splits jval.splits)

lemma ro_check_verified [simp]: "refuses_only (check_verified d started)"
  unfolding check_verified_def check_identity_entry_def by (auto intro!: ro_intros split: jval.splits prod.splits)

lemma ro_check_carried [simp]: "refuses_only (check_carried d start)"
proof (cases "jget d ''carried''")
  case (JList ns)
  have "refuses_only (case newest rs of None \<Rightarrow> Inl TypeError
      | Some r \<Rightarrow> if newer r start then refuse ''the session start release is older than a carried release'' else Inr ())"
    if "map_res (\<lambda>n. parse_release n True) ns = Inr rs" "ns \<noteq> []" for rs
    using map_res_length [OF that(1)] that(2) rel.pick_None [of rs] by (auto split: option.splits)
  then show ?thesis unfolding check_carried_def JList jval.case by (auto intro!: ro_intros)
qed (simp_all add: check_carried_def del: jget_JStr jget_JList jget_JDict)

lemma ro_check_allowed [simp]: "refuses_only (check_allowed d started)"
  unfolding check_allowed_def check_entry_def by (auto intro!: ro_intros split: jval.splits)

lemma ro_check_session [simp]: "refuses_only (check_session v)"
  unfolding check_session_def by (auto intro!: ro_intros split: jval.splits)

lemma ro_present:
  "dget d k \<noteq> None \<Longrightarrow> refuses_only (jitem d k)"
  "dget rs n \<noteq> None \<Longrightarrow> refuses_only (item rs n)"
  by (auto simp: jitem_def item_def)

lemma ro_check_coverage [simp]: "refuses_only (check_coverage t tags a b)"
  by (auto simp: check_coverage_def Let_def)

lemma ro_criterion [simp]: "refuses_only (criterion i r t)"
  by (auto simp: criterion_def split: option.splits)

lemma ro_pending_stable [simp]: "refuses_only (pending_stable i r a)"
  unfolding pending_stable_def check_fetch_def by (auto intro!: ro_intros split: option.splits)

lemma ro_check_firmware:
  assumes "dget rs ''version-bootloader'' \<noteq> None" "dget rs ''version-baseband'' \<noteq> None"
  shows "refuses_only (check_firmware rs known t)"
  unfolding check_firmware_def firmware_match_def
  by (intro ro_intros ro_present assms; (simp split: option.splits)?; (intro impI allI ro_intros)?; (simp split: option.splits)?)

lemma ro_guards: "refuses_only (decide_guards i a (JDict s))" if "dget s ''session'' \<noteq> None"
proof -
  have "dget s ''date'' \<noteq> None" if "check_session (JDict s) = Inr t" for t
    using that by (auto elim!: check_sessionE)
  with that show ?thesis unfolding decide_guards_def
    by (intro ro_intros) (auto intro!: ro_intros ro_present dest: check_session_id)
qed

lemma ro_time:
  assumes "check_session (JDict s) = Inr s" "dget (da_readings a) ''taken-at'' \<noteq> None"
  shows "refuses_only (readings_time a s)"
proof -
  from assms(1) obtain started es at where c: "dget s ''started_at'' = Some (JStr started)" "dget s ''allowed'' = Some (JList es)"
    "fold_res check_entry started es = Inr at" by (rule check_sessionE)
  have l: "list_item s ''allowed'' = Inr es" "text_item ''started_at'' (JDict s) = Inr started"
    by (simp_all add: list_item_Inr text_item_Inr c)
  have e: "refuses_only (case last_opt es of None \<Rightarrow> Inr None | Some e \<Rightarrow> bnd (text_item ''at'' e) (\<lambda>t. Inr (Some t)))"
    using check_entries [OF c(3)] by (cases "last_opt es") (auto simp: text_item_def simp del: last_opt_None)
  show ?thesis unfolding readings_time_def l bnd_Inr
    by (intro ro_intros ro_present assms(2) e ro_check_time) auto
qed

definition typed_artifacts :: "(json, session) dict \<Rightarrow> bool" where
  "typed_artifacts arts \<longleftrightarrow> (\<forall>e \<in> snd ` set arts. keys_are e ARTIFACT_KEYS)"

lemma load_approval_typed:
  assumes "load_approval v = Inr ap"
  shows "typed_artifacts (ap_artifacts ap)"
proof -
  have "\<exists>es. fold_res add_artifact [] es = Inr (ap_artifacts ap)"
  proof (cases v)
    case (Inr w)
    with assms obtain d day where d: "(case jget d ''artifacts'' of
            JList es \<Rightarrow>
              if es = [] then refuse ''the approval names no artifact''
              else bnd (fold_res add_artifact [] es) (\<lambda>arts.
                Inr \<lparr>ap_session = jget d ''session'', ap_date = JStr day, ap_artifacts = arts\<rparr>)
          | _ \<Rightarrow> refuse ''the approval names no artifact'') = Inr ap"
      unfolding load_approval_def by (cases w) (simp_all only: sum.case jval.case if_Inl_eq_Inr bnd_eq_Inr sum.distinct, blast)
    then show ?thesis by (cases "jget d ''artifacts''") (auto simp: bnd_eq_Inr simp del: jget_JStr jget_JList jget_JDict split: if_split_asm)
  qed (use assms in \<open>auto simp: load_approval_def split: py_error.split_asm\<close>)
  then obtain es where f: "fold_res add_artifact [] es = Inr (ap_artifacts ap)" by blast
  show ?thesis
  proof (rule fold_res_inv [OF f])
    fix arts v arts'
    assume arts: "typed_artifacts arts" and add: "add_artifact arts v = Inr arts'"
    from add obtain e where e: "keys_are e ARTIFACT_KEYS" "arts' = dput (jget e ''sha256'') e arts"
      unfolding add_artifact_def by (cases v) (simp_all only: jval.case if_Inl_eq_Inr de_Morgan_disj not_not sum.inject sum.distinct simp_thms, metis)
    from e(2) have "snd ` set arts' \<subseteq> insert e (snd ` set arts)" using set_dput [of "jget e ''sha256''" e arts] by force
    with e(1) arts show "typed_artifacts arts'" unfolding typed_artifacts_def by blast
  qed (simp add: typed_artifacts_def)
qed

lemma ro_approve:
  assumes "typed_artifacts (ap_artifacts ap)" "check_session (JDict s) = Inr s"
  shows "refuses_only (approve d i ap s now)"
proof (cases "dget (ap_artifacts ap) (JStr (isha i))")
  case (Some e)
  then have "keys_are e ARTIFACT_KEYS" using assms(1) map_of_SomeD unfolding typed_artifacts_def by fastforce
  then have "dget e ''kind'' \<noteq> None" "dget e ''wipes_data'' \<noteq> None"
    using keys_are_dget [of e ARTIFACT_KEYS] by (auto simp: ARTIFACT_KEYS_def)
  moreover from assms(2) obtain es where "list_item s ''allowed'' = Inr es" by (auto simp: list_item_Inr elim!: check_sessionE)
  ultimately show ?thesis unfolding approve_def Some option.case Let_def
    by (auto intro!: ro_intros ro_present)
qed (simp add: approve_def)


definition sample_approval_doc :: json where
  "sample_approval_doc = JDict [(''schema'', JStr APPROVAL_SCHEMA), (''session'', JStr ''first''), (''date'', JStr ''2026-01-02''),
     (''artifacts'', JList [JDict [(''sha256'', JStr (isha sample_image)), (''kind'', JStr ''grapheneos''), (''wipes_data'', JBool True)]])]"


section \<open>Tags, kept identities and the desk\<close>

lemma tag_stepD:
  assumes "tag_step g signers b found name = Inr found'" "list_all (matches RELEASE) [name]"
  shows "found' = found \<or> (found' = found @ [name] \<and> nat_of (base (fst b)) \<le> nat_of name \<and> nat_of name \<le> nat_of (base (snd b)) \<and>
    verify_tag g VERIFY_PINS signers name)"
  using assms parse_release_number [of "JStr name" True]
  by (auto simp: tag_step_def bnd_eq_Inr split: if_split_asm)

text \<open>
  C9: Every tag that signed_tags returns is a release tag in the range, and git verified it with the pinned signature
  programs against exactly the allowed signers bytes whose SHA-256 the base records pin; and both ends are among them.
\<close>

theorem signed_tags_verified:
  assumes "signed_tags sha up g signers cleaned a b = Inr tags"
  shows "\<exists>data. signers = Inr data \<and> pinned_signers_digest up = Inr (sha data) \<and> base a \<in> set tags \<and> base b \<in> set tags \<and>
    list_all (\<lambda>n. min (nat_of (base a)) (nat_of (base b)) \<le> nat_of n \<and> nat_of n \<le> max (nat_of (base a)) (nat_of (base b)) \<and>
      verify_tag g VERIFY_PINS data n) tags"
proof -
  from assms obtain data out where d: "read_small signers = Inr data" "pinned_signers_digest up = Inr (sha data)"
    "base (fst (low_high a b)) \<in> set tags" "base (snd (low_high a b)) \<in> set tags"
    "fold_res (tag_step g data (low_high a b)) [] (sort (filter (matches RELEASE) (split_space out))) = Inr tags"
    unfolding signed_tags_def bnd_eq_Inr if_Inl_eq_Inr by fastforce
  let ?ok = "\<lambda>n. nat_of (base (fst (low_high a b))) \<le> nat_of n \<and> nat_of n \<le> nat_of (base (snd (low_high a b))) \<and> verify_tag g VERIFY_PINS data n"
  have "list_all ?ok tags"
  proof (rule fold_res_inv [OF d(5), where I = "list_all ?ok"])
    fix found name found'
    assume "name \<in> set (sort (filter (matches RELEASE) (split_space out)))" "list_all ?ok found"
      "tag_step g data (low_high a b) found name = Inr found'"
    then show "list_all ?ok found'" using tag_stepD [of g data "low_high a b" found name found'] by auto
  qed simp
  moreover have "signers = Inr data" using d(1) by (auto simp: read_small_def bnd_eq_Inr split: sum.split_asm py_error.split_asm if_split_asm)
  ultimately show ?thesis using d(2-4)
    by (cases "nat_of (base a) \<le> nat_of (base b)") (auto simp: low_high_def min_def max_def list_all_iff)
qed

definition sample_repo :: repo where
  "sample_repo = \<lparr>for_each_ref = Some (''2026010200'' @ [nl] @ ''nightly'' @ [nl] @ ''2026010300'' @ [nl]), rev_parse = (\<lambda>_. None), cat_file = (\<lambda>_. None),
     verify_tag = (\<lambda>_ _ _. True)\<rparr>"

theorem signed_tags_verified_witness:
  "signed_tags kit_sha kit_upstream sample_repo (Inr ''signers'') True (irelease sample_image) kit_release = Inr [''2026010200'', ''2026010300''] \<and>
   pinned_signers_digest kit_upstream = Inr (kit_sha ''signers'')"
proof -
  have t: "signed_tags kit_sha kit_upstream sample_repo (Inr ''signers'') True (irelease sample_image) kit_release = Inr [''2026010200'', ''2026010300'']"
    by code_simp
  from signed_tags_verified [OF t] t show ?thesis by auto
qed


definition kit_image :: image where
  "kit_image = \<lparr>ikind = ''grapheneos'', isha = zeros 64, irelease = kit_release, istock = sample_build, iinfo = sample_info,
     isource = ''the signed build number inside the zip'', iwipes = True\<rparr>"

definition kit_table :: table where
  "kit_table = \<lparr>t_stock = [(''2026010200'', sample_build)], t_versions = [(''2026010200'', sample_info)], t_builds = []\<rparr>"

definition kit_file :: image_file where
  "kit_file = \<lparr>f_name = ''caiman-install-2026010200.zip'', f_data = Inr ''PK'', f_signature = Inr ''sig'', f_removed = True\<rparr>"

lemma kit_own_identity:
  "own_identity (w_unzip kit_world) ''caiman-install-2026010200.zip'' copy ''grapheneos'' = Inr (kit_release, sample_build, sample_info)"
proof -
  have "archive_release ''caiman-install-2026010200.zip'' None = archive_release ''caiman-install-2026010200.zip'' (Some ''2026010200'')"
    by code_simp
  then have o: "open_archive (w_unzip kit_world) ''caiman-install-2026010200.zip'' None copy = Inr kit_archive"
    using kit_opens [of copy] by (simp add: open_archive_def)
  show ?thesis
    using parse_vbmeta_bytes [OF sample_encodable] parse_info_text [OF wf_sample_info]
    by (simp add: own_identity_def o kit_reads as_refusal_def sample_identity kit_release_def sample_build_def)
qed

lemma kit_verified:
  "verified_image kit_world [(''verified'', JDict [(zeros 64, JDict (identity_entry kit_image ''2026-01-02T03:05:00Z''))])] kit_file ''grapheneos'' kit_table
   = Inr kit_image"
proof -
  have "kept_image [(''verified'', JDict [(zeros 64, JDict (identity_entry kit_image ''2026-01-02T03:05:00Z''))])] ''grapheneos'' (zeros 64) kit_table
    = Inr kit_image" by code_simp
  moreover have "w_sha kit_world ''PK'' = zeros 64" by (simp add: kit_world_def kit_sha_def)
  moreover have "check_own_identity (w_unzip kit_world) (f_name kit_file) ''PK'' kit_image = Inr ()"
    by (simp add: check_own_identity_def kit_file_def kit_image_def kit_own_identity)
  ultimately show ?thesis by (simp add: verified_image_def kit_file_def)
qed


text \<open>
  C26: A way back that passes the desk check is a GrapheneOS kit no older than the base tag, or Google's image, newer
  than the base tag or with the stock build recorded for it; every signed tag between the two has a record.
\<close>

theorem desk_no_older:
  assumes "desk i t tags tag = Inr (covered, branch)"
  shows "\<exists>b. parse_release (JStr tag) False = Inr b \<and> ikind i \<noteq> ''andrix'' \<and> check_coverage t tags b (irelease i) = Inr covered \<and>
    (newer b (irelease i) \<longrightarrow> ikind i \<noteq> ''grapheneos'' \<and> dget (t_stock t) (base b) = Some (istock i))"
  using assms newer_asym
  by (auto simp: desk_def criterion_def bnd_eq_Inr split: if_split_asm option.split_asm)

theorem desk_no_older_witness: "\<exists>c br. desk sample_image sample_table [''2026010200'', ''2026010300''] ''2026010200'' = Inr (c, br)
    \<and> ikind sample_image \<noteq> ''andrix''"
proof -
  have "is_ok (desk sample_image sample_table [''2026010200'', ''2026010300''] ''2026010200'')" by code_simp
  then obtain c br where d: "desk sample_image sample_table [''2026010200'', ''2026010300''] ''2026010200'' = Inr (c, br)"
    by (auto simp: is_ok_iff)
  from desk_no_older [OF d] d show ?thesis by blast
qed

end
