(* ===== verification/Json_Read.thy ===== *)
theory Json_Read
  imports Decision
begin

text \<open>
  \<^verbatim>\<open>json.loads\<close> as the record readers use it, on the bytes of a UTF-8 file, and that it reads back what
  \<^verbatim>\<open>caiman.dump\<close> writes. A text keeps its code points below 256 (\<open>narrow\<close>), a float its text, and an integer may
  have any number of digits. Bytes in another encoding than UTF-8 are a \<^verbatim>\<open>ValueError\<close>; the readers refuse them in any
  case, because they are not in the form that \<^verbatim>\<open>caiman.dump\<close> writes.
\<close>

section \<open>Reading\<close>

definition ws_c :: "char \<Rightarrow> bool" where
  "ws_c c \<longleftrightarrow> c \<in> {CHR '' '', CHR 0x09, nl, CHR 0x0D}"

definition skip :: "string \<Rightarrow> string" where
  "skip s = dropWhile ws_c s"

definition hex_val :: "char \<Rightarrow> nat option" where
  "hex_val c = (if is_digit c then Some (ord_c c - 48) else if in_range 97 102 c then Some (ord_c c - 87)
     else if in_range 65 70 c then Some (ord_c c - 55) else None)"

definition hex4 :: "string \<Rightarrow> nat option" where
  "hex4 s = (case map hex_val (take 4 s) of
     [Some a, Some b, Some c, Some d] \<Rightarrow> Some (((a * 16 + b) * 16 + c) * 16 + d) | _ \<Rightarrow> None)"

definition escapes :: "(char, char) dict" where
  "escapes = [(CHR 0x22, CHR 0x22), (CHR 0x5C, CHR 0x5C), (CHR ''/'', CHR ''/''), (CHR ''b'', CHR 0x08), (CHR ''f'', CHR 0x0C),
     (CHR ''n'', nl), (CHR ''r'', CHR 0x0D), (CHR ''t'', CHR 0x09)]"

text \<open>The low half of a surrogate pair that continues a high half.\<close>

definition low_half :: "nat \<Rightarrow> string \<Rightarrow> nat option" where
  "low_half hi r = (if 0xD800 \<le> hi \<and> hi \<le> 0xDBFF \<and> take 2 r = [CHR 0x5C, CHR ''u'']
     then (case hex4 (drop 2 r) of Some lo \<Rightarrow> if 0xDC00 \<le> lo \<and> lo \<le> 0xDFFF then Some lo else None | None \<Rightarrow> None) else None)"

definition push :: "char \<Rightarrow> (string \<times> string) option \<Rightarrow> (string \<times> string) option" where
  "push c r = map_option (\<lambda>(t, rest). (c # t, rest)) r"

text \<open>A string after its opening quote.\<close>

function pstr :: "string \<Rightarrow> (string \<times> string) option" where
  "pstr [] = None"
| "pstr (c # s) =
     (if c = CHR 0x22 then Some ([], s)
      else if c \<noteq> CHR 0x5C then (if ord_c c < 32 then None else push c (pstr s))
      else (case s of
          [] \<Rightarrow> None
        | e # r \<Rightarrow>
            if e \<noteq> CHR ''u'' then (case dget escapes e of None \<Rightarrow> None | Some x \<Rightarrow> push x (pstr r))
            else (case hex4 r of
                None \<Rightarrow> None
              | Some v \<Rightarrow>
                  (case low_half v (drop 4 r) of
                     Some lo \<Rightarrow> push (narrow (0x10000 + (v - 0xD800) * 0x400 + (lo - 0xDC00))) (pstr (drop 10 r))
                   | None \<Rightarrow> push (narrow v) (pstr (drop 4 r))))))"
  by pat_completeness auto
termination by (relation "measure length") auto

definition fraction :: "string \<Rightarrow> string" where
  "fraction r = (case r of
     [] \<Rightarrow> []
   | c # q \<Rightarrow> if c = CHR ''.'' \<and> takeWhile is_digit q \<noteq> [] then c # takeWhile is_digit q else [])"

definition exponent :: "string \<Rightarrow> string" where
  "exponent r = (case r of
     [] \<Rightarrow> []
   | c # q \<Rightarrow>
       if c \<noteq> CHR ''e'' \<and> c \<noteq> CHR ''E'' then []
       else let sign = takeWhile (\<lambda>d. d = CHR ''+'' \<or> d = CHR ''-'') (take 1 q); ds = takeWhile is_digit (drop (length sign) q)
         in if ds = [] then [] else c # sign @ ds)"

definition pnum :: "string \<Rightarrow> (json \<times> string) option" where
  "pnum s =
     (let sign = takeWhile (\<lambda>c. c = CHR ''-'') (take 1 s); t = drop (length sign) s; run = takeWhile is_digit t;
        ds = (if take 1 run = ''0'' then ''0'' else run); r = drop (length ds) t;
        fr = fraction r; ex = exponent (drop (length fr) r)
      in if ds = [] then None
         else if fr = [] \<and> ex = [] then Some (JInt (if sign = [] then int (nat_of ds) else - int (nat_of ds)), r)
         else Some (JFloat (sign @ ds @ fr @ ex), drop (length ex) (drop (length fr) r)))"

definition words_of :: "(string \<times> json) list" where
  "words_of = [(''null'', JNull), (''true'', JBool True), (''false'', JBool False), (''NaN'', JFloat ''nan''),
     (''Infinity'', JFloat ''inf''), (''-Infinity'', JFloat ''-inf'')]"

definition pword :: "string \<Rightarrow> (json \<times> string) option" where
  "pword s = (case filter (\<lambda>w. starts_with (fst w) s) words_of of
     [] \<Rightarrow> None | w # ws \<Rightarrow> Some (snd w, drop (length (fst w)) s))"

text \<open>A value, the rest of an array and the rest of an object, with the fuel that bounds the recursion.\<close>

fun pvalue :: "nat \<Rightarrow> string \<Rightarrow> (json \<times> string) option"
  and pelems :: "nat \<Rightarrow> json list \<Rightarrow> string \<Rightarrow> (json \<times> string) option"
  and pmembers :: "nat \<Rightarrow> (string \<times> json) list \<Rightarrow> string \<Rightarrow> (json \<times> string) option"
where
  "pvalue n s = (case n of
     0 \<Rightarrow> None
   | Suc m \<Rightarrow>
       (case s of
          [] \<Rightarrow> None
        | c # r \<Rightarrow>
            if c = CHR 0x22 then map_option (\<lambda>(t, rest). (JStr t, rest)) (pstr r)
            else if c = CHR ''['' then
              (if take 1 (skip r) = '']'' then Some (JList [], drop 1 (skip r)) else pelems m [] (skip r))
            else if c = CHR ''{'' then
              (if take 1 (skip r) = ''}'' then Some (JDict [], drop 1 (skip r)) else pmembers m [] (skip r))
            else (case pword s of Some x \<Rightarrow> Some x | None \<Rightarrow> pnum s)))"
| "pelems n acc s = (case n of
     0 \<Rightarrow> None
   | Suc m \<Rightarrow>
       (case pvalue m s of
          None \<Rightarrow> None
        | Some (v, r) \<Rightarrow>
            if take 1 (skip r) = '','' then pelems m (acc @ [v]) (skip (drop 1 (skip r)))
            else if take 1 (skip r) = '']'' then Some (JList (acc @ [v]), drop 1 (skip r))
            else None))"
| "pmembers n acc s = (case n of
     0 \<Rightarrow> None
   | Suc m \<Rightarrow>
       if take 1 s \<noteq> [CHR 0x22] then None
       else (case pstr (drop 1 s) of
           None \<Rightarrow> None
         | Some (k, r) \<Rightarrow>
             if take 1 (skip r) \<noteq> '':'' then None
             else (case pvalue m (skip (drop 1 (skip r))) of
                 None \<Rightarrow> None
               | Some (v, q) \<Rightarrow>
                   if take 1 (skip q) = '','' then pmembers m (dput k v acc) (skip (drop 1 (skip q)))
                   else if take 1 (skip q) = ''}'' then Some (JDict (dput k v acc), drop 1 (skip q))
                   else None)))"

declare pvalue.simps [simp del] pelems.simps [simp del] pmembers.simps [simp del]

definition loads_text :: "string \<Rightarrow> json res" where
  "loads_text s = (case pvalue (2 * length s + 1) (skip s) of
     Some (v, r) \<Rightarrow> if skip r = [] then Inr v else Inl (ValueError ''Extra data'')
   | None \<Rightarrow> Inl (ValueError ''Expecting value''))"

definition loads :: "string \<Rightarrow> json res" where
  "loads b = bnd (decode_strict b) loads_text"

section \<open>The fuel is enough\<close>

lemma length_skip: "length (skip s) \<le> length s"
  by (simp add: skip_def length_dropWhile_le)

lemma pstr_shorter: "pstr s = Some (t, r) \<Longrightarrow> length r < length s"
proof (induction s arbitrary: t r rule: pstr.induct)
  case (2 c s)
  note IH = 2(1,2,3,4)
  have "length r < Suc (length s)"
    using 2(5) IH by (auto simp: push_def split: if_split_asm list.split_asm option.split_asm) (fastforce dest!: IH)+
  then show ?case by simp
qed simp

lemma length_drop1_skip: "length (skip (drop 1 (skip r))) \<le> length r"
proof -
  have "length (skip (drop 1 (skip r))) \<le> length (drop 1 (skip r))" by (rule length_skip)
  also have "\<dots> \<le> length (skip r)" by simp
  also have "\<dots> \<le> length r" by (rule length_skip)
  finally show ?thesis .
qed

lemma pword_shorter:
  assumes "pword s = Some (v, r)"
  shows "length r < length s"
proof -
  obtain w ws where w: "filter (\<lambda>w. starts_with (fst w) s) words_of = w # ws" "r = drop (length (fst w)) s"
    using assms by (cases "filter (\<lambda>w. starts_with (fst w) s) words_of") (auto simp: pword_def)
  then have "w \<in> set (filter (\<lambda>w. starts_with (fst w) s) words_of)" by simp
  then have "w \<in> set words_of" "starts_with (fst w) s" by simp_all
  moreover have "list_all (\<lambda>w. fst w \<noteq> []) words_of" by (simp add: words_of_def)
  ultimately have "fst w \<noteq> []" "length (fst w) \<le> length s" by (auto simp: list_all_iff starts_with_iff)
  then show ?thesis unfolding w(2) by (cases "fst w") auto
qed

lemma pnum_shorter:
  assumes "pnum s = Some (v, r)"
  shows "length r < length s"
proof -
  define sign where "sign = takeWhile (\<lambda>c. c = CHR ''-'') (take 1 s)"
  define t where "t = drop (length sign) s"
  define run where "run = takeWhile is_digit t"
  define ds where "ds = (if take 1 run = ''0'' then ''0'' else run)"
  from assms have ds: "ds \<noteq> []" and r: "length r \<le> length (drop (length ds) t)"
    unfolding pnum_def Let_def sign_def [symmetric] t_def [symmetric] run_def [symmetric] ds_def [symmetric]
    by (auto split: if_split_asm)
  have "t \<noteq> []" using ds by (auto simp: ds_def run_def split: if_split_asm)
  with ds have "length (drop (length ds) t) < length t" by simp
  moreover have "length t \<le> length s" by (simp add: t_def)
  ultimately show ?thesis using r by linarith
qed

lemma pvalue_step:
  "pvalue 0 s = None" "pelems 0 acc s = None" "pmembers 0 macc s = None"
  by (simp_all add: pvalue.simps pelems.simps pmembers.simps)

lemma parts_shorter:
  "(\<forall>s v r. pvalue n s = Some (v, r) \<longrightarrow> length r < length s) \<and>
   (\<forall>acc s v r. pelems n acc s = Some (v, r) \<longrightarrow> length r < length s) \<and>
   (\<forall>acc s v r. pmembers n acc s = Some (v, r) \<longrightarrow> length r < length s)"
proof (induction n)
  case 0
  then show ?case by (simp add: pvalue_step)
next
  case (Suc n)
  then have v: "\<And>s v r. pvalue n s = Some (v, r) \<Longrightarrow> length r < length s"
    and e: "\<And>acc s v r. pelems n acc s = Some (v, r) \<Longrightarrow> length r < length s"
    and m: "\<And>acc s v r. pmembers n acc s = Some (v, r) \<Longrightarrow> length r < length s" by blast+
  have ds: "length (drop 1 (skip r)) \<le> length r" for r using length_skip [of r] by (simp add: le_diff_conv le_SucI)
  have "length r < length s" if p: "pvalue (Suc n) s = Some (v, r)" for s v r
  proof (cases s)
    case Nil
    with p show ?thesis by (simp add: pvalue.simps)
  next
    case (Cons c q)
    from p consider "\<exists>t. pstr q = Some (t, r)" | "r = drop 1 (skip q)" | "\<exists>acc. pelems n acc (skip q) = Some (v, r)"
      | "\<exists>acc. pmembers n acc (skip q) = Some (v, r)" | "pword s = Some (v, r)" | "pnum s = Some (v, r)"
      unfolding pvalue.simps [of "Suc n"] Cons nat.case list.case by (auto split: if_split_asm option.split_asm)
    then show ?thesis
    proof cases
      case 1
      then show ?thesis using pstr_shorter Cons by fastforce
    next
      case 2
      then show ?thesis using ds [of q] Cons by simp
    next
      case 3
      then show ?thesis using e length_skip [of q] Cons by fastforce
    next
      case 4
      then show ?thesis using m length_skip [of q] Cons by fastforce
    qed (use pword_shorter pnum_shorter in blast)+
  qed
  moreover have "length r < length s" if p: "pelems (Suc n) acc s = Some (v, r)" for acc s v r
  proof -
    from p obtain w q where w: "pvalue n s = Some (w, q)"
      by (auto simp: pelems.simps [of "Suc n"] split: option.split_asm)
    with p have r: "(\<exists>a. pelems n a (skip (drop 1 (skip q))) = Some (v, r)) \<or> r = drop 1 (skip q)"
      unfolding pelems.simps [of "Suc n"] nat.case by (auto split: if_split_asm)
    from v [OF w] r show ?thesis using e length_drop1_skip [of q] ds [of q] by fastforce
  qed
  moreover have "length r < length s" if p: "pmembers (Suc n) acc s = Some (v, r)" for acc s v r
  proof -
    from p obtain k q w q' where k: "pstr (drop 1 s) = Some (k, q)" and w: "pvalue n (skip (drop 1 (skip q))) = Some (w, q')"
      unfolding pmembers.simps [of "Suc n"] nat.case by (auto split: if_split_asm option.split_asm)
    with p have r: "(\<exists>a. pmembers n a (skip (drop 1 (skip q'))) = Some (v, r)) \<or> r = drop 1 (skip q')"
      unfolding pmembers.simps [of "Suc n"] nat.case by (auto split: if_split_asm)
    from pstr_shorter [OF k] v [OF w] r show ?thesis
      using m length_drop1_skip [of q] length_drop1_skip [of q'] ds [of q'] by fastforce
  qed
  ultimately show ?case by blast
qed

lemma fuel_step:
  "(\<forall>s. 2 * length s + 1 \<le> n \<longrightarrow> pvalue (Suc n) s = pvalue n s) \<and>
   (\<forall>acc s. 2 * length s + 2 \<le> n \<longrightarrow> pelems (Suc n) acc s = pelems n acc s) \<and>
   (\<forall>acc s. 2 * length s + 2 \<le> n \<longrightarrow> pmembers (Suc n) acc s = pmembers n acc s)"
proof (induction n)
  case (Suc n)
  then have v: "\<And>s. 2 * length s + 1 \<le> n \<Longrightarrow> pvalue (Suc n) s = pvalue n s"
    and e: "\<And>acc s. 2 * length s + 2 \<le> n \<Longrightarrow> pelems (Suc n) acc s = pelems n acc s"
    and m: "\<And>acc s. 2 * length s + 2 \<le> n \<Longrightarrow> pmembers (Suc n) acc s = pmembers n acc s" by blast+
  have short: "length q < length s" if "pvalue k s = Some (w, q)" for k s w q using parts_shorter that by blast
  have "pvalue (Suc (Suc n)) s = pvalue (Suc n) s" if l: "2 * length s + 1 \<le> Suc n" for s
  proof (cases s)
    case (Cons c q)
    have "2 * length (skip q) + 2 \<le> n" using l length_skip [of q] Cons by simp
    from e [OF this] m [OF this] show ?thesis
      unfolding pvalue.simps [of "Suc (Suc n)"] pvalue.simps [of "Suc n"] Cons nat.case list.case by simp
  qed (simp add: pvalue.simps)
  moreover have "pelems (Suc (Suc n)) acc s = pelems (Suc n) acc s" if l: "2 * length s + 2 \<le> Suc n" for acc s
  proof (cases "pvalue n s")
    case (Some x)
    obtain w q where x: "x = (w, q)" by (cases x)
    have "2 * length (skip (drop 1 (skip q))) + 2 \<le> n"
      using l short [OF Some [unfolded x]] length_drop1_skip [of q] by simp
    with l Some x show ?thesis
      unfolding pelems.simps [of "Suc (Suc n)" acc s] pelems.simps [of "Suc n" acc s] nat.case using v [of s] e by simp
  qed (use l v [of s] in \<open>simp add: pelems.simps [of "Suc (Suc n)" acc s] pelems.simps [of "Suc n" acc s]\<close>)
  moreover have "pmembers (Suc (Suc n)) acc s = pmembers (Suc n) acc s" if l: "2 * length s + 2 \<le> Suc n" for acc s
  proof (cases "pstr (drop 1 s)")
    case (Some x)
    obtain k q where x: "x = (k, q)" by (cases x)
    have q: "2 * length (skip (drop 1 (skip q))) + 1 \<le> n"
      using l pstr_shorter [OF Some [unfolded x]] length_drop1_skip [of q] by simp
    show ?thesis
    proof (cases "pvalue n (skip (drop 1 (skip q)))")
      case None
      with Some x v [OF q] show ?thesis
        unfolding pmembers.simps [of "Suc (Suc n)" acc s] pmembers.simps [of "Suc n" acc s] nat.case by simp
    next
      case (Some y)
      obtain w q' where y: "y = (w, q')" by (cases y)
      have "2 * length (skip (drop 1 (skip q'))) + 2 \<le> n"
        using q short [OF Some [unfolded y]] length_drop1_skip [of q'] by simp
      with Some y x v [OF q] \<open>pstr (drop 1 s) = Some x\<close> m show ?thesis
        unfolding pmembers.simps [of "Suc (Suc n)" acc s] pmembers.simps [of "Suc n" acc s] nat.case by simp
    qed
  qed (simp add: pmembers.simps [of "Suc (Suc n)" acc s] pmembers.simps [of "Suc n" acc s])
  ultimately show ?case by blast
qed simp

text \<open>More fuel than \<open>loads_text\<close> gives changes no result.\<close>

lemma fuel_enough:
  assumes "2 * length s + 1 \<le> n"
  shows "pvalue n s = pvalue (2 * length s + 1) s"
  using assms
proof (induction n)
  case (Suc n)
  then show ?case using fuel_step [of n] by (cases "2 * length s + 1 \<le> n") (auto simp: not_le le_Suc_eq)
qed simp

section \<open>Reading back what was written\<close>

text \<open>Values without floats and without repeated keys, and the order of keys in which they are read back.\<close>

fun json_wf :: "json \<Rightarrow> bool" where
  "json_wf (JFloat t) = False"
| "json_wf (JList xs) = list_all json_wf xs"
| "json_wf (JDict d) = (distinct (map fst d) \<and> list_all (\<lambda>kv. json_wf (snd kv)) d)"
| "json_wf v = True"

fun canon :: "json \<Rightarrow> json" where
  "canon (JList xs) = JList (map canon xs)"
| "canon (JDict d) = JDict (sort_key fst (map (\<lambda>kv. (fst kv, canon (snd kv))) d))"
| "canon v = v"

definition canon_dict :: "(string \<times> json) list \<Rightarrow> (string \<times> json) list" where
  "canon_dict d = sort_key fst (map (\<lambda>kv. (fst kv, canon (snd kv))) d)"

lemma hex_val_digit: "k < 16 \<Longrightarrow> hex_val (hex_digit k) = Some k"
  by (cases "k < 10") (auto simp: hex_val_def hex_digit_def is_digit_def in_range_def)

lemma pstr_quote_c: "pstr (quote_c c @ r) = push c (pstr r)"
proof -
  have u: "pstr (CHR 0x5C # CHR ''u'' # CHR ''0'' # CHR ''0'' # hex_digit (ord_c c div 16) # hex_digit (ord_c c mod 16) # r) = push c (pstr r)"
  proof -
    have lt: "ord_c c div 16 < 16" "ord_c c mod 16 < 16" by (simp_all add: less_mult_imp_div_less)
    have z: "hex_val (CHR ''0'') = Some 0" by (simp add: hex_val_def is_digit_def in_range_def)
    have h: "hex4 (CHR ''0'' # CHR ''0'' # hex_digit (ord_c c div 16) # hex_digit (ord_c c mod 16) # r) = Some (ord_c c)"
      by (simp add: hex4_def z hex_val_digit lt)
    have "ord_c c < 256" by simp
    then have "\<not> 0xD800 \<le> ord_c c" by linarith
    then have l: "low_half (ord_c c) q = None" for q by (simp add: low_half_def)
    have n: "narrow (ord_c c) = c" by (simp add: narrow_def)
    show ?thesis by (simp add: h l n)
  qed
  have e: "c = char_of k" if "ord_c c = k" for k using that by auto
  have k: "char_of (8::nat) = CHR 0x08" "char_of (9::nat) = CHR 0x09" "char_of (10::nat) = CHR 0x0A" "char_of (12::nat) = CHR 0x0C"
    "char_of (13::nat) = CHR 0x0D" by code_simp+
  show ?thesis
    unfolding quote_c_def using u
    by (auto simp: escapes_def in_range_def k dest!: e split: if_split)
qed

lemma pstr_quote: "pstr (concat (map quote_c s) @ CHR 0x22 # r) = Some (s, r)"
  by (induction s) (simp_all add: pstr_quote_c push_def)

definition tail_ok :: "string \<Rightarrow> bool" where
  "tail_ok r \<longleftrightarrow> r = [] \<or> \<not> is_digit (hd r) \<and> hd r \<notin> {CHR ''.'', CHR ''e'', CHR ''E''}"

lemma tail_parts: "tail_ok r \<Longrightarrow> fraction r = [] \<and> exponent r = [] \<and> takeWhile is_digit r = []"
  by (cases r) (auto simp: tail_ok_def fraction_def exponent_def)

lemma pnum_nat:
  assumes "tail_ok r" "set sign \<subseteq> {CHR ''-''}" "length sign \<le> 1"
  shows "pnum (sign @ str_nat n @ r) = Some (JInt (if sign = [] then int n else - int n), r)"
proof -
  have c: "canonical_nat (str_nat n)" by simp
  then obtain d ds where d: "str_nat n = d # ds" "is_digit d" "list_all is_digit ds" "d = CHR ''0'' \<longrightarrow> ds = []"
    by (cases "str_nat n") (auto simp: canonical_nat_def)
  have nd: "d \<noteq> CHR ''-''" using d(2) by (auto simp: is_digit_def in_range_def)
  have s: "takeWhile (\<lambda>c. c = CHR ''-'') (take 1 (sign @ str_nat n @ r)) = sign"
    using assms(2,3) d(1) nd by (cases sign) auto
  have t: "takeWhile is_digit (str_nat n @ r) = str_nat n"
    using tail_parts [OF assms(1)] by (simp add: takeWhile_append2 list_all_iff [symmetric] takeWhile_append)
  have z: "(if take 1 (str_nat n) = ''0'' then ''0'' else str_nat n) = str_nat n" using d by auto
  have dr: "drop (length sign) (sign @ str_nat n @ r) = str_nat n @ r" by simp
  show ?thesis unfolding pnum_def Let_def s dr t z by (simp add: tail_parts [OF assms(1)])
qed

lemma pnum_int: "tail_ok r \<Longrightarrow> pnum (str_int i @ r) = Some (JInt i, r)"
  using pnum_nat [of r "[]" "nat i"] pnum_nat [of r "''-''" "nat (- i)"] by (auto simp: str_int_def)

lemma skip_simps [simp]: "skip [] = []" "\<not> ws_c c \<Longrightarrow> skip (c # s) = c # s" "ws_c c \<Longrightarrow> skip (c # s) = skip s"
  by (simp_all add: skip_def)

lemma skip_margin: "\<not> ws_c c \<Longrightarrow> skip (margin n @ c # s) = c # s"
  unfolding margin_def skip_def by (induction n) (auto simp: ws_c_def)

text \<open>A written value starts with a character that is neither white space nor a closing bracket.\<close>

definition starts_value :: "string \<Rightarrow> bool" where
  "starts_value s \<longleftrightarrow> s \<noteq> [] \<and> \<not> ws_c (hd s) \<and> hd s \<notin> set '']}''"

lemma digit_start: "is_digit c \<Longrightarrow> \<not> ws_c c \<and> c \<notin> set '']}[{ntfNI-'' \<and> c \<noteq> CHR 0x22"
  by (auto simp: is_digit_def in_range_def ws_c_def)

lemma str_nat_Cons: "\<exists>d ds. str_nat n = d # ds \<and> is_digit d"
  using canonical_str_nat [of n] by (cases "str_nat n") (auto simp: canonical_nat_def)

lemma dumps_starts: "json_wf v \<Longrightarrow> starts_value (dumps_at k v)"
proof (cases v)
  case (JInt i)
  obtain d ds where "str_nat (nat i) = d # ds" "is_digit d" using str_nat_Cons by blast
  with JInt show ?thesis using digit_start [of d] by (auto simp: str_int_def starts_value_def ws_c_def)
qed (auto simp: starts_value_def ws_c_def quote_def)

lemma pvalue_word: "pvalue (Suc n) (''null'' @ r) = Some (JNull, r)" "pvalue (Suc n) (''true'' @ r) = Some (JBool True, r)"
  "pvalue (Suc n) (''false'' @ r) = Some (JBool False, r)"
  by (simp_all add: pvalue.simps pword_def words_of_def)

lemma pvalue_str: "pvalue (Suc n) (quote s @ r) = Some (JStr s, r)"
  by (simp add: pvalue.simps quote_def pstr_quote)

lemma pvalue_int:
  assumes "tail_ok r"
  shows "pvalue (Suc n) (str_int i @ r) = Some (JInt i, r)"
proof -
  obtain d ds where d: "str_nat (nat \<bar>i\<bar>) = d # ds" "is_digit d" using str_nat_Cons by blast
  note st = digit_start [OF d(2)]
  have ne: "d \<noteq> CHR ''n''" "d \<noteq> CHR ''t''" "d \<noteq> CHR ''f''" "d \<noteq> CHR ''N''" "d \<noteq> CHR ''I''" "d \<noteq> CHR ''-''"
    "d \<noteq> CHR ''[''" "d \<noteq> CHR ''{''" "d \<noteq> CHR 0x22" using st by auto
  show ?thesis
  proof (cases "i < 0")
    case True
    then have c: "str_int i @ r = CHR ''-'' # d # ds @ r" using d(1) by (simp add: str_int_def)
    have "pword (CHR ''-'' # d # ds @ r) = None" using ne by (simp add: pword_def words_of_def)
    then show ?thesis using pnum_int [OF assms, of i] unfolding c by (simp add: pvalue.simps)
  next
    case False
    then have c: "str_int i @ r = d # ds @ r" using d(1) by (simp add: str_int_def)
    have "pword (d # ds @ r) = None" using ne by (simp add: pword_def words_of_def)
    then show ?thesis using pnum_int [OF assms, of i] ne unfolding c by (simp add: pvalue.simps)
  qed
qed

definition reads :: "nat \<Rightarrow> json \<Rightarrow> bool" where
  "reads k v \<longleftrightarrow> (\<forall>n r. size v < n \<longrightarrow> tail_ok r \<longrightarrow> pvalue n (dumps_at k v @ r) = Some (canon v, r))"

lemma tail_ok_margin [simp]: "tail_ok (margin n @ r)" "tail_ok (CHR '','' # r)"
  by (simp_all add: tail_ok_def margin_def is_digit_def in_range_def)

lemma skip_value: "starts_value s \<Longrightarrow> skip (margin n @ s @ r) = s @ r" "starts_value s \<Longrightarrow> skip (CHR '' '' # s @ r) = s @ r"
  using skip_margin [of "hd s" n "tl s @ r"] by (cases s; simp add: starts_value_def ws_c_def)+

lemma pelems_dumps:
  assumes "xs \<noteq> []" "list_all (\<lambda>x. json_wf x \<and> reads k x) xs" "size_list size xs < n"
  shows "pelems n acc (join ('','' @ margin k) (map (dumps_at k) xs) @ margin j @ CHR '']'' # r) = Some (JList (acc @ map canon xs), r)"
  using assms
proof (induction xs arbitrary: n acc)
  case (Cons x xs)
  from Cons.prems(3) obtain m where m: "n = Suc m" "size x < m" "size_list size xs < m" by (cases n) auto
  show ?case
  proof (cases "xs = []")
    case True
    have "pvalue m (dumps_at k x @ margin j @ CHR '']'' # r) = Some (canon x, margin j @ CHR '']'' # r)"
      using Cons.prems(2) m(2) by (simp add: reads_def)
    then show ?thesis using True by (simp add: pelems.simps m(1) skip_margin ws_c_def)
  next
    case False
    let ?rest = "join ('','' @ margin k) (map (dumps_at k) xs) @ margin j @ CHR '']'' # r"
    have v: "pvalue m (dumps_at k x @ CHR '','' # margin k @ ?rest) = Some (canon x, CHR '','' # margin k @ ?rest)"
      using Cons.prems(2) m(2) by (simp add: reads_def)
    have "starts_value (dumps_at k (hd xs))" using Cons.prems(2) False dumps_starts by (cases xs) auto
    then have sv: "skip (margin k @ ?rest) = ?rest"
      using skip_value(1) [of "dumps_at k (hd xs)" k] False by (cases xs; cases "tl xs") simp_all
    have j: "join ('','' @ margin k) (map (dumps_at k) (x # xs)) @ margin j @ CHR '']'' # r = dumps_at k x @ CHR '','' # margin k @ ?rest"
      using False by (simp add: join_Cons)
    show ?thesis unfolding j m(1)
      using v sv Cons.IH [of m "acc @ [canon x]"] Cons.prems(2) False m(3) by (simp add: pelems.simps [of "Suc m"] ws_c_def)
  qed
qed simp

lemma insort_key_map: "insort_key fst (fst kv, f (snd kv)) (map (\<lambda>kv. (fst kv, f (snd kv))) d) = map (\<lambda>kv. (fst kv, f (snd kv))) (insort_key fst kv d)"
  by (induction d) auto

lemma sort_key_map: "sort_key fst (map (\<lambda>kv. (fst kv, f (snd kv))) d) = map (\<lambda>kv. (fst kv, f (snd kv))) (sort_key fst d)"
  by (induction d) (simp_all add: insort_key_map)

definition member_text :: "nat \<Rightarrow> string \<times> json \<Rightarrow> string" where
  "member_text k kv = quote (fst kv) @ '': '' @ dumps_at k (snd kv)"

lemma dumps_dict:
  assumes "d \<noteq> []"
  shows "dumps_at n (JDict d) = CHR ''{'' # margin (n + 2) @ join ('','' @ margin (n + 2)) (map (member_text (n + 2)) (sort_key fst d))
    @ margin n @ ''}''"
proof -
  have "map (\<lambda>(k, t). quote k @ '': '' @ t) (map (\<lambda>kv. (fst kv, dumps_at (n + 2) (snd kv))) xs) = map (member_text (n + 2)) xs" for xs
    by (simp add: member_text_def)
  with assms show ?thesis by (simp only: dumps_at.simps if_False sort_key_map) simp
qed

lemma pmembers_dumps:
  assumes "ys \<noteq> []" "list_all (\<lambda>kv. json_wf (snd kv) \<and> reads k (snd kv)) ys" "size_list (size_prod (\<lambda>_. 0) size) ys < n"
    "distinct (map fst (acc @ ys))"
  shows "pmembers n acc (join ('','' @ margin k) (map (member_text k) ys) @ margin j @ CHR ''}'' # r) =
    Some (JDict (acc @ map (\<lambda>kv. (fst kv, canon (snd kv))) ys), r)"
  using assms
proof (induction ys arbitrary: n acc)
  case (Cons y ys)
  obtain x v where y: "y = (x, v)" by (cases y)
  from Cons.prems(3) obtain m where m: "n = Suc m" "size v < m" "size_list (size_prod (\<lambda>_. 0) size) ys < m" by (cases n) (auto simp: y)
  have new: "dput x (canon v) acc = acc @ [(x, canon v)]" using Cons.prems(4) by (intro dput_new) (auto simp: dget_None y)
  have sv: "starts_value (dumps_at k v)" using Cons.prems(2) dumps_starts by (simp add: y)
  have key: "pstr (drop 1 (member_text k y @ q)) = Some (x, '': '' @ dumps_at k v @ q)" for q
    using pstr_quote [of x "'': '' @ dumps_at k v @ q"] by (simp add: member_text_def y quote_def)
  have val: "pvalue m (dumps_at k v @ q) = Some (canon v, q)" if "tail_ok q" for q
    using Cons.prems(2) m(2) that by (simp add: reads_def y)
  have hd: "take 1 (member_text k y @ q) = [CHR 0x22]" for q by (simp add: member_text_def quote_def)
  have colon: "skip ('': '' @ q) = '': '' @ q" for q by (simp add: ws_c_def)
  have vskip: "skip (drop 1 ('': '' @ dumps_at k v @ q)) = dumps_at k v @ q" for q using skip_value(2) [OF sv] by simp
  have step: "pmembers (Suc m) acc (member_text k y @ q) =
      (if take 1 (skip q) = '','' then pmembers m (acc @ [(x, canon v)]) (skip (drop 1 (skip q)))
       else if take 1 (skip q) = ''}'' then Some (JDict (acc @ [(x, canon v)]), drop 1 (skip q)) else None)" if "tail_ok q" for q
    unfolding pmembers.simps [of "Suc m"] nat.case hd key option.case prod.case colon vskip val [OF that] new by simp
  show ?case
  proof (cases "ys = []")
    case True
    then show ?thesis using step [of "margin j @ CHR ''}'' # r"] by (simp add: m(1) y skip_margin ws_c_def)
  next
    case False
    let ?rest = "join ('','' @ margin k) (map (member_text k) ys) @ margin j @ CHR ''}'' # r"
    have j: "join ('','' @ margin k) (map (member_text k) (y # ys)) @ margin j @ CHR ''}'' # r = member_text k y @ CHR '','' # margin k @ ?rest"
      using False by (simp add: join_Cons)
    have "starts_value (member_text k (hd ys))" by (simp add: member_text_def quote_def starts_value_def ws_c_def)
    then have sk: "skip (margin k @ ?rest) = ?rest"
      using skip_value(1) [of "member_text k (hd ys)" k] False by (cases ys; cases "tl ys") simp_all
    show ?thesis unfolding j m(1)
      using step [of "CHR '','' # margin k @ ?rest"] sk Cons.IH [of m "acc @ [(x, canon v)]"] Cons.prems(2,4) False m(3)
      by (simp add: ws_c_def y)
  qed
qed simp

lemma size_sorted: "size_list f (sort_key g xs) = size_list f xs"
proof -
  have "sum_list (map f (sort_key g xs)) = sum_list (map f xs)"
    by (metis mset_map mset_sort sum_mset_sum_list)
  then show ?thesis by (simp add: size_list_conv_sum_list)
qed

lemma reads_atom: "(\<And>n r. tail_ok r \<Longrightarrow> pvalue (Suc n) (dumps_at k v @ r) = Some (canon v, r)) \<Longrightarrow> reads k v"
  unfolding reads_def by (metis not_less_zero old.nat.exhaust)

lemma dumps_reads: "json_wf v \<Longrightarrow> reads k v"
proof (induction v arbitrary: k)
  case JNull
  then show ?case using pvalue_word(1) by (intro reads_atom) simp
next
  case (JBool b)
  then show ?case using pvalue_word(2,3) by (intro reads_atom) simp
next
  case (JInt i)
  then show ?case using pvalue_int by (intro reads_atom) simp
next
  case (JStr s)
  then show ?case using pvalue_str by (intro reads_atom) simp
next
  case (JList xs)
  show ?case
  proof (cases "xs = []")
    case True
    then show ?thesis by (intro reads_atom) (simp add: pvalue.simps ws_c_def)
  next
    case False
    have all: "list_all (\<lambda>x. json_wf x \<and> reads (k + 2) x) xs" using JList by (auto simp: list_all_iff)
    have sv: "starts_value (dumps_at (k + 2) (hd xs))" using JList.prems False dumps_starts by (cases xs) auto
    show ?thesis unfolding reads_def
    proof (intro allI impI)
      fix n r assume n: "size (JList xs) < n"
      then obtain m where m: "n = Suc m" "size_list size xs < m" by (cases n) auto
      let ?body = "join ('','' @ margin (k + 2)) (map (dumps_at (k + 2)) xs)"
      have sk: "skip (margin (k + 2) @ ?body @ q) = ?body @ q" for q
        using skip_value(1) [OF sv, of "k + 2"] False by (cases xs; cases "tl xs") simp_all
      have nb: "take 1 (?body @ q) \<noteq> '']''" for q
        using sv False by (cases xs; cases "tl xs"; cases "dumps_at (k + 2) (hd xs)") (auto simp: starts_value_def)
      define B where "B = ?body @ margin k @ CHR '']'' # r"
      have t: "dumps_at k (JList xs) @ r = CHR ''['' # margin (k + 2) @ B" using False by (simp add: B_def)
      have sB: "skip (margin (k + 2) @ B) = B" "take 1 B \<noteq> '']''" unfolding B_def by (rule sk nb)+
      have pB: "pelems m [] B = Some (canon (JList xs), r)"
        using pelems_dumps [OF False all m(2), of "[]" k r] by (simp add: B_def)
      show "pvalue n (dumps_at k (JList xs) @ r) = Some (canon (JList xs), r)"
        unfolding t m(1) pvalue.simps [of "Suc m"] nat.case list.case sB(1) using sB(2) pB by simp
    qed
  qed
next
  case (JDict d)
  show ?case
  proof (cases "d = []")
    case True
    then show ?thesis by (intro reads_atom) (simp add: pvalue.simps ws_c_def)
  next
    case False
    define ys where "ys = sort_key fst d"
    have "length ys = length d" by (simp add: ys_def)
    then have "ys \<noteq> []" using False by auto
    moreover have "distinct (map fst ([] @ ys))" using JDict.prems by (auto simp: ys_def distinct_map inj_on_def)
    ultimately have ys: "ys \<noteq> []" "distinct (map fst ([] @ ys))" by blast+
    have all: "list_all (\<lambda>kv. json_wf (snd kv) \<and> reads (k + 2) (snd kv)) ys"
      using JDict by (fastforce simp: list_all_iff ys_def snds.simps)
    show ?thesis unfolding reads_def
    proof (intro allI impI)
      fix n r assume n: "size (JDict d) < n"
      then obtain m where m: "n = Suc m" "size_list (size_prod (\<lambda>_. 0) size) ys < m" by (cases n) (auto simp: ys_def size_sorted)
      let ?body = "join ('','' @ margin (k + 2)) (map (member_text (k + 2)) ys)"
      have q: "\<exists>t. ?body @ q = CHR 0x22 # t" for q
        using ys(1) by (cases ys; cases "tl ys") (auto simp: member_text_def quote_def)
      have sk: "skip (margin (k + 2) @ ?body @ q) = ?body @ q" for q
        using q [of q] skip_margin [of "CHR 0x22" "k + 2"] by (auto simp: ws_c_def)
      have nb: "take 1 (?body @ q) \<noteq> ''}''" for q
      proof -
        from q [of q] obtain t where e: "?body @ q = CHR 0x22 # t" by blast
        show ?thesis unfolding e by simp
      qed
      define B where "B = ?body @ margin k @ CHR ''}'' # r"
      have t: "dumps_at k (JDict d) @ r = CHR ''{'' # margin (k + 2) @ B" using dumps_dict [OF False, of k] by (simp add: B_def ys_def)
      have sB: "skip (margin (k + 2) @ B) = B" "take 1 B \<noteq> ''}''" unfolding B_def by (rule sk nb)+
      have pB: "pmembers m [] B = Some (canon (JDict d), r)"
        using pmembers_dumps [OF ys(1) all m(2) ys(2), of k r] by (simp add: B_def sort_key_map ys_def)
      show "pvalue n (dumps_at k (JDict d) @ r) = Some (canon (JDict d), r)"
        unfolding t m(1) pvalue.simps [of "Suc m"] nat.case list.case sB(1) using sB(2) pB by simp
    qed
  qed
qed simp

lemma ascii_quote: "list_all is_ascii (quote s)"
proof -
  have h: "k < 16 \<Longrightarrow> is_ascii (hex_digit k)" for k by (cases "k < 10") (auto simp: hex_digit_def is_ascii_def)
  have "ord_c c div 16 < 16" "ord_c c mod 16 < 16" for c by (simp_all add: less_mult_imp_div_less)
  with h have "list_all is_ascii (quote_c c)" for c by (auto simp: quote_c_def is_ascii_def in_range_def)
  then have "list_all is_ascii (concat (map quote_c s))" by (induction s) auto
  then show ?thesis by (simp add: quote_def is_ascii_def)
qed

lemma ascii_join: "list_all is_ascii sep \<Longrightarrow> list_all (list_all is_ascii) ls \<Longrightarrow> list_all is_ascii (join sep ls)"
  by (rule join_props)

lemma digit_ascii: "list_all is_digit s \<Longrightarrow> list_all is_ascii s"
  by (auto simp: list_all_iff is_digit_def is_ascii_def in_range_def)

lemma ascii_marks [simp]: "is_ascii CHR '',''" "is_ascii CHR '':''" "is_ascii CHR ''[''" "is_ascii CHR '']''" "is_ascii CHR ''{''" "is_ascii CHR ''}''"
  "is_ascii CHR '' ''" "is_ascii nl"
  by (simp_all add: is_ascii_def)

lemma ascii_margin: "list_all is_ascii (margin n)"
  by (simp add: margin_def is_ascii_def list_all_iff)

lemma ascii_dumps: "json_wf v \<Longrightarrow> list_all is_ascii (dumps_at k v)"
proof (induction v arbitrary: k)
  case (JInt i)
  have "is_ascii CHR ''-''" by (simp add: is_ascii_def)
  then show ?case using digit_ascii [OF digits_str_nat] by (simp add: str_int_def)
next
  case (JStr s)
  then show ?case using ascii_quote by simp
next
  case (JList xs)
  have "list_all is_ascii (join ('','' @ margin (k + 2)) (map (dumps_at (k + 2)) xs))"
    using JList by (intro ascii_join) (auto simp: margin_def is_ascii_def list_all_iff)
  then show ?case by (simp add: ascii_margin)
next
  case (JDict d)
  have "list_all is_ascii (join ('','' @ margin (k + 2)) (map (member_text (k + 2)) (sort_key fst d)))"
    using JDict ascii_quote
    by (intro ascii_join) (fastforce simp: margin_def is_ascii_def list_all_iff member_text_def snds.simps)+
  then show ?case using dumps_dict [of d k] by (cases "d = []") (simp_all add: ascii_margin)
qed (simp_all add: is_ascii_def)

lemma utf8_ascii: "list_all is_ascii s \<Longrightarrow> decode_strict s = Inr s"
proof -
  assume a: "list_all is_ascii s"
  have "utf8_ok (map ord_c s)" using a by (induction s) (auto simp: is_ascii_def)
  moreover have "map narrow (decode_replace (map ord_c s)) = s"
    using a by (induction s) (auto simp: is_ascii_def narrow_def)
  ultimately show ?thesis by (simp add: decode_strict_def decode_text_def)
qed

text \<open>Reading what was written gives the value back, its keys in the order in which they were written.\<close>

lemma loads_dump:
  assumes "json_wf v"
  shows "loads (dump v) = Inr (canon v)"
proof -
  let ?s = "dump v"
  define N where "N = max (Suc (size v)) (2 * length ?s + 1)"
  have sk: "skip ?s = ?s" using skip_value(1) [OF dumps_starts [OF assms, of 0], of 0 "[nl]"]
    dumps_starts [OF assms, of 0] by (cases "dumps_at 0 v") (auto simp: dump_def starts_value_def)
  have "pvalue N ?s = Some (canon v, [nl])"
    using dumps_reads [OF assms, of 0] by (simp add: reads_def N_def dump_def tail_ok_def is_digit_def in_range_def)
  moreover have "pvalue N ?s = pvalue (2 * length ?s + 1) ?s" by (rule fuel_enough) (simp add: N_def)
  ultimately have "loads_text ?s = Inr (canon v)" by (simp add: loads_text_def sk ws_c_def)
  moreover have "list_all is_ascii ?s" using ascii_dumps [OF assms] by (simp add: dump_def is_ascii_def)
  ultimately show ?thesis by (simp add: loads_def utf8_ascii)
qed

lemma dget_canon: "distinct (map fst d) \<Longrightarrow> dget (canon_dict d) k = map_option canon (dget d k)"
proof -
  assume d: "distinct (map fst d)"
  have "map_of (sort_key fst d) = map_of d"
    using d by (subst map_of_inject_set) (auto simp: distinct_map inj_on_def)
  then have "dget (map (\<lambda>(k, v). (k, canon v)) (sort_key fst d)) k = map_option canon (dget d k)" by (simp add: map_of_map)
  then show ?thesis by (simp add: canon_dict_def sort_key_map case_prod_beta')
qed

lemma canon_JDict: "canon (JDict d) = JDict (canon_dict d)"
  by (simp add: canon_dict_def)

lemma json_wf_canon: "json_wf v \<Longrightarrow> json_wf (canon v)"
proof (induction v)
  case (JDict d)
  then show ?case by (fastforce simp: sort_key_map list_all_iff distinct_map inj_on_def snds.simps comp_def)
qed (auto simp: list_all_iff)

end
