(* ===== verification/Session_Chain.thy ===== *)
theory Session_Chain
  imports Json_Read
begin

text \<open>
  \<^verbatim>\<open>scripts/pixel/version_criterion.py\<close>, the session directory: its chain of records, the locks, the writes that never
  leave half a record, and the commands start, verify, decide and desk past their argument parser. A directory is the
  dictionary of its entries; the model runs the reads of one command on one state of it, as the lock that the command
  holds makes true for every command that takes the lock. Faults of the disk are a parameter of each write.
\<close>

section \<open>The chain of records\<close>

datatype node = Regular string | Special

type_synonym folder = "(string, node) dict"

definition SESSION_FILE :: "char rx" where
  "SESSION_FILE = seqs [Sym is_alnum, between 0 63 (Sym is_version_c), lit ''.json'']"

record link =
  l_name :: string
  l_record :: session
  l_sha :: string

definition read_record :: "string \<Rightarrow> session res" where
  "read_record data = (case bnd (loads data) check_session of
     Inl (ValueError t) \<Rightarrow> refuse ''is not JSON''
   | Inl e \<Rightarrow> Inl e
   | Inr d \<Rightarrow> Inr d)"

definition add_link :: "(string \<Rightarrow> string) \<Rightarrow> (string, link) dict \<Rightarrow> string \<times> node \<Rightarrow> (string, link) dict res" where
  "add_link sha links entry = (case entry of (name, node) \<Rightarrow>
     if ends_with ''.new'' name then refuse ''is left from an interrupted start, verify or decide''
     else (case node of
         Special \<Rightarrow> refuse ''is not a session record''
       | Regular data \<Rightarrow>
           if \<not> matches SESSION_FILE name then refuse ''is not a session record''
           else bnd (read_record data) (\<lambda>rec.
             if data \<noteq> dump (JDict rec) then refuse ''is not in the form the checker writes''
             else if dget links (sha data) \<noteq> None then refuse ''are the same record''
             else Inr (dput (sha data) \<lparr>l_name = name, l_record = rec, l_sha = sha data\<rparr> links))))"

definition previous :: "link \<Rightarrow> json res" where
  "previous l = jitem (l_record l) ''previous_sha256''"

definition add_child :: "(string, link) dict \<Rightarrow> (string, link) dict \<Rightarrow> link \<Rightarrow> (string, link) dict res" where
  "add_child links child l = bnd (previous l) (\<lambda>p. (case p of
     JNull \<Rightarrow> Inr child
   | JStr d \<Rightarrow>
       if dget links d = None then refuse ''names a previous record which no record hashes to; the chain is broken''
       else if dget child d \<noteq> None then refuse ''name the same previous record; the chain forks''
       else Inr (dput d l child)
   | _ \<Rightarrow> refuse ''names a previous record which no record hashes to; the chain is broken''))"

text \<open>
  The loop from a record to the one that names it. It ends because a session name that was met before refuses: the
  names of the remaining records get fewer.
\<close>

definition session_of :: "link \<Rightarrow> json" where
  "session_of l = jget (l_record l) ''session''"

function follow :: "(string, link) dict \<Rightarrow> link \<Rightarrow> json list \<Rightarrow> link list res" where
  "follow child l names = (case dget child (l_sha l) of
     None \<Rightarrow> Inr [l]
   | Some k \<Rightarrow>
       bnd (bnd (last_entry (l_record l)) (\<lambda>v. case v of JStr t \<Rightarrow> Inr t | _ \<Rightarrow> Inl TypeError)) (\<lambda>at.
       bnd (text_item ''started_at'' (JDict (l_record k))) (\<lambda>started.
         if started \<le> at then refuse ''starts not after the last entry of its previous record''
         else if dget (l_record k) ''session'' = None then Inl (KeyError ''session'')
         else if session_of k \<in> set names then refuse ''repeats the session name''
         else bnd (follow child k (session_of k # names)) (\<lambda>rest. Inr (l # rest)))))"
  by pat_completeness auto
termination
proof (relation "measure (\<lambda>(child, l, names). card ((session_of ` snd ` set child) - set names))", goal_cases)
  case (2 child l names k at started)
  let ?S = "session_of ` snd ` set child"
  have "session_of k \<in> ?S - set names" using 2 map_of_SomeD [of child "l_sha l" k] by force
  then have "?S - set (session_of k # names) \<subset> ?S - set names" by auto
  then have "card (?S - set (session_of k # names)) < card (?S - set names)" by (intro psubset_card_mono) simp_all
  then show ?case by simp
qed simp

declare follow.simps [simp del]

definition is_first :: "link \<Rightarrow> bool res" where
  "is_first l = bnd (previous l) (\<lambda>p. Inr (p = JNull))"

definition read_chain :: "(string \<Rightarrow> string) \<Rightarrow> folder option \<Rightarrow> link list res" where
  "read_chain sha dir = (case dir of
     None \<Rightarrow> refuse ''the session directory does not exist''
   | Some d \<Rightarrow>
       bnd (fold_res (add_link sha) [] (sort_key fst d)) (\<lambda>links.
         if links = [] then Inr []
         else bnd (map_res is_first (map snd links)) (\<lambda>firsts.
           (case filter snd (zip (map snd links) firsts) of
              [(l, _)] \<Rightarrow>
                bnd (fold_res (add_child links) [] (map snd links)) (\<lambda>child.
                bnd (jitem (l_record l) ''session'') (\<lambda>name.
                bnd (follow child l [name]) (\<lambda>ls.
                  if length ls \<noteq> length links then refuse ''records are not on the chain from its first record''
                  else Inr ls)))
            | _ \<Rightarrow> refuse ''records start a chain; exactly one may''))))"

definition newest_link :: "link list \<Rightarrow> string \<Rightarrow> string option \<Rightarrow> link res" where
  "newest_link ls name owner = (case last_opt ls of
     None \<Rightarrow> refuse ''holds no session record''
   | Some l \<Rightarrow>
       if name \<noteq> l_name l then refuse ''is not the newest session record of its directory''
       else if owner \<noteq> None \<and> owner \<noteq> Some (l_sha l) then refuse ''does not hash to the kept SHA-256; it may have been edited since''
       else Inr l)"

section \<open>Locks and writes\<close>

text \<open>
  What the host answers a command: which records another command locks, whether the record was replaced while it was
  opened, whether another start locks the directory, the fault of the write, and the clock.
\<close>

datatype write_fault = No_fault | Fault_write string | Fault_move | Fault_unlink | Fault_sync

record host =
  h_locked :: "string \<Rightarrow> bool"
  h_replaced :: bool
  h_dir_locked :: bool
  h_fault :: write_fault
  h_now :: string

definition lock_session :: "host \<Rightarrow> folder \<Rightarrow> string \<Rightarrow> string res" where
  "lock_session h d name =
     (if dget d (name @ ''.new'') \<noteq> None then refuse ''is left from an interrupted start, verify or decide''
      else (case dget d name of
          Some (Regular data) \<Rightarrow>
            if h_locked h name then refuse ''is locked by another start, verify or decide''
            else if h_replaced h then refuse ''was replaced while this command opened it''
            else Inr data
        | _ \<Rightarrow> Inl (OSError name)))"

definition locked_record :: "(string \<Rightarrow> string) \<Rightarrow> folder \<Rightarrow> string \<Rightarrow> string \<Rightarrow> string \<Rightarrow> session res" where
  "locked_record sha d name data wanted =
     bnd (bnd (read_chain sha (Some d)) (\<lambda>c. newest_link c name (Some wanted))) (\<lambda>_.
       if sha data \<noteq> wanted then refuse ''does not hash to the SHA-256 that the last command printed''
       else bnd (loads data) check_session)"

definition record_digest :: "(string \<Rightarrow> string) \<Rightarrow> session \<Rightarrow> string" where
  "record_digest sha s = sha (dump (JDict s))"

text \<open>
  The end of a write: the record is in place, or it is not, or it is and \<^verbatim>\<open>RecordWritten\<close> carries its SHA-256.
\<close>

datatype write_end = Wrote | Not_written py_error | Record_written string

definition write_session :: "(string \<Rightarrow> string) \<Rightarrow> write_fault \<Rightarrow> folder \<Rightarrow> string \<Rightarrow> session \<Rightarrow> folder \<times> write_end" where
  "write_session sha fault d name s =
     (let temp = name @ ''.new''; text = dump (JDict s) in
      if dget d temp \<noteq> None then (d, Not_written (Refusal ''is left from an interrupted start, verify or decide''))
      else (case fault of
          Fault_write part \<Rightarrow> (dput temp (Regular part) d, Not_written (OSError ''write''))
        | Fault_move \<Rightarrow> (dput temp (Regular text) d, Not_written (OSError ''replace''))
        | Fault_sync \<Rightarrow> (dput name (Regular text) d, Record_written (sha text))
        | _ \<Rightarrow> (dput name (Regular text) d, Wrote)))"

definition publish_record :: "(string \<Rightarrow> string) \<Rightarrow> write_fault \<Rightarrow> folder \<Rightarrow> string \<Rightarrow> session \<Rightarrow> folder \<times> write_end" where
  "publish_record sha fault d name s =
     (let temp = name @ ''.new''; text = dump (JDict s) in
      if dget d temp \<noteq> None then (d, Not_written (Refusal ''is left from an interrupted start, verify or decide''))
      else (case fault of
          Fault_write part \<Rightarrow> (dput temp (Regular part) d, Not_written (OSError ''write''))
        | Fault_move \<Rightarrow> (dput temp (Regular text) d, Not_written (OSError ''link''))
        | _ \<Rightarrow>
            if dget d name \<noteq> None then (d, Not_written (Refusal ''already exists''))
            else (case fault of
                Fault_unlink \<Rightarrow> (dput name (Regular text) (dput temp (Regular text) d), Record_written (sha text))
              | Fault_sync \<Rightarrow> (dput name (Regular text) d, Record_written (sha text))
              | _ \<Rightarrow> (dput name (Regular text) d, Wrote))))"

section \<open>The commands\<close>

text \<open>
  \<^verbatim>\<open>main\<close>'s exit status and the SHA-256 that the last line prints. It reports a refusal, an operating system error, a
  value error and a missing key; other errors end the program.
\<close>

type_synonym outcome = "(nat \<times> string option) res"

definition reported :: "py_error \<Rightarrow> outcome" where
  "reported e = (case e of
     Refusal t \<Rightarrow> Inr (1, None) | OSError t \<Rightarrow> Inr (1, None) | ValueError t \<Rightarrow> Inr (1, None)
   | SchemaError t \<Rightarrow> Inr (1, None) | KeyError t \<Rightarrow> Inr (1, None) | _ \<Rightarrow> Inl e)"

definition EXIT :: "string \<Rightarrow> nat" where
  "EXIT v = (if v = ''ALLOW'' then 0 else if v = ''REFUSE'' then 1 else 3)"

definition finish_write :: "folder \<times> write_end \<Rightarrow> nat \<times> string option \<Rightarrow> folder \<times> outcome" where
  "finish_write w ok = (case w of
     (d, Wrote) \<Rightarrow> (d, Inr ok)
   | (d, Not_written e) \<Rightarrow> (d, reported e)
   | (d, Record_written digest) \<Rightarrow> (d, Inr (1, Some digest)))"

definition minutes_option :: "string \<Rightarrow> int option" where
  "minutes_option text =
     (if matches (between 1 2 (Sym is_digit)) text \<and> 1 \<le> nat_of text \<and> int (nat_of text) \<le> READINGS_MAX_AGE_LIMIT
      then Some (int (nat_of text)) else None)"

definition sha256_option :: "string \<Rightarrow> string option" where
  "sha256_option text = (if matches SHA256 text then Some text else None)"

text \<open>A caiman-stable file that an option names: its bytes and its modification time.\<close>

type_synonym stable_file = "(string \<times> string) res option"

definition read_stable :: "stable_file \<Rightarrow> (string option \<times> string option) res" where
  "read_stable f = (case f of None \<Rightarrow> Inr (None, None) | Some r \<Rightarrow> bnd r (\<lambda>(data, at). Inr (Some data, Some at)))"

record start_command =
  sc_out :: string
  sc_session :: string
  sc_date :: string
  sc_first :: bool
  sc_previous :: string
  sc_beside :: bool
  sc_previous_sha :: "string option"
  sc_from_stable :: stable_file
  sc_updated :: stable_file
  sc_build :: "string option"

definition start_options :: "start_command \<Rightarrow> stable_file res" where
  "start_options a =
     (if \<not> matches SESSION_FILE (sc_out a) then refuse ''the new record is not named NAME.json''
      else if sc_first a then
        (if sc_previous_sha a \<noteq> None \<or> sc_updated a \<noteq> None then refuse ''the first session starts --from-stable''
         else Inr (sc_from_stable a))
      else if sc_from_stable a \<noteq> None then refuse ''--from-stable starts the first session''
      else if sc_previous_sha a = None then refuse ''a later session needs --previous-sha256''
      else if \<not> sc_beside a then refuse ''the new record must go beside the previous record''
      else Inr (sc_updated a))"

definition start_record :: "(string \<Rightarrow> string) \<Rightarrow> host \<Rightarrow> folder \<Rightarrow> start_command \<Rightarrow> session res" where
  "start_record sha h d a =
     bnd (start_options a) (\<lambda>f.
       if h_dir_locked h then refuse ''is locked by another start''
       else if sc_first a then
         bnd (read_chain sha (Some d)) (\<lambda>c.
           if c \<noteq> [] then refuse ''already holds session records''
           else bnd (read_stable f) (\<lambda>(data, at).
             start_session sha (sc_session a) (sc_date a) None True (h_now h)
               \<lparr>sa_stable = data, sa_fetched = at, sa_build = sc_build a\<rparr> []))
       else
         bnd (lock_session h d (sc_previous a)) (\<lambda>_.
         bnd (read_chain sha (Some d)) (\<lambda>c.
         bnd (newest_link c (sc_previous a) (sc_previous_sha a)) (\<lambda>l.
         bnd (read_stable f) (\<lambda>(data, at).
         bnd (map_res (\<lambda>k. jitem (l_record k) ''session'') c) (\<lambda>names.
           start_session sha (sc_session a) (sc_date a) (Some (JDict (l_record l))) False (h_now h)
             \<lparr>sa_stable = data, sa_fetched = at, sa_build = sc_build a\<rparr> names))))))"

definition start :: "(string \<Rightarrow> string) \<Rightarrow> host \<Rightarrow> folder \<Rightarrow> start_command \<Rightarrow> folder \<times> outcome" where
  "start sha h d a = (case start_record sha h d a of
     Inl e \<Rightarrow> (d, reported e)
   | Inr s \<Rightarrow> finish_write (publish_record sha (h_fault h) d (sc_out a) s) (0, Some (record_digest sha s)))"

text \<open>What verify, decide and desk share: the records and the repository of their tables, the image and its kind.\<close>

record table_options =
  to_projects :: projects
  to_records :: "json list res"
  to_repo :: repo
  to_signers :: "string res"
  to_cleaned :: bool
  to_kind :: string
  to_file :: image_file

definition by_release :: "json list \<Rightarrow> (string, json) dict res" where
  "by_release records = fold_res (\<lambda>m v. bnd (bnd (entry_item ''release'' v) (\<lambda>r. parse_release r True)) (\<lambda>rel. Inr (dput (base rel) v m)))
     [] records"

definition given_table :: "world \<Rightarrow> table_options \<Rightarrow> (table \<times> (string, json) dict) res" where
  "given_table w o' =
     bnd (to_records o') (\<lambda>records.
     bnd (load_table (to_projects o') (w_sha w) (by_tag (w_upstream w)) (Some (to_repo o')) True records) (\<lambda>t.
     bnd (by_release records) (\<lambda>m. Inr (t, m))))"

definition keep_identity :: "session \<Rightarrow> image \<Rightarrow> string \<Rightarrow> (session \<times> bool) res" where
  "keep_identity s i now =
     bnd (bnd (jitem s ''verified'') (\<lambda>v. case v of JDict vs \<Rightarrow> Inr vs | _ \<Rightarrow> Inl AttributeError)) (\<lambda>vs.
     (case dget vs (isha i) of
        None \<Rightarrow>
          (let s' = dput ''verified'' (JDict (dput (isha i) (JDict (identity_entry i now)) vs)) s in
           bnd (check_session (JDict s')) (\<lambda>_. Inr (s', True)))
      | Some kept \<Rightarrow>
          if \<not> py_eq (JDict (dput ''at'' JNull (dict_of kept))) (JDict (dput ''at'' JNull (identity_entry i now)))
          then refuse ''the session record already holds another identity''
          else Inr (s, False)))"

definition verify_record ::
  "world \<Rightarrow> host \<Rightarrow> folder \<Rightarrow> string \<Rightarrow> string \<Rightarrow> table_options \<Rightarrow> kit \<Rightarrow> (session \<times> bool) res" where
  "verify_record w h d name wanted o' k =
     bnd (lock_session h d name) (\<lambda>data.
     bnd (locked_record (w_sha w) d name data wanted) (\<lambda>s.
     bnd (given_table w o') (\<lambda>(t, m).
     bnd (given_image w (k\<lparr>k_records := m, k_signers := to_signers o'\<rparr>) (to_kind o') (to_file o') t) (\<lambda>i.
       keep_identity s i (h_now h)))))"

definition verify ::
  "world \<Rightarrow> host \<Rightarrow> folder \<Rightarrow> string \<Rightarrow> string \<Rightarrow> table_options \<Rightarrow> kit \<Rightarrow> folder \<times> outcome" where
  "verify w h d name wanted o' k = (case verify_record w h d name wanted o' k of
     Inl e \<Rightarrow> (d, reported e)
   | Inr (s, changed) \<Rightarrow>
       if changed then finish_write (write_session (w_sha w) (h_fault h) d name s) (0, Some (record_digest (w_sha w) s))
       else (d, Inr (0, Some (record_digest (w_sha w) s))))"

definition lowest :: "release list \<Rightarrow> release \<Rightarrow> release" where
  "lowest rs r = foldl (\<lambda>a b. if nat_of (base b) < nat_of (base a) then b else a) (hd (rs @ [r])) (tl (rs @ [r]))"

definition highest :: "release \<Rightarrow> release \<Rightarrow> release" where
  "highest a b = (if nat_of (base b) > nat_of (base a) then b else a)"

record decide_command =
  dc_readings :: "string res"
  dc_stage :: int
  dc_os_booted :: bool
  dc_update_pending :: string
  dc_channel :: string
  dc_approval :: "string res"
  dc_stable :: stable_file
  dc_max_age :: int

definition decide_record ::
  "world \<Rightarrow> host \<Rightarrow> folder \<Rightarrow> string \<Rightarrow> string \<Rightarrow> table_options \<Rightarrow> decide_command \<Rightarrow> (decision \<times> session) res" where
  "decide_record w h d name wanted o' c =
     bnd (lock_session h d name) (\<lambda>data.
     bnd (locked_record (w_sha w) d name data wanted) (\<lambda>s.
     bnd (given_table w o') (\<lambda>(t, m).
     bnd (verified_image w s (to_file o') (to_kind o') t) (\<lambda>i.
     bnd (bnd (phone_release s) (\<lambda>r. case r of None \<Rightarrow> Inl AttributeError | Some x \<Rightarrow> Inr x)) (\<lambda>reference.
     bnd (known_releases s) (\<lambda>known.
     bnd (signed_tags (w_sha w) (w_upstream w) (to_repo o') (to_signers o') (to_cleaned o')
        (lowest known (irelease i)) (highest reference (irelease i))) (\<lambda>tags.
     bnd (read_stable (dc_stable c)) (\<lambda>(stab, fetched).
     bnd (bnd (dc_readings c) parse) (\<lambda>rs.
     bnd (case stab of None \<Rightarrow> Inr None | Some b \<Rightarrow> bnd (parse_stable_channel b) (\<lambda>r. Inr (Some r))) (\<lambda>cur.
     bnd (bnd (dc_approval c) (\<lambda>b. load_approval (loads b))) (\<lambda>ap.
       decide i \<lparr>da_table = t, da_tags = tags, da_readings = rs, da_stage = dc_stage c, da_os_booted = dc_os_booted c,
         da_update_pending = dc_update_pending c, da_channel = dc_channel c, da_approval = ap, da_stable = cur,
         da_fetched = fetched, da_now = h_now h, da_max_age = dc_max_age c\<rparr> (JDict s))))))))))))"

definition decide_write ::
  "world \<Rightarrow> host \<Rightarrow> folder \<Rightarrow> string \<Rightarrow> string \<Rightarrow> table_options \<Rightarrow> decide_command \<Rightarrow> folder \<times> outcome" where
  "decide_write w h d name wanted o' c = (case decide_record w h d name wanted o' c of
     Inl e \<Rightarrow> (d, reported e)
   | Inr (dec, s) \<Rightarrow>
       if d_verdict dec = ''ALLOW''
       then finish_write (write_session (w_sha w) (h_fault h) d name s) (EXIT (d_verdict dec), Some (record_digest (w_sha w) s))
       else (d, Inr (EXIT (d_verdict dec), Some (record_digest (w_sha w) s))))"

definition desk_command :: "world \<Rightarrow> table_options \<Rightarrow> kit \<Rightarrow> string \<Rightarrow> outcome" where
  "desk_command w o' k tag = (case
     bnd (given_table w o') (\<lambda>(t, m).
     bnd (given_image w (k\<lparr>k_records := m, k_signers := to_signers o'\<rparr>) (to_kind o') (to_file o') t) (\<lambda>i.
     bnd (parse_release (JStr tag) False) (\<lambda>b.
     bnd (signed_tags (w_sha w) (w_upstream w) (to_repo o') (to_signers o') (to_cleaned o') b (irelease i)) (\<lambda>tags.
       desk i t tags tag)))) of
     Inl e \<Rightarrow> reported e
   | Inr r \<Rightarrow> Inr (0, None))"

section \<open>What a read chain is\<close>

lemma add_linkE:
  assumes "add_link sha links e = Inr links'"
  obtains data rec where "\<not> ends_with ''.new'' (fst e)" "matches SESSION_FILE (fst e)" "snd e = Regular data" "data = dump (JDict rec)"
    "check_session (JDict rec) = Inr rec" "dget links (sha data) = None"
    "links' = links @ [(sha data, \<lparr>l_name = fst e, l_record = rec, l_sha = sha data\<rparr>)]"
proof -
  obtain name node where e: "e = (name, node)" by (cases e)
  from assms obtain data rec where a: "\<not> ends_with ''.new'' name" "node = Regular data" "matches SESSION_FILE name"
    "read_record data = Inr rec" "data = dump (JDict rec)" "dget links (sha data) = None"
    "links' = dput (sha data) \<lparr>l_name = name, l_record = rec, l_sha = sha data\<rparr> links"
    by (auto simp: add_link_def e bnd_eq_Inr split: node.split_asm if_split_asm)
  from a(4) obtain v where "check_session v = Inr rec"
    by (auto simp: read_record_def bnd_eq_Inr split: sum.split_asm py_error.split_asm)
  with check_session_id have "check_session (JDict rec) = Inr rec" by auto
  with a that e show thesis by (auto simp: dput_new)
qed

definition link_of :: "(string \<Rightarrow> string) \<Rightarrow> folder \<Rightarrow> link \<Rightarrow> bool" where
  "link_of sha d l \<longleftrightarrow> (l_name l, Regular (dump (JDict (l_record l)))) \<in> set d \<and> matches SESSION_FILE (l_name l) \<and>
     check_session (JDict (l_record l)) = Inr (l_record l) \<and> l_sha l = sha (dump (JDict (l_record l)))"

lemma add_links:
  assumes "fold_res (add_link sha) links es = Inr links'" and "distinct (map fst links)" and "set es \<subseteq> set d"
    and "\<forall>kl \<in> set links. fst kl = l_sha (snd kl) \<and> link_of sha d (snd kl)"
  shows "distinct (map fst links') \<and> (\<forall>kl \<in> set links'. fst kl = l_sha (snd kl) \<and> link_of sha d (snd kl)) \<and>
    length links' = length links + length es \<and> (\<forall>e \<in> set es. \<not> ends_with ''.new'' (fst e))"
  using assms
proof (induction es arbitrary: links)
  case (Cons e es)
  from Cons.prems(1) obtain mid where m: "add_link sha links e = Inr mid" "fold_res (add_link sha) mid es = Inr links'"
    by (auto simp: bnd_eq_Inr)
  from m(1) obtain data rec where a: "\<not> ends_with ''.new'' (fst e)" "matches SESSION_FILE (fst e)" "snd e = Regular data" "data = dump (JDict rec)"
    "check_session (JDict rec) = Inr rec" "dget links (sha data) = None"
    "mid = links @ [(sha data, \<lparr>l_name = fst e, l_record = rec, l_sha = sha data\<rparr>)]" by (rule add_linkE)
  have "(fst e, Regular data) \<in> set d" using Cons.prems(3) a(3) by (cases e) auto
  then have "distinct (map fst mid)" "\<forall>kl \<in> set mid. fst kl = l_sha (snd kl) \<and> link_of sha d (snd kl)" "length mid = Suc (length links)"
    using Cons.prems(2,4) a by (auto simp: link_of_def dget_None)
  with Cons.IH [OF m(2)] Cons.prems(3) a(1) show ?case by simp
qed simp

definition after_previous :: "link \<Rightarrow> link \<Rightarrow> bool" where
  "after_previous l k \<longleftrightarrow> dget (l_record k) ''previous_sha256'' = Some (JStr (l_sha l)) \<and>
     (\<exists>at started. last_entry (l_record l) = Inr (JStr at) \<and> dget (l_record k) ''started_at'' = Some (JStr started) \<and> at < started)"

lemma add_childD:
  assumes "add_child links child l = Inr child'" "\<forall>pl \<in> set child. dget (l_record (snd pl)) ''previous_sha256'' = Some (JStr (fst pl)) \<and> snd pl \<in> ls" "l \<in> ls"
  shows "\<forall>pl \<in> set child'. dget (l_record (snd pl)) ''previous_sha256'' = Some (JStr (fst pl)) \<and> snd pl \<in> ls"
proof -
  obtain v where v: "jitem (l_record l) ''previous_sha256'' = Inr v"
    using assms(1) by (auto simp: add_child_def bnd_eq_Inr previous_def)
  from assms(1) v consider "child' = child" | p where "dget (l_record l) ''previous_sha256'' = Some (JStr p)" "child' = dput p l child"
    by (cases v) (auto simp: add_child_def bnd_eq_Inr previous_def jitem_Inr split: if_split_asm)
  then show ?thesis
  proof cases
    case 2
    then show ?thesis using assms(2,3) set_dput [of p l child] by auto
  qed (use assms in simp)
qed

lemma follow_chain:
  assumes "follow child l names = Inr c" and "\<forall>pl \<in> set child. dget (l_record (snd pl)) ''previous_sha256'' = Some (JStr (fst pl)) \<and> snd pl \<in> ls"
  shows "c \<noteq> [] \<and> hd c = l \<and> successively after_previous c \<and> distinct (map session_of (tl c)) \<and>
    set (map session_of (tl c)) \<inter> set names = {} \<and> set (tl c) \<subseteq> ls \<and> set (tl c) \<subseteq> snd ` set child"
  using assms
proof (induction child l names arbitrary: c rule: follow.induct)
  case (1 child l names)
  show ?case
  proof (cases "dget child (l_sha l)")
    case None
    with "1.prems"(1) have "c = [l]" by (simp add: follow.simps [of child l names])
    then show ?thesis by simp
  next
    case (Some k)
    with "1.prems"(1) obtain at started rest where f: "bnd (last_entry (l_record l)) (\<lambda>v. case v of JStr t \<Rightarrow> Inr t | _ \<Rightarrow> Inl TypeError) = Inr at"
      "text_item ''started_at'' (JDict (l_record k)) = Inr started" "\<not> started \<le> at" "dget (l_record k) ''session'' \<noteq> None"
      "session_of k \<notin> set names" "follow child k (session_of k # names) = Inr rest" "c = l # rest"
      unfolding follow.simps [of child l names] by (auto simp: bnd_eq_Inr split: if_split_asm)
    have k: "(l_sha l, k) \<in> set child" using Some by (rule map_of_SomeD)
    have at: "last_entry (l_record l) = Inr (JStr at)"
      using f(1) by (cases "last_entry (l_record l)"; cases "projr (last_entry (l_record l))") auto
    have "after_previous l k" using "1.prems"(2) k f(2,3) at unfolding after_previous_def by (fastforce simp: text_item_Inr)
    moreover have "k \<in> snd ` set child" using k by force
    moreover note "1.IH" [OF Some f(1,2) f(3) _ f(5) f(6) "1.prems"(2)]
    ultimately show ?thesis using f(4,5,7) k "1.prems"(2) by (cases rest) auto
  qed
qed

lemma map_res_zip: "map_res f xs = Inr ys \<Longrightarrow> (x, y) \<in> set (zip xs ys) \<Longrightarrow> f x = Inr y"
  by (auto simp: map_res_Inr list_all2_iff)

lemma case_single_Inr: "(case xs of [(a, b)] \<Rightarrow> f a b | _ \<Rightarrow> Inl e) = Inr y \<longleftrightarrow> (\<exists>a b. xs = [(a, b)] \<and> f a b = Inr y)"
  by (auto split: list.splits)

definition file_of :: "link \<Rightarrow> string \<times> node" where
  "file_of l = (l_name l, Regular (dump (JDict (l_record l))))"

lemma read_chain_links:
  assumes "read_chain sha (Some d) = Inr c"
  obtains links where "fold_res (add_link sha) [] (sort_key fst d) = Inr links" "set c \<subseteq> snd ` set links" "length c = length links"
    "successively after_previous c" "distinct (map session_of c)" "c \<noteq> [] \<longrightarrow> dget (l_record (hd c)) ''previous_sha256'' = Some JNull"
proof -
  from assms obtain links where l: "fold_res (add_link sha) [] (sort_key fst d) = Inr links"
    unfolding read_chain_def option.case bnd_eq_Inr by blast
  show thesis
  proof (cases "links = []")
    case True
    then have "c = []" using assms by (simp only: read_chain_def option.case l bnd_Inr if_P [OF True]) simp
    with True l that show thesis by simp
  next
    case False
    have "bnd (map_res is_first (map snd links)) (\<lambda>firsts. (case filter snd (zip (map snd links) firsts) of
              [(l, _)] \<Rightarrow>
                bnd (fold_res (add_child links) [] (map snd links)) (\<lambda>child.
                bnd (jitem (l_record l) ''session'') (\<lambda>name.
                bnd (follow child l [name]) (\<lambda>ls.
                  if length ls \<noteq> length links then refuse ''records are not on the chain from its first record''
                  else Inr ls)))
            | _ \<Rightarrow> refuse ''records start a chain; exactly one may'')) = Inr c"
      using assms by (simp only: read_chain_def option.case l bnd_Inr if_not_P [OF False])
    then obtain firsts f b child name where f: "map_res is_first (map snd links) = Inr firsts"
      "filter snd (zip (map snd links) firsts) = [(f, b)]" "fold_res (add_child links) [] (map snd links) = Inr child"
      "jitem (l_record f) ''session'' = Inr name" "follow child f [name] = Inr c" "length c = length links"
      unfolding bnd_eq_Inr case_single_Inr if_Inl_eq_Inr by blast
    have ch: "\<forall>pl \<in> set child. dget (l_record (snd pl)) ''previous_sha256'' = Some (JStr (fst pl)) \<and> snd pl \<in> snd ` set links"
      by (rule fold_res_inv [OF f(3)]) (simp, rule add_childD, simp_all)
    have "(f, b) \<in> set (filter snd (zip (map snd links) firsts))" unfolding f(2) by simp
    then have z: "(f, b) \<in> set (zip (map snd links) firsts)" "b" by auto
    from z(1) have "f \<in> snd ` set links" by (auto dest: set_zip_leftD)
    moreover have "is_first f = Inr b" using f(1) z(1) by (rule map_res_zip)
    then have "dget (l_record f) ''previous_sha256'' = Some JNull" using z(2) by (auto simp: is_first_def previous_def bnd_eq_Inr jitem_Inr)
    moreover have "session_of f = name" using f(4) by (simp add: session_of_def jitem_Inr jget_def)
    moreover note follow_chain [OF f(5) ch]
    ultimately show thesis using that [OF l _ f(6)] by (cases c) auto
  qed
qed

lemma read_chain_facts:
  assumes "read_chain sha (Some d) = Inr c"
  shows "set d = file_of ` set c" "length d = length c" "\<forall>l \<in> set c. link_of sha d l" "\<forall>e \<in> set d. \<not> ends_with ''.new'' (fst e)"
    "inj_on l_sha (set c)"
proof -
  from assms obtain links where l: "fold_res (add_link sha) [] (sort_key fst d) = Inr links" "set c \<subseteq> snd ` set links" "length c = length links"
    "distinct (map session_of c)" by (rule read_chain_links)
  from add_links [OF l(1), of d]
  have k: "distinct (map fst links)" "\<forall>kl \<in> set links. fst kl = l_sha (snd kl) \<and> link_of sha d (snd kl)" "length links = length d"
    "\<forall>e \<in> set d. \<not> ends_with ''.new'' (fst e)" by simp_all
  show 1: "\<forall>l \<in> set c. link_of sha d l" using k(2) l(2) by auto
  show 2: "length d = length c" using k(3) l(3) by simp
  show "\<forall>e \<in> set d. \<not> ends_with ''.new'' (fst e)" by (rule k(4))
  show inj: "inj_on l_sha (set c)"
  proof (rule inj_onI)
    fix x y assume a: "x \<in> set c" "y \<in> set c" "l_sha x = l_sha y"
    then obtain i j where "(i, x) \<in> set links" "(j, y) \<in> set links" using l(2) by force
    with a(3) k(1,2) show "x = y" by (metis eq_key_imp_eq_value fst_conv snd_conv)
  qed
  have "inj_on file_of (set c)"
  proof (rule inj_onI)
    fix x y assume a: "x \<in> set c" "y \<in> set c" "file_of x = file_of y"
    with 1 have "l_sha x = l_sha y" by (simp add: link_of_def file_of_def)
    with inj a show "x = y" by (auto dest: inj_onD)
  qed
  then have "card (file_of ` set c) = length c" using l(4) by (simp add: card_image distinct_card distinct_map)
  moreover have "file_of ` set c \<subseteq> set d" using 1 by (auto simp: link_of_def file_of_def)
  moreover have "card (set d) \<le> length d" by (rule card_length)
  ultimately show "set d = file_of ` set c" using 2 by (metis List.finite_set card_seteq)
qed

text \<open>
  C5: A directory that reads is one chain. Its entries are exactly the records of the chain, each a plain NAME.json
  file whose bytes are what the checker writes for a checked record, no two with the same SHA-256 or session name; the
  first names no previous record, and every later one names the SHA-256 of the one before and starts after its last
  entry.
\<close>

theorem read_chain_sound:
  assumes "read_chain sha (Some d) = Inr c"
  shows "set d = file_of ` set c \<and> length d = length c \<and> (\<forall>l \<in> set c. link_of sha d l) \<and> inj_on l_sha (set c) \<and>
    distinct (map session_of c) \<and> (c \<noteq> [] \<longrightarrow> dget (l_record (hd c)) ''previous_sha256'' = Some JNull) \<and>
    successively after_previous c"
proof -
  from assms obtain links where "successively after_previous c" "distinct (map session_of c)"
    "c \<noteq> [] \<longrightarrow> dget (l_record (hd c)) ''previous_sha256'' = Some JNull" by (rule read_chain_links)
  with read_chain_facts [OF assms] show ?thesis by blast
qed

definition sample_folder :: folder where
  "sample_folder = [(''first.json'', Regular (dump (JDict sample_first)))]"

lemma sample_folder_reads: "map_sum id length (read_chain sample_sha (Some sample_folder)) = Inr 1"
  by code_simp

theorem read_chain_sound_witness:
  "\<exists>c. read_chain sample_sha (Some sample_folder) = Inr c \<and> length c = 1 \<and> file_of ` set c = set sample_folder"
proof -
  obtain c where c: "read_chain sample_sha (Some sample_folder) = Inr c" "length c = 1"
    using sample_folder_reads by (cases "read_chain sample_sha (Some sample_folder)") auto
  from read_chain_sound [OF c(1)] c show ?thesis by auto
qed

text \<open>The walk with a bound on its rounds; \<open>None\<close> when the bound is used up.\<close>

fun follow_n :: "nat \<Rightarrow> (string, link) dict \<Rightarrow> link \<Rightarrow> json list \<Rightarrow> link list res option" where
  "follow_n 0 child l names = None"
| "follow_n (Suc n) child l names = (case dget child (l_sha l) of
     None \<Rightarrow> Some (Inr [l])
   | Some k \<Rightarrow>
       (case bnd (bnd (last_entry (l_record l)) (\<lambda>v. case v of JStr t \<Rightarrow> Inr t | _ \<Rightarrow> Inl TypeError)) (\<lambda>at.
             bnd (text_item ''started_at'' (JDict (l_record k))) (\<lambda>started.
               if started \<le> at then refuse ''starts not after the last entry of its previous record''
               else if dget (l_record k) ''session'' = None then Inl (KeyError ''session'')
               else if session_of k \<in> set names then refuse ''repeats the session name''
               else Inr ())) of
          Inl e \<Rightarrow> Some (Inl e)
        | Inr _ \<Rightarrow> map_option (\<lambda>r. bnd r (\<lambda>rest. Inr (l # rest))) (follow_n n child k (session_of k # names))))"

lemma follow_n_enough:
  assumes "card (session_of ` snd ` set child - set names) < n"
  shows "follow_n n child l names = Some (follow child l names)"
  using assms
proof (induction n arbitrary: l names)
  case (Suc n)
  let ?S = "session_of ` snd ` set child"
  show ?case
  proof (cases "dget child (l_sha l)")
    case None
    then show ?thesis by (simp add: follow.simps [of child l names])
  next
    case (Some k)
    have "follow_n n child k (session_of k # names) = Some (follow child k (session_of k # names))" if "session_of k \<notin> set names"
    proof (rule Suc.IH)
      have "session_of k \<in> ?S - set names" using that map_of_SomeD [OF Some] by force
      then have "?S - set (session_of k # names) \<subset> ?S - set names" by auto
      then have "card (?S - set (session_of k # names)) < card (?S - set names)" by (intro psubset_card_mono) simp_all
      with Suc.prems show "card (?S - set (session_of k # names)) < n" by simp
    qed
    then show ?thesis using Some
      by (cases "bnd (last_entry (l_record l)) (\<lambda>v. case v of JStr t \<Rightarrow> Inr t | _ \<Rightarrow> Inl TypeError)";
          cases "text_item ''started_at'' (JDict (l_record k))"; simp add: follow.simps [of child l names])
  qed
qed simp

text \<open>
  C18: The walk along the chain ends. Whatever the records claim, even where the previous records they name form a
  cycle, one round for each record that has a previous one, and one more, is enough for the walk to return its chain or
  its refusal.
\<close>

theorem follow_ends:
  "follow_n (Suc (length child)) child l names = Some (follow child l names)"
proof (rule follow_n_enough)
  have "card (session_of ` snd ` set child - set names) \<le> card (session_of ` snd ` set child)" by (rule card_mono) auto
  also have "\<dots> \<le> card (snd ` set child)" by (rule card_image_le) simp
  also have "\<dots> \<le> card (set child)" by (rule card_image_le) simp
  also have "\<dots> \<le> length child" by (rule card_length)
  finally show "card (session_of ` snd ` set child - set names) < Suc (length child)" by simp
qed

end
