(* ===== verification/Session_Store.thy ===== *)
theory Session_Store
  imports Session_Chain
begin

text \<open>
  What the commands of \<^verbatim>\<open>scripts/pixel/version_criterion.py\<close> do to the session directory over any sequence of runs,
  with any fault of the disk in each: the directory as a state machine, its invariant, and what no run can undo.
\<close>

section \<open>A record read back\<close>

lemma parse_release_canon [simp]: "parse_release (canon v) b = parse_release v b"
  by (cases v) (simp_all add: parse_release_def)

lemma canon_canon [simp]: "canon (canon v) = canon v"
proof (induction v)
  case (JDict d)
  have "map (\<lambda>kv. (fst kv, canon (snd kv))) (map (\<lambda>kv. (fst kv, canon (snd kv))) d) = map (\<lambda>kv. (fst kv, canon (snd kv))) d"
    using JDict by (auto simp: snds.simps)
  then have "sort_key fst (map (\<lambda>kv. (fst kv, canon (snd kv))) (sort_key fst (map (\<lambda>kv. (fst kv, canon (snd kv))) d))) =
    sort_key fst (map (\<lambda>kv. (fst kv, canon (snd kv))) d)"
    by (simp only: sort_key_map [symmetric] sort_key_id_if_sorted [OF sorted_sort_key])
  then show ?case by simp
qed simp_all

lemma json_wf_dget: "json_wf (JDict d) \<Longrightarrow> dget d k = Some v \<Longrightarrow> json_wf v"
  by (auto simp: list_all_iff dest: map_of_SomeD)

lemma json_wf_dput: "json_wf (JDict d) \<Longrightarrow> json_wf v \<Longrightarrow> json_wf (JDict (dput k v d))"
  by (simp add: list_all_dput distinct_update)

lemma jitem_canon: "json_wf (JDict d) \<Longrightarrow> jitem (canon_dict d) k = map_sum id canon (jitem d k)"
  by (simp add: jitem_def dget_canon split: option.split)

lemma entry_item_canon: "json_wf e \<Longrightarrow> entry_item k (canon e) = map_sum id canon (entry_item k e)"
  by (cases e) (simp_all only: canon_JDict, simp_all add: entry_item_def jitem_canon)

lemma list_item_canon:
  assumes "json_wf (JDict d)"
  shows "list_item (canon_dict d) k = map_sum id (map canon) (list_item d k)"
proof (cases "jitem d k")
  case (Inr v)
  then show ?thesis by (cases v) (simp_all only: list_item_def jitem_canon [OF assms], simp_all)
qed (simp add: list_item_def jitem_canon [OF assms])

lemma map_res_canon:
  "(\<And>x. x \<in> set xs \<Longrightarrow> f (canon x) = map_sum id g (f x)) \<Longrightarrow> map_res f (map canon xs) = map_sum id (map g) (map_res f xs)"
proof (induction xs)
  case (Cons x xs)
  then show ?case by (cases "f x"; cases "map_res f xs") simp_all
qed simp

lemma known_releases_canon:
  assumes "json_wf (JDict s)"
  shows "known_releases (canon_dict s) = known_releases s"
proof -
  have "known_numbers (canon_dict s) = map_sum id (map canon) (known_numbers s)"
  proof (cases "list_item s ''allowed''")
    case (Inr es)
    then have "dget s ''allowed'' = Some (JList es)" by (simp only: list_item_Inr)
    with assms have "json_wf (JList es)" by (rule json_wf_dget)
    then have "map_res (entry_item ''release'') (map canon es) = map_sum id (map canon) (map_res (entry_item ''release'') es)"
      by (intro map_res_canon entry_item_canon) (auto simp: list_all_iff)
    then show ?thesis using Inr assms
      by (cases "jitem s ''start_release''"; cases "list_item s ''carried''"; cases "map_res (entry_item ''release'') es")
        (simp_all add: known_numbers_def jitem_canon list_item_canon)
  qed (use assms in \<open>cases "jitem s ''start_release''"; cases "list_item s ''carried''"; simp add: known_numbers_def jitem_canon list_item_canon\<close>)
  moreover have "map_res (\<lambda>n. parse_release n True) (map canon ns) = map_res (\<lambda>n. parse_release n True) ns" for ns
    by (induction ns) simp_all
  ultimately show ?thesis by (cases "known_numbers s") (simp_all add: known_releases_def)
qed

lemma parse_numbers_append:
  "map_res (\<lambda>n. parse_release n True) (ns @ [x]) = Inr rs \<Longrightarrow> \<exists>ks. map_res (\<lambda>n. parse_release n True) ns = Inr ks \<and> set ks \<subseteq> set rs"
  by (auto simp: map_res_append bnd_eq_Inr)

lemma known_verified: "known_releases (dput ''verified'' v s) = known_releases s"
  by (simp add: known_releases_def known_numbers_def list_item_def jitem_def dget_dput)

lemma known_appended:
  assumes "dget s ''allowed'' = Some (JList es)" "known_releases (dput ''allowed'' (JList (es @ [e])) s) = Inr rs" "known_releases s = Inr ks"
  shows "set ks \<subseteq> set rs"
proof -
  from assms(3) obtain ns where ns: "known_numbers s = Inr ns" "map_res (\<lambda>n. parse_release n True) ns = Inr ks"
    by (auto simp: known_releases_def bnd_eq_Inr)
  obtain x where "known_numbers (dput ''allowed'' (JList (es @ [e])) s) = Inr (ns @ [x])"
    using ns(1) assms(1,2) by (auto simp: known_releases_def known_numbers_def bnd_eq_Inr list_item_def jitem_def dget_dput map_res_append
      split: option.split_asm jval.split_asm)
  with assms(2) have "map_res (\<lambda>n. parse_release n True) (ns @ [x]) = Inr rs" by (simp add: known_releases_def)
  from parse_numbers_append [OF this] ns(2) show ?thesis by auto
qed

section \<open>The directory's states\<close>

definition good :: "session \<Rightarrow> bool" where
  "good s \<longleftrightarrow> json_wf (JDict s) \<and> check_session (JDict s) = Inr s"

definition stored :: "folder \<Rightarrow> string \<Rightarrow> session \<Rightarrow> bool" where
  "stored d n s \<longleftrightarrow> dget d n = Some (Regular (dump (JDict s))) \<and> good s"

abbreviation leftover :: "string \<Rightarrow> bool" where
  "leftover n \<equiv> ends_with ''.new'' n"

definition folder_ok :: "folder \<Rightarrow> bool" where
  "folder_ok d \<longleftrightarrow> (\<forall>n x. dget d n = Some x \<longrightarrow> \<not> leftover n \<longrightarrow> (\<exists>s. stored d n s))"

text \<open>A record that grew: only its verified images and its allowed writes differ, and no known release is lost.\<close>

definition grown_member :: "string \<Rightarrow> bool" where
  "grown_member k \<longleftrightarrow> k = ''verified'' \<or> k = ''allowed''"

definition grows :: "session \<Rightarrow> session \<Rightarrow> bool" where
  "grows s s' \<longleftrightarrow> (\<forall>k. \<not> grown_member k \<longrightarrow> map_option canon (dget s' k) = map_option canon (dget s k)) \<and>
     (\<forall>rs. known_releases s = Inr rs \<longrightarrow> (\<exists>rs'. known_releases s' = Inr rs' \<and> set rs \<subseteq> set rs'))"

lemma grows_refl: "grows s s"
  by (simp add: grows_def)

lemma grows_trans: "grows s t \<Longrightarrow> grows t u \<Longrightarrow> grows s u"
  unfolding grows_def by (auto 0 4)

lemma grows_canon: "json_wf (JDict s) \<Longrightarrow> grows s (canon_dict s)"
  by (simp add: grows_def known_releases_canon dget_canon option.map_comp comp_def)

text \<open>One run of a command, with any fault, or the removal by hand of what an interrupted run left.\<close>

inductive session_step :: "folder \<Rightarrow> folder \<Rightarrow> bool" where
  by_start: "session_step d (fst (start sha h d a))"
| by_verify: "session_step d (fst (verify w h d name wanted o' k))"
| by_decide: "session_step d (fst (decide_write w h d name wanted o' c))"
| by_hand: "session_step d (filter (\<lambda>e. \<not> leftover (fst e)) d)"

inductive_cases session_stepE: "session_step d d'"

section \<open>One command\<close>

lemma identity_entry_wf: "json_wf (JDict (identity_entry i now))"
  by (simp add: identity_entry_def as_dict_def list_all_iff)

lemma allow_entry_wf: "json_wf (JDict (allow_entry i now))"
  by (simp add: allow_entry_def)

lemma case_JDict_Inr: "(case v of JDict vs \<Rightarrow> Inr vs | _ \<Rightarrow> Inl AttributeError) = Inr x \<longleftrightarrow> v = JDict x"
  by (cases v) auto

lemma keep_identity_grows:
  assumes "keep_identity s i now = Inr (s', b)" "good s"
  shows "good s' \<and> grows s s'"
proof -
  from assms(1) [unfolded keep_identity_def bnd_eq_Inr] obtain v vs where v: "dget s ''verified'' = Some v" "v = JDict vs"
    and r: "(case dget vs (isha i) of
        None \<Rightarrow>
          (let s' = dput ''verified'' (JDict (dput (isha i) (JDict (identity_entry i now)) vs)) s in
           bnd (check_session (JDict s')) (\<lambda>_. Inr (s', True)))
      | Some kept \<Rightarrow>
          if \<not> py_eq (JDict (dput ''at'' JNull (dict_of kept))) (JDict (dput ''at'' JNull (identity_entry i now)))
          then refuse ''the session record already holds another identity''
          else Inr (s, False)) = Inr (s', b)"
    unfolding jitem_Inr case_JDict_Inr by blast
  show ?thesis
  proof (cases "dget vs (isha i)")
    case (Some kept)
    then have "s' = s" using r by (simp split: if_split_asm)
    then show ?thesis using assms(2) by (simp add: grows_refl)
  next
    case None
    with r obtain t where s': "s' = dput ''verified'' (JDict (dput (isha i) (JDict (identity_entry i now)) vs)) s"
      "check_session (JDict s') = Inr t" by (simp add: Let_def bnd_eq_Inr) blast
    have t: "t = s'" using check_session_id [OF s'(2)] by simp
    have "json_wf (JDict vs)" using json_wf_dget [OF _ v(1)] assms(2) v(2) by (simp only: good_def)
    then have "json_wf (JDict s')" unfolding s'(1) using assms(2)
      by (intro json_wf_dput identity_entry_wf) (simp_all only: good_def)
    moreover have "grows s s'" by (simp add: grows_def s'(1) known_verified grown_member_def dget_dput)
    ultimately show ?thesis using s'(2) t by (simp add: good_def)
  qed
qed

lemma approve_grows:
  assumes "approve d0 i ap s now = Inr (d, s')" "good s"
  shows "good s' \<and> grows s s'"
  using assms(1)
proof (cases rule: approveE)
  case 1
  then show ?thesis using assms(2) by (simp add: grows_refl)
next
  case (2 e es)
  have "json_wf (JList es)" using json_wf_dget [OF _ 2(5)] assms(2) by (simp only: good_def)
  then have "json_wf (JList (es @ [JDict (allow_entry i now)]))" using allow_entry_wf by (simp only: json_wf.simps list_all_append) simp
  then have "json_wf (JDict s')" unfolding 2(6) using assms(2) by (intro json_wf_dput) (simp_all only: good_def)
  moreover have "grows s s'"
  proof -
    from known_releases_checked [OF 2(7)] obtain rs' where rs': "known_releases s' = Inr rs'" by blast
    then have "set rs \<subseteq> set rs'" if "known_releases s = Inr rs" for rs
      using known_appended [OF 2(5) _ that] by (simp add: 2(6))
    with rs' show ?thesis by (simp add: grows_def grown_member_def 2(6) dget_dput)
  qed
  ultimately show ?thesis using 2(7) by (simp add: good_def)
qed

lemma new_record_wf:
  "json_wf update \<Longrightarrow> json_wf origin \<Longrightarrow> json_wf (JDict (new_record i day now n carried origin update))"
  by (simp add: new_record_def list_all_iff)

lemma stable_start_wf: "stable_start sha data fetched bn known now = Inr u \<Longrightarrow> json_wf (JDict u)"
  by (erule stable_startD) simp

lemma start_session_good:
  assumes "start_session sha i day pr first now a names = Inr d"
  shows "good d"
proof -
  have "\<exists>n cs origin update. d = new_record i day now n cs origin update \<and> json_wf origin \<and> json_wf update \<and> check_session (JDict d) = Inr d"
  proof (cases pr)
    case None
    with start_sessionE(6) [OF assms] have "first_session sha i day now a = Inr d" by simp
    then show ?thesis by (rule first_sessionE) (intro exI conjI, assumption, simp_all)
  next
    case (Some p)
    with start_sessionE(6) [OF assms] have c: "continue_session sha i day p now a = Inr d" by simp
    have "\<exists>n cs o' u. check_session (JDict (new_record i day now n cs (JStr o') u)) = Inr d \<and> json_wf u"
    proof -
      from c obtain prior and known :: "release list" and st :: release where r: "(if sa_stable a = None \<and> sa_fetched a = None \<and> sa_build a = None then
         check_session (JDict (new_record i day now (number st) (sorted_set (map number known)) (JStr (sha (dump (JDict prior)))) JNull))
       else bnd (stable_start sha (sa_stable a) (sa_fetched a) (sa_build a) known now) (\<lambda>update.
         bnd (parse_release (jget update ''release'') True) (\<lambda>st.
           check_session (JDict (new_record i day now (number st) (sorted_set (number st # map number known))
             (JStr (sha (dump (JDict prior)))) (JDict update)))))) = Inr d"
        unfolding continue_session_def bnd_eq_Inr if_Inl_eq_Inr Let_def by blast
      show ?thesis
      proof (cases "sa_stable a = None \<and> sa_fetched a = None \<and> sa_build a = None")
        case True
        show ?thesis using r [unfolded if_P [OF True]] by (intro exI conjI) (assumption, simp)
      next
        case False
        from r [unfolded if_not_P [OF False] bnd_eq_Inr] obtain u and st :: release where
          "stable_start sha (sa_stable a) (sa_fetched a) (sa_build a) known now = Inr u"
          "check_session (JDict (new_record i day now (number st) (sorted_set (number st # map number known))
             (JStr (sha (dump (JDict prior)))) (JDict u))) = Inr d" by blast
        then show ?thesis using stable_start_wf by blast
      qed
    qed
    then obtain n cs o' u where u: "check_session (JDict (new_record i day now n cs (JStr o') u)) = Inr d" "json_wf u" by blast
    from check_session_id [OF u(1)] have "d = new_record i day now n cs (JStr o') u" by simp
    with u show ?thesis by (intro exI [of _ n] exI [of _ cs] exI [of _ "JStr o'"] exI [of _ u]) simp
  qed
  then show ?thesis using new_record_wf unfolding good_def by blast
qed

lemma SESSION_FILE_not_leftover:
  assumes "matches SESSION_FILE n"
  shows "\<not> leftover n"
proof
  assume "leftover n"
  then have w: "last n = CHR ''w''" by (auto simp: ends_with_iff)
  from assms obtain u where "n = u @ ''.json''"
    by (auto simp: SESSION_FILE_def fullmatch_lang lang_def)
  with w show False by simp
qed

lemma leftover_new: "leftover (n @ ''.new'')"
  by (simp add: ends_with_iff)

section \<open>The writes\<close>

text \<open>A state that keeps every record of another, grown or as it was, and whose records are records.\<close>

definition keeps :: "folder \<Rightarrow> folder \<Rightarrow> bool" where
  "keeps d d' \<longleftrightarrow> folder_ok d' \<and> (\<forall>n s. stored d n s \<longrightarrow> \<not> leftover n \<longrightarrow> (\<exists>s'. stored d' n s' \<and> grows s s'))"

lemma keeps_refl: "folder_ok d \<Longrightarrow> keeps d d"
  unfolding keeps_def using grows_refl by blast

lemma keeps_trans: "keeps d e \<Longrightarrow> keeps e f \<Longrightarrow> keeps d f"
  unfolding keeps_def using grows_trans by blast

lemma keeps_same:
  assumes "folder_ok d" "\<And>n. \<not> leftover n \<Longrightarrow> dget d' n = dget d n"
  shows "keeps d d'"
proof -
  have st: "stored d' n s \<longleftrightarrow> stored d n s" if "\<not> leftover n" for n s using assms(2) [OF that] by (simp add: stored_def)
  have "folder_ok d'" unfolding folder_ok_def
  proof (intro allI impI)
    fix n x assume "dget d' n = Some x" "\<not> leftover n"
    with assms show "\<exists>s. stored d' n s" by (simp add: st folder_ok_def)
  qed
  then show ?thesis unfolding keeps_def using st grows_refl by blast
qed

lemma keeps_put:
  assumes "folder_ok d" "good s" "\<And>s0. stored d n s0 \<Longrightarrow> grows s0 s"
  shows "keeps d (dput n (Regular (dump (JDict s))) d)"
proof -
  let ?d = "dput n (Regular (dump (JDict s))) d"
  have new: "stored ?d n s" using assms(2) by (simp add: stored_def dget_dput)
  have old: "stored ?d m t \<longleftrightarrow> stored d m t" if "m \<noteq> n" for m t using that by (simp add: stored_def dget_dput)
  have "folder_ok ?d" unfolding folder_ok_def
  proof (intro allI impI)
    fix m x assume "dget ?d m = Some x" "\<not> leftover m"
    with assms(1) show "\<exists>t. stored ?d m t" using new old by (cases "m = n") (auto simp: folder_ok_def dget_dput)
  qed
  moreover have "\<exists>s'. stored ?d m s' \<and> grows s0 s'" if "stored d m s0" for m s0
    using that assms(3) new old grows_refl by (cases "m = n") auto
  ultimately show ?thesis unfolding keeps_def by blast
qed

lemma keeps_temp: "folder_ok d \<Longrightarrow> keeps d (dput (n @ ''.new'') x d)"
  using leftover_new by (intro keeps_same) (auto simp: dget_dput)

lemma publish_keeps:
  assumes "folder_ok d" "good s"
  shows "keeps d (fst (publish_record sha fault d n s))"
proof -
  have t: "keeps d (dput (n @ ''.new'') x d)" for x using assms(1) by (rule keeps_temp)
  have p: "keeps d (dput n (Regular (dump (JDict s))) d)" if "dget d n = None"
    using assms that by (intro keeps_put) (auto simp: stored_def)
  have "keeps (dput (n @ ''.new'') x d) (dput n (Regular (dump (JDict s))) (dput (n @ ''.new'') x d))" if "dget d n = None" for x
    using that t [of x] assms(2) by (intro keeps_put) (auto simp: stored_def keeps_def dget_dput)
  then have b: "keeps d (dput n (Regular (dump (JDict s))) (dput (n @ ''.new'') x d))" if "dget d n = None" for x
    using that keeps_trans [OF t] by blast
  show ?thesis using t p b keeps_refl [OF assms(1)] by (cases fault) (simp_all add: publish_record_def Let_def)
qed

lemma write_keeps:
  assumes "folder_ok d" "good s" "\<And>s0. stored d n s0 \<Longrightarrow> grows s0 s"
  shows "keeps d (fst (write_session sha fault d n s))"
  using keeps_temp [OF assms(1)] keeps_put [OF assms] keeps_refl [OF assms(1)]
  by (cases fault) (simp_all add: write_session_def Let_def)

lemma fst_finish_write [simp]: "fst (finish_write w ok) = fst w"
  by (cases w; cases "snd w") (simp_all add: finish_write_def)

lemma lock_sessionD: "lock_session h d n = Inr data \<Longrightarrow> dget d n = Some (Regular data)"
  by (auto simp: lock_session_def split: option.split_asm node.split_asm if_split_asm)

lemma locked_good:
  assumes "lock_session h d n = Inr data" "locked_record sha d n data wanted = Inr s" "folder_ok d"
  shows "good s" "stored d n s0 \<Longrightarrow> grows s0 s"
proof -
  note g = lock_sessionD [OF assms(1)]
  from assms(2) obtain c v where c: "read_chain sha (Some d) = Inr c" and v: "loads data = Inr v" "check_session v = Inr s"
    by (auto simp: locked_record_def bnd_eq_Inr split: if_split_asm)
  have rb: "s = canon_dict t \<and> json_wf (JDict t)" if "stored d n t" for t
  proof -
    from that g have t: "data = dump (JDict t)" "json_wf (JDict t)" by (auto simp: stored_def good_def)
    with loads_dump [OF t(2)] v check_session_id [OF v(2)] show ?thesis by (simp only: canon_JDict) simp
  qed
  show "stored d n s0 \<Longrightarrow> grows s0 s" using rb grows_canon by blast
  have "\<not> leftover n" using read_chain_facts(4) [OF c] map_of_SomeD [OF g] by force
  with assms(3) g obtain t where "stored d n t" by (auto simp: folder_ok_def)
  with rb have t: "s = canon_dict t" "json_wf (JDict t)" by blast+
  have "json_wf (JDict s)" using json_wf_canon [OF t(2)] t(1) by (simp only: canon_JDict)
  then show "good s" using v(2) check_session_id [OF v(2)] by (simp only: good_def)
qed

lemma start_recordD:
  assumes "start_record sha h d a = Inr s"
  shows "good s"
proof -
  from assms obtain i day pr first now b names where "start_session sha i day pr first now b names = Inr s"
    unfolding start_record_def bnd_eq_Inr if_Inl_eq_Inr by (auto simp: bnd_eq_Inr split: if_split_asm)
  then show ?thesis by (rule start_session_good)
qed

lemma verify_recordD:
  assumes "verify_record w h d n wanted o' k = Inr (s', b)" "folder_ok d"
  shows "good s'" "stored d n s0 \<Longrightarrow> grows s0 s'"
proof -
  from assms(1) obtain data s i where l: "lock_session h d n = Inr data" "locked_record (w_sha w) d n data wanted = Inr s"
    and k: "keep_identity s i (h_now h) = Inr (s', b)"
    unfolding verify_record_def bnd_eq_Inr by (auto simp: bnd_eq_Inr)
  note lg = locked_good [OF l assms(2)]
  from keep_identity_grows [OF k lg(1)] show "good s'" "stored d n s0 \<Longrightarrow> grows s0 s'" using lg(2) grows_trans by blast+
qed

lemma decide_recordD:
  assumes "decide_record w h d n wanted o' c = Inr (dec, s')" "folder_ok d"
  shows "good s'" "stored d n s0 \<Longrightarrow> grows s0 s'"
proof -
  from assms(1) obtain data s i a where l: "lock_session h d n = Inr data" "locked_record (w_sha w) d n data wanted = Inr s"
    and k: "decide i a (JDict s) = Inr (dec, s')"
    unfolding decide_record_def bnd_eq_Inr by (auto simp: bnd_eq_Inr)
  note lg = locked_good [OF l assms(2)]
  from k obtain t d0 where t: "decide_guards i a (JDict s) = Inr t" "approve d0 i (da_approval a) t (da_now a) = Inr (dec, s')"
    by (rule decideE)
  from t(1) have "check_session (JDict s) = Inr t" by (rule decide_guardsE)
  with check_session_id have "t = s" by blast
  with approve_grows [OF t(2)] lg(1) have "good s' \<and> grows s s'" by simp
  then show "good s'" "stored d n s0 \<Longrightarrow> grows s0 s'" using lg(2) grows_trans by blast+
qed

section \<open>Every run\<close>

lemma step_keeps:
  assumes "session_step d d'" "folder_ok d"
  shows "keeps d d'"
  using assms(1)
proof cases
  case (by_start sha h a)
  then show ?thesis using publish_keeps [OF assms(2) start_recordD] keeps_refl [OF assms(2)]
    by (simp add: start_def split: sum.split)
next
  case (by_verify w h name wanted o' k)
  then show ?thesis using write_keeps [OF assms(2) verify_recordD(1) [OF _ assms(2)] verify_recordD(2) [OF _ assms(2)]] keeps_refl [OF assms(2)]
    by (auto simp: verify_def split: sum.split)
next
  case (by_decide w h name wanted o' c)
  then show ?thesis using write_keeps [OF assms(2) decide_recordD(1) [OF _ assms(2)] decide_recordD(2) [OF _ assms(2)]] keeps_refl [OF assms(2)]
    by (auto simp: decide_write_def split: sum.split)
next
  case by_hand
  have "dget (filter (\<lambda>e. \<not> leftover (fst e)) es) n = dget es n" if "\<not> leftover n" for n and es :: folder
    using that by (induction es) auto
  then show ?thesis using by_hand assms(2) by (intro keeps_same) auto
qed

lemma steps_keep: "session_step\<^sup>*\<^sup>* d d' \<Longrightarrow> folder_ok d \<Longrightarrow> keeps d d'"
proof (induction rule: rtranclp_induct)
  case base
  then show ?case by (rule keeps_refl)
next
  case (step e f)
  then have "keeps d e" by blast
  moreover from this have "folder_ok e" by (simp add: keeps_def)
  ultimately show ?case using step_keeps [OF step(2)] keeps_trans by blast
qed

text \<open>
  C4: Over any runs of start, verify and decide, each with any fault of the disk or any interruption, and any removal
  by hand of what an interrupted run left, an entry of the directory that is no leftover is always a whole record that
  the checker accepts; no later run removes it or changes it, except that its verified images and its allowed writes
  grow; and its newest known release, the phone's reference, never gets older.
\<close>

theorem records_never_lower:
  assumes "session_step\<^sup>*\<^sup>* [] d" and "session_step\<^sup>*\<^sup>* d d'" and "dget d n = Some x" and "\<not> leftover n"
  shows "\<exists>s s' phone phone'. stored d n s \<and> stored d' n s' \<and> grows s s' \<and>
    phone_release s = Inr (Some phone) \<and> phone_release s' = Inr (Some phone') \<and> \<not> newer phone phone'"
proof -
  have "folder_ok []" by (simp add: folder_ok_def)
  with steps_keep [OF assms(1)] have ok: "folder_ok d" by (simp add: keeps_def)
  with assms(3,4) obtain s where s: "stored d n s" by (auto simp: folder_ok_def)
  with steps_keep [OF assms(2) ok] assms(4) obtain s' where s': "stored d' n s'" "grows s s'" by (auto simp: keeps_def)
  from s s' have c: "check_session (JDict s) = Inr s" "check_session (JDict s') = Inr s'" by (auto simp: stored_def good_def)
  from phone_release_checked [OF c(1)] obtain rs phone where p: "known_releases s = Inr rs" "phone_release s = Inr (Some phone)"
    "newest rs = Some phone" by blast
  from phone_release_checked [OF c(2)] obtain rs' phone' where p': "known_releases s' = Inr rs'" "phone_release s' = Inr (Some phone')"
    "newest rs' = Some phone'" by blast
  from s'(2) p(1) p'(1) have "set rs \<subseteq> set rs'" by (auto simp: grows_def)
  then have "\<not> newer phone phone'" using rel.pick_subset p(3) p'(3) by blast
  with s s' p p' show ?thesis by blast
qed

definition sample_host :: host where
  "sample_host = \<lparr>h_locked = (\<lambda>n. False), h_replaced = False, h_dir_locked = False, h_fault = No_fault, h_now = ''2026-01-02T03:04:05Z''\<rparr>"

definition sample_start :: start_command where
  "sample_start = \<lparr>sc_out = ''first.json'', sc_session = ''first'', sc_date = ''2026-01-02'', sc_first = True, sc_previous = [],
     sc_beside = True, sc_previous_sha = None, sc_from_stable = Some (Inr (sample_stable, ''2026-01-02T03:00:00Z'')), sc_updated = None,
     sc_build = Some ''2026010200''\<rparr>"

lemma sample_starts: "fst (start sample_sha sample_host [] sample_start) = sample_folder"
  by code_simp

theorem records_never_lower_witness:
  "\<exists>s phone. session_step\<^sup>*\<^sup>* [] sample_folder \<and> stored sample_folder ''first.json'' s \<and> phone_release s = Inr (Some phone)"
proof -
  have "session_step [] sample_folder" using by_start [of "[]" sample_sha sample_host sample_start] by (simp add: sample_starts)
  then have r: "session_step\<^sup>*\<^sup>* [] sample_folder" by simp
  have g: "dget sample_folder ''first.json'' = Some (Regular (dump (JDict sample_first)))" by (simp add: sample_folder_def)
  have l: "\<not> leftover ''first.json''" by code_simp
  from records_never_lower [OF r rtranclp.rtrancl_refl g l] r show ?thesis by blast
qed

section \<open>A leftover stops every command\<close>

lemma loads_error: "loads b = Inl e \<Longrightarrow> \<exists>t. e = ValueError t"
  by (auto simp: loads_def loads_text_def decode_strict_def bnd_eq_Inl split: option.split_asm if_split_asm)

lemma ro_read_record [simp]: "refuses_only (read_record b)"
proof (cases "loads b")
  case (Inl e)
  with loads_error obtain t where "e = ValueError t" by blast
  with Inl show ?thesis by (simp add: read_record_def)
next
  case (Inr v)
  then show ?thesis using ro_check_session [of v]
    by (cases "check_session v") (auto simp: read_record_def refuses_only_def split: py_error.split)
qed

lemma ro_add_link [simp]: "refuses_only (add_link sha links e)"
  by (auto simp: add_link_def split: prod.split node.split intro!: ro_intros)

lemma leftover_read:
  assumes "e \<in> set d" "leftover (fst e)"
  shows "\<exists>t. read_chain sha (Some d) = Inl (Refusal t)"
proof (cases "fold_res (add_link sha) [] (sort_key fst d)")
  case (Inr links)
  from add_links [OF Inr, of d] assms show ?thesis by auto
next
  case (Inl e)
  have "refuses_only (fold_res (add_link sha) [] (sort_key fst d))" by (intro ro_intros) simp
  with Inl obtain t where "e = Refusal t" by (auto simp: refuses_only_def split: py_error.split_asm)
  with Inl show ?thesis by (simp add: read_chain_def)
qed

text \<open>An error that \<^verbatim>\<open>main\<close> prints, with status 1.\<close>

definition printed :: "py_error \<Rightarrow> bool" where
  "printed e \<longleftrightarrow> reported e = Inr (1, None)"

definition stopped :: "'a res \<Rightarrow> bool" where
  "stopped r \<longleftrightarrow> (\<exists>e. r = Inl e \<and> printed e)"

lemma stopped_bnd: "stopped m \<Longrightarrow> stopped (bnd m f)"
  by (auto simp: stopped_def)

lemma stopped_refusal [simp]: "stopped (refuse t)"
  by (simp add: stopped_def reported_def printed_def)

lemma stopped_later: "(\<And>x. m = Inr x \<Longrightarrow> stopped (f x)) \<Longrightarrow> (\<And>e. m = Inl e \<Longrightarrow> printed e) \<Longrightarrow> stopped (bnd m f)"
  by (cases m) (auto simp: stopped_def)

lemma lock_reported: "lock_session h d n = Inl e \<Longrightarrow> printed e"
  by (auto simp: lock_session_def reported_def printed_def split: option.split_asm node.split_asm if_split_asm)

lemma options_reported: "start_options a = Inl e \<Longrightarrow> printed e"
  by (auto simp: start_options_def reported_def printed_def split: if_split_asm)

lemma leftover_stops:
  assumes "e \<in> set d" "leftover (fst e)"
  shows "stopped (read_chain sha (Some d))"
  using leftover_read [OF assms, of sha] by (auto simp: stopped_def reported_def printed_def)

lemma locked_stops:
  assumes "e \<in> set d" "leftover (fst e)"
  shows "stopped (bnd (lock_session h d n) (\<lambda>data. bnd (locked_record sha d n data wanted) f))"
  by (rule stopped_later) (auto simp: locked_record_def intro!: stopped_bnd leftover_stops [OF assms] lock_reported)

lemma start_stops:
  assumes "e \<in> set d" "leftover (fst e)"
  shows "stopped (start_record sha h d a)"
proof (cases "sc_first a")
  case True
  then show ?thesis unfolding start_record_def
    by (intro stopped_later) (auto intro!: stopped_bnd leftover_stops [OF assms] options_reported)
next
  case False
  have "stopped (bnd (lock_session h d (sc_previous a)) (\<lambda>_. bnd (read_chain sha (Some d)) f))" for f :: "link list \<Rightarrow> session res"
    by (intro stopped_later stopped_bnd leftover_stops [OF assms] lock_reported) auto
  with False show ?thesis unfolding start_record_def by (intro stopped_later) (auto intro!: options_reported)
qed

text \<open>
  C19: A file that an interrupted start, verify or decide left in the directory, under any name that ends in
  \<^verbatim>\<open>.new\<close>, stops every later command: start, verify and decide print an error, exit with status 1, print no SHA-256
  and leave every file of the directory as it was.
\<close>

theorem leftover_blocks:
  assumes "e \<in> set d" and "ends_with ''.new'' (fst e)"
  shows "start sha h d a = (d, Inr (1, None)) \<and> verify w h d name wanted o' k = (d, Inr (1, None)) \<and>
    decide_write w h d name wanted o' c = (d, Inr (1, None))"
proof -
  note l = leftover_stops [OF assms] locked_stops [OF assms]
  have "stopped (start_record sha h d a)" by (rule start_stops [OF assms])
  moreover have "stopped (verify_record w h d name wanted o' k)" unfolding verify_record_def by (rule l)
  moreover have "stopped (decide_record w h d name wanted o' c)" unfolding decide_record_def by (rule l)
  ultimately show ?thesis by (auto simp: stopped_def printed_def start_def verify_def decide_write_def)
qed

theorem leftover_blocks_witness:
  "start sample_sha sample_host [(''first.json.new'', Regular ''{'')] sample_start = ([(''first.json.new'', Regular ''{'')], Inr (1, None))"
proof -
  have "ends_with ''.new'' (fst (''first.json.new'', Regular ''{''))" by code_simp
  from leftover_blocks [OF _ this, of "[(''first.json.new'', Regular ''{'')]"] show ?thesis by simp
qed

end
