(* ===== verification/Json_Schema.thy ===== *)
theory Json_Schema
  imports Complex_Main Py_Json
begin

text \<open>
  \<^verbatim>\<open>scripts/proof/json_schema.py\<close>, the strict validator of a JSON Schema subset. Texts are lists of code points, and
  values are those that its \<^verbatim>\<open>loads\<close> returns, whose floats are finite: a rational number each. \<^verbatim>\<open>re.compile\<close> and the
  search of a compiled pattern are the parameter \<open>rc\<close>. A failure keeps its instance pointer and the fixed text of its
  message. \<^verbatim>\<open>_errors\<close> counts its depth up to 200; the model counts the rest down.
\<close>

section \<open>Texts and values\<close>

type_synonym utext = "nat list"

type_synonym jvalue = "(utext, rat) jval"

definition u :: "string \<Rightarrow> utext" where
  "u s = map of_char s"

definition kw :: "(utext, jvalue) dict \<Rightarrow> string \<Rightarrow> jvalue option" where
  "kw d k = dget d (u k)"

abbreviation schema_error :: "string \<Rightarrow> 'a res" where
  "schema_error t \<equiv> Inl (SchemaError t)"

definition ANNOTATIONS :: "string list" where
  "ANNOTATIONS = [''$schema'', ''$id'', ''$comment'', ''title'', ''description'']"

definition KEYWORDS :: "string list" where
  "KEYWORDS = ANNOTATIONS @
     [''$defs'', ''$ref'', ''type'', ''const'', ''enum'', ''required'', ''properties'', ''additionalProperties'', ''items'',
      ''minItems'', ''maxItems'', ''uniqueItems'', ''minLength'', ''maxLength'', ''pattern'', ''minimum'', ''maximum'',
      ''allOf'', ''anyOf'', ''oneOf'', ''not'', ''if'', ''then'', ''else'']"

definition TYPES :: "string list" where
  "TYPES = [''null'', ''boolean'', ''object'', ''array'', ''string'', ''integer'', ''number'']"

definition unique :: "(utext \<times> jvalue) list \<Rightarrow> (utext, jvalue) dict res" where
  "unique pairs = fold_res (\<lambda>result (key, v).
     if dget result key \<noteq> None then Inl (ValueError ''duplicate JSON object key'') else Inr (dput key v result)) [] pairs"

section \<open>ECMA-262 patterns\<close>

definition backslash :: nat where
  "backslash = 92"

definition CONTROLS :: "(nat, nat) dict" where
  "CONTROLS = [(116, 0x09), (110, 0x0A), (118, 0x0B), (102, 0x0C), (114, 0x0D)]"

definition CLASSES :: utext where
  "CLASSES = u ''dDwW''"

definition SYNTAX :: utext where
  "SYNTAX = u ''^$'' @ [backslash] @ u ''.*+?()[]{}|/-''"

definition DOT :: utext where
  "DOT = u ''[^'' @ backslash # u ''n'' @ backslash # u ''r'' @ backslash # u ''u2028'' @ backslash # u ''u2029]''"

definition is_dig :: "nat \<Rightarrow> bool" where
  "is_dig c \<longleftrightarrow> 48 \<le> c \<and> c \<le> 57"

definition is_hexd :: "nat \<Rightarrow> bool" where
  "is_hexd c \<longleftrightarrow> is_dig c \<or> 65 \<le> c \<and> c \<le> 70 \<or> 97 \<le> c \<and> c \<le> 102"

definition hex_of :: "utext \<Rightarrow> nat" where
  "hex_of s = foldl (\<lambda>a c. 16 * a + (if is_dig c then c - 48 else if c \<le> 70 then c - 55 else c - 87)) 0 s"

definition int_of :: "utext \<Rightarrow> nat" where
  "int_of s = foldl (\<lambda>a c. 10 * a + (c - 48)) 0 s"

text \<open>\<^verbatim>\<open>str.encode('utf-16-le', 'surrogatepass')\<close>, unpacked.\<close>

definition units :: "utext \<Rightarrow> utext" where
  "units s = concat (map (\<lambda>c. if c < 0x10000 then [c] else [0xD800 + (c - 0x10000) div 0x400, 0xDC00 + (c - 0x10000) mod 0x400]) s)"

definition hex_digit_of :: "nat \<Rightarrow> nat" where
  "hex_digit_of n = (if n < 10 then 48 + n else 87 + n)"

definition unit_text :: "nat \<Rightarrow> utext" where
  "unit_text v = backslash # u ''u'' @ map (\<lambda>k. hex_digit_of (v div 16 ^ k mod 16)) [3, 2, 1, 0]"

datatype token = Unit nat | Klass utext | Assertion utext | Dash

text \<open>The escape whose backslash was read, at the text after it: the token, and the text after the escape.\<close>

definition escape :: "utext \<Rightarrow> bool \<Rightarrow> (token \<times> utext) res" where
  "escape source in_class = (case source of
     [] \<Rightarrow> schema_error ''pattern escape outside the implemented subset''
   | c # rest \<Rightarrow>
       (case dget CONTROLS c of
          Some v \<Rightarrow> Inr (Unit v, rest)
        | None \<Rightarrow>
            if c \<in> set CLASSES then Inr (Klass [backslash, c], rest)
            else if c \<in> set (u ''bB'') \<and> \<not> in_class then Inr (Assertion [backslash, c], rest)
            else if c = of_char CHR ''x'' \<and> length (take 2 rest) = 2 \<and> list_all is_hexd (take 2 rest)
            then Inr (Unit (hex_of (take 2 rest)), drop 2 rest)
            else if c = of_char CHR ''u'' \<and> length (take 4 rest) = 4 \<and> list_all is_hexd (take 4 rest)
            then Inr (Unit (hex_of (take 4 rest)), drop 4 rest)
            else if c \<in> set SYNTAX then Inr (Unit c, rest)
            else schema_error ''pattern escape outside the implemented subset''))"

lemma escape_shorter: "escape source b = Inr (t, rest) \<Longrightarrow> length rest < length source"
  by (auto simp: escape_def split: list.split_asm option.split_asm if_split_asm)

text \<open>The members of a character class up to its bracket, and the text after it.\<close>

function class_tokens :: "utext \<Rightarrow> token list \<Rightarrow> (token list \<times> utext) res" where
  "class_tokens [] tokens = schema_error ''an unterminated character class''"
| "class_tokens (c # rest) tokens =
     (if c = of_char CHR '']'' then Inr (tokens, rest)
      else if c = of_char CHR ''['' \<or> list_ex (\<lambda>p. starts_with (u p) (c # rest)) [''--'', ''&&'', ''~~'', ''||'']
      then schema_error ''a character class with a nested bracket or a doubled set operator''
      else if c = backslash then bnd (escape rest True) (\<lambda>(t, after). class_tokens after (tokens @ [t]))
      else if c = of_char CHR ''-'' then class_tokens rest (tokens @ [Dash])
      else class_tokens rest (tokens @ map Unit (units [c])))"
  by pat_completeness auto
termination
  by (relation "measure (\<lambda>(s, ts). length s)") (auto dest!: escape_shorter)

definition token_text :: "token \<Rightarrow> utext" where
  "token_text t = (case t of Dash \<Rightarrow> unit_text 45 | Unit v \<Rightarrow> unit_text v | Klass s \<Rightarrow> s | Assertion s \<Rightarrow> s)"

function class_parts :: "token list \<Rightarrow> nat \<Rightarrow> bool \<Rightarrow> utext list \<Rightarrow> utext list res" where
  "class_parts tokens index ranged parts =
     (if \<not> index < length tokens then Inr parts
      else if tokens ! index = Dash \<and> 0 < index \<and> index < length tokens - 1 then
        (case (tokens ! (index - 1), tokens ! (index + 1)) of
           (Unit low, Unit high) \<Rightarrow>
             if ranged \<or> low > high then schema_error ''a character class range outside the implemented subset''
             else class_parts tokens (index + 2) True (butlast parts @ [unit_text low @ u ''-'' @ unit_text high])
         | _ \<Rightarrow> schema_error ''a character class range outside the implemented subset'')
      else class_parts tokens (index + 1) False (parts @ [token_text (tokens ! index)]))"
  by pat_completeness auto
termination
  by (relation "measure (\<lambda>(ts, i, r, ps). length ts - i)") auto

declare class_parts.simps [simp del]

text \<open>The class whose bracket was read, at the text after it.\<close>

definition klass :: "utext \<Rightarrow> (utext \<times> utext) res" where
  "klass source =
     (let negated = starts_with (u ''^'') source in
      bnd (class_tokens (if negated then drop 1 source else source) []) (\<lambda>(tokens, rest).
        if tokens = [] then schema_error ''an empty character class''
        else bnd (class_parts tokens 0 False []) (\<lambda>parts.
          Inr (u ''['' @ (if negated then u ''^'' else []) @ concat parts @ u '']'', rest))))"

lemma class_tokens_shorter: "class_tokens s ts = Inr (ts', rest) \<Longrightarrow> length rest < length s"
  by (induction s ts rule: class_tokens.induct) (force simp: bnd_eq_Inr dest: escape_shorter split: if_split_asm)+

lemma klass_shorter: "klass s = Inr (t, rest) \<Longrightarrow> length rest < length s"
  by (auto simp: klass_def Let_def bnd_eq_Inr dest!: class_tokens_shorter split: if_split_asm)

text \<open>\<^verbatim>\<open>_QUANTIFIER\<close> at the text after its brace: both counts, the whole token and the text after it.\<close>

definition QUANTIFIER :: "utext \<Rightarrow> (utext \<times> utext \<times> utext \<times> utext) option" where
  "QUANTIFIER s =
     (let n = takeWhile is_dig s; r = dropWhile is_dig s in
      if n = [] then None
      else (case r of
          [] \<Rightarrow> None
        | c # q \<Rightarrow>
            if c = of_char CHR ''}'' then Some (n, [], u ''{'' @ n @ u ''}'', q)
            else if c = of_char CHR '','' then
              (let m = takeWhile is_dig q in
               (case dropWhile is_dig q of
                  [] \<Rightarrow> None
                | e # p \<Rightarrow> if e = of_char CHR ''}'' then Some (n, m, u ''{'' @ n @ u '','' @ m @ u ''}'', p) else None))
            else None))"

lemma QUANTIFIER_shorter:
  assumes "QUANTIFIER s = Some (n, m, t, rest)"
  shows "length rest < length s"
proof -
  obtain c q where r: "dropWhile is_dig s = c # q" and q: "rest = q \<or> (\<exists>e. dropWhile is_dig q = e # rest)"
    using assms by (auto simp: QUANTIFIER_def Let_def split: if_split_asm list.split_asm)
  have "length (c # q) \<le> length s" using length_dropWhile_le [of is_dig s] r by simp
  moreover have "length rest \<le> length q" using q length_dropWhile_le [of is_dig q] by auto
  ultimately show ?thesis by simp
qed

definition repeat_token :: "nat \<Rightarrow> utext \<Rightarrow> (utext \<times> utext) res" where
  "repeat_token c rest =
     (if c = of_char CHR ''{'' then
        (case QUANTIFIER rest of
           None \<Rightarrow> schema_error ''a { that is no quantifier''
         | Some (n, m, token, after) \<Rightarrow>
             if m \<noteq> [] \<and> int_of m < int_of n then schema_error ''a quantifier out of order'' else Inr (token, after))
      else Inr ([c], rest))"

lemma repeat_token_shorter: "repeat_token c rest = Inr (t, after) \<Longrightarrow> length after \<le> length rest"
  by (auto simp: repeat_token_def split: if_split_asm option.split_asm dest: QUANTIFIER_shorter)

function translate_from :: "utext \<Rightarrow> utext \<Rightarrow> nat \<Rightarrow> bool \<Rightarrow> utext res" where
  "translate_from [] out depth quantifiable = (if depth \<noteq> 0 then schema_error ''an unbalanced ('' else Inr out)"
| "translate_from (c # rest) out depth quantifiable =
     (if c = backslash then
        bnd (escape rest False) (\<lambda>(t, after).
          translate_from after (out @ token_text t) depth (case t of Assertion _ \<Rightarrow> False | _ \<Rightarrow> True))
      else if c = of_char CHR ''['' then
        bnd (klass rest) (\<lambda>(text, after). translate_from after (out @ text) depth True)
      else if c = of_char CHR ''('' then
        (if starts_with (u ''?:'') rest then translate_from (drop 2 rest) (out @ u ''(?:'') (depth + 1) False
         else if starts_with (u ''?'') rest then schema_error ''a group form outside the implemented subset''
         else translate_from rest (out @ u ''('') (depth + 1) False)
      else if c = of_char CHR '')'' then
        (if depth = 0 then schema_error ''an unbalanced )'' else translate_from rest (out @ u '')'') (depth - 1) True)
      else if c \<in> set (u ''|^$'') then
        translate_from rest (out @ (if c = of_char CHR ''$'' then backslash # u ''Z'' else [c])) depth False
      else if c = of_char CHR ''.'' then translate_from rest (out @ DOT) depth True
      else if c \<in> set (u ''*+?{'') then
        bnd (repeat_token c rest) (\<lambda>(token, after).
          if \<not> quantifiable then schema_error ''a quantifier with nothing to repeat''
          else if starts_with (u ''?'') after then translate_from (drop 1 after) (out @ token @ u ''?'') depth False
          else translate_from after (out @ token) depth False)
      else if c \<in> set (u '']}'') then schema_error ''an unescaped bracket''
      else translate_from rest (out @ concat (map unit_text (units [c]))) depth True)"
  by pat_completeness auto
termination
  by (relation "measure (\<lambda>(s, out, n, q). length s)")
    (auto dest!: escape_shorter klass_shorter repeat_token_shorter)

definition translate :: "utext \<Rightarrow> utext res" where
  "translate source = translate_from source [] 0 False"

text \<open>
  \<^verbatim>\<open>_compiled\<close>: \<open>rc\<close> gives the search of a translated pattern, or \<open>None\<close> for \<^verbatim>\<open>re.error\<close>. The cache raises
  \<^verbatim>\<open>TypeError\<close> for an argument that has no hash.
\<close>

type_synonym engine = "utext \<Rightarrow> (utext \<Rightarrow> bool) option"

definition compiled :: "engine \<Rightarrow> jvalue \<Rightarrow> (utext \<Rightarrow> bool) res" where
  "compiled rc source = (case source of
     JStr s \<Rightarrow> bnd (translate s) (\<lambda>t. case rc t of None \<Rightarrow> schema_error ''pattern'' | Some search \<Rightarrow> Inr search)
   | JList _ \<Rightarrow> Inl TypeError
   | JDict _ \<Rightarrow> Inl TypeError
   | _ \<Rightarrow> schema_error ''a pattern is text'')"

section \<open>Values\<close>

definition number_value :: "jvalue \<Rightarrow> bool" where
  "number_value v = (case v of JInt _ \<Rightarrow> True | JFloat _ \<Rightarrow> True | _ \<Rightarrow> False)"

definition num_value :: "jvalue \<Rightarrow> rat" where
  "num_value v = (case v of JInt i \<Rightarrow> of_int i | JFloat q \<Rightarrow> q | JBool b \<Rightarrow> (if b then 1 else 0) | _ \<Rightarrow> 0)"

definition is_type :: "jvalue \<Rightarrow> jvalue \<Rightarrow> bool" where
  "is_type v name =
     (if name = JStr (u ''null'') then v = JNull
      else if name = JStr (u ''boolean'') then is_bool v
      else if name = JStr (u ''object'') then is_dict v
      else if name = JStr (u ''array'') then is_list v
      else if name = JStr (u ''string'') then is_str v
      else if name = JStr (u ''number'') then number_value v
      else (case v of JInt _ \<Rightarrow> True | JFloat q \<Rightarrow> of_int \<lfloor>q\<rfloor> = q | _ \<Rightarrow> False))"

lemma size_member: "kv \<in> set d \<Longrightarrow> size (snd kv) < size (JDict d)"
  by (induction d) auto

lemma size_element: "x \<in> set xs \<Longrightarrow> size x < size (JList xs)"
  by (induction xs) auto

function json_equal :: "jvalue \<Rightarrow> jvalue \<Rightarrow> bool" where
  "json_equal (JBool a) two = (two = JBool a)"
| "json_equal (JInt i) two = (number_value two \<and> of_int i = num_value two)"
| "json_equal (JFloat q) two = (number_value two \<and> q = num_value two)"
| "json_equal (JDict a) two = (case two of
     JDict b \<Rightarrow> set (map fst a) = set (map fst b) \<and>
       list_all (\<lambda>kv. case dget b (fst kv) of None \<Rightarrow> False | Some w \<Rightarrow> json_equal (snd kv) w) a
   | _ \<Rightarrow> False)"
| "json_equal (JList xs) two = (case two of
     JList ys \<Rightarrow> length xs = length ys \<and> list_all (\<lambda>p. json_equal (fst p) (snd p)) (zip xs ys)
   | _ \<Rightarrow> False)"
| "json_equal (JStr a) two = (two = JStr a)"
| "json_equal JNull two = (two = JNull)"
  by pat_completeness auto
termination
proof (relation "measure (\<lambda>(one, two). size one)", goal_cases)
  case (2 a two b kv w)
  then show ?case using size_member [of kv a] by simp
next
  case (3 xs two ys p)
  then have "fst p \<in> set xs" by (cases p) (auto dest: set_zip_leftD)
  then show ?case using size_element [of "fst p" xs] by (cases p) simp
qed simp

section \<open>References\<close>

text \<open>\<^verbatim>\<open>str.replace\<close> of a text of two characters by one, and of one by a text.\<close>

fun replace_pair :: "nat \<Rightarrow> nat \<Rightarrow> nat \<Rightarrow> utext \<Rightarrow> utext" where
  "replace_pair a b c (x # y # s) = (if x = a \<and> y = b then c # replace_pair a b c s else x # replace_pair a b c (y # s))"
| "replace_pair a b c s = s"

definition replace_one :: "nat \<Rightarrow> utext \<Rightarrow> utext \<Rightarrow> utext" where
  "replace_one a t s = concat (map (\<lambda>x. if x = a then t else [x]) s)"

definition tilde :: nat where
  "tilde = 126"

definition slash :: nat where
  "slash = 47"

definition unescape :: "utext \<Rightarrow> utext" where
  "unescape token = replace_pair tilde 48 tilde (replace_pair tilde 49 slash token)"

definition index_text :: "utext \<Rightarrow> bool" where
  "index_text t \<longleftrightarrow> t = [48] \<or> t \<noteq> [] \<and> list_all is_dig t \<and> hd t \<noteq> 48"

definition pointer_step :: "jvalue \<Rightarrow> utext \<Rightarrow> jvalue res" where
  "pointer_step node token = (case node of
     JDict d \<Rightarrow> (case dget d token of Some v \<Rightarrow> Inr v | None \<Rightarrow> schema_error ''an unresolvable reference'')
   | JList xs \<Rightarrow>
       if index_text token \<and> int_of token < length xs then Inr (xs ! int_of token)
       else schema_error ''an unresolvable reference''
   | _ \<Rightarrow> schema_error ''an unresolvable reference'')"

definition pointer :: "jvalue \<Rightarrow> utext \<Rightarrow> jvalue res" where
  "pointer doc reference =
     (if \<not> starts_with (u ''#'') reference then schema_error ''only references within the document are implemented''
      else if reference \<in> set [u ''#'', u ''#/''] then Inr doc
      else if \<not> starts_with (u ''#/'') reference then schema_error ''a reference that is not a JSON pointer''
      else fold_res (\<lambda>node token. pointer_step node (unescape token)) doc (split_char slash (drop 2 reference)))"

section \<open>Checking a schema\<close>

definition check_annotations :: "(utext, jvalue) dict \<Rightarrow> unit res" where
  "check_annotations d = each_res (\<lambda>name. case kw d name of
     None \<Rightarrow> Inr () | Some v \<Rightarrow> if is_str v then Inr () else schema_error ''is text'') ANNOTATIONS"

definition check_ref :: "jvalue \<Rightarrow> (utext, jvalue) dict \<Rightarrow> unit res" where
  "check_ref doc d = (case kw d ''$ref'' of
     None \<Rightarrow> Inr ()
   | Some (JStr r) \<Rightarrow> bnd (pointer doc r) (\<lambda>_. Inr ())
   | Some _ \<Rightarrow> schema_error ''$ref is text'')"

definition type_names :: "jvalue \<Rightarrow> jvalue list" where
  "type_names v = (case v of JList xs \<Rightarrow> xs | _ \<Rightarrow> [v])"

definition check_type :: "(utext, jvalue) dict \<Rightarrow> unit res" where
  "check_type d = (case kw d ''type'' of
     None \<Rightarrow> Inr ()
   | Some v \<Rightarrow>
       if type_names v = [] \<or> \<not> list_all (\<lambda>n. n \<in> set (map (\<lambda>t. JStr (u t)) TYPES)) (type_names v) \<or> \<not> distinct (type_names v)
       then schema_error ''type'' else Inr ())"

definition check_enum :: "(utext, jvalue) dict \<Rightarrow> unit res" where
  "check_enum d = (case kw d ''enum'' of
     None \<Rightarrow> Inr ()
   | Some (JList xs) \<Rightarrow> if xs = [] then schema_error ''enum is a nonempty array'' else Inr ()
   | Some _ \<Rightarrow> schema_error ''enum is a nonempty array'')"

definition check_required :: "(utext, jvalue) dict \<Rightarrow> unit res" where
  "check_required d = (case kw d ''required'' of
     None \<Rightarrow> Inr ()
   | Some (JList xs) \<Rightarrow>
       if \<not> list_all is_str xs \<or> \<not> distinct xs then schema_error ''required is an array of distinct names'' else Inr ()
   | Some _ \<Rightarrow> schema_error ''required is an array of distinct names'')"

definition check_counts :: "(utext, jvalue) dict \<Rightarrow> unit res" where
  "check_counts d = each_res (\<lambda>name. case kw d name of
     None \<Rightarrow> Inr ()
   | Some (JInt i) \<Rightarrow> if i < 0 then schema_error ''is a count'' else Inr ()
   | Some _ \<Rightarrow> schema_error ''is a count'') [''minItems'', ''maxItems'', ''minLength'', ''maxLength'']"

definition check_limits :: "(utext, jvalue) dict \<Rightarrow> unit res" where
  "check_limits d = each_res (\<lambda>name. case kw d name of
     None \<Rightarrow> Inr () | Some v \<Rightarrow> if number_value v then Inr () else schema_error ''is a number'') [''minimum'', ''maximum'']"

definition check_unique :: "(utext, jvalue) dict \<Rightarrow> unit res" where
  "check_unique d = (case kw d ''uniqueItems'' of
     None \<Rightarrow> Inr () | Some v \<Rightarrow> if is_bool v then Inr () else schema_error ''uniqueItems is a Boolean'')"

definition check_pattern :: "engine \<Rightarrow> (utext, jvalue) dict \<Rightarrow> unit res" where
  "check_pattern rc d = (case kw d ''pattern'' of
     None \<Rightarrow> Inr ()
   | Some v \<Rightarrow> (case compiled rc v of Inr _ \<Rightarrow> Inr () | Inl _ \<Rightarrow> schema_error ''pattern''))"

definition check_values :: "engine \<Rightarrow> jvalue \<Rightarrow> (utext, jvalue) dict \<Rightarrow> unit res" where
  "check_values rc doc d = each_res id
     [check_annotations d, check_ref doc d, check_type d, check_enum d, check_required d, check_counts d, check_limits d,
      check_unique d, check_pattern rc d]"

lemma each_res_cong [fundef_cong]:
  "xs = ys \<Longrightarrow> (\<And>x. x \<in> set ys \<Longrightarrow> f x = g x) \<Longrightarrow> each_res f xs = each_res g ys"
  by (induction xs arbitrary: ys) auto

lemma size_kw: "kw d k = Some v \<Longrightarrow> size v < size (JDict d)"
  using size_member [of "(u k, v)" d] by (auto simp: kw_def dest: map_of_SomeD)

function check_schema :: "engine \<Rightarrow> jvalue \<Rightarrow> jvalue \<Rightarrow> unit res" where
  "check_schema rc doc schema = (case schema of
     JBool b \<Rightarrow> Inr ()
   | JDict d \<Rightarrow>
       if \<not> list_all (\<lambda>kv. fst kv \<in> set (map u KEYWORDS)) d then schema_error ''keywords not implemented''
       else bnd (check_values rc doc d) (\<lambda>_.
         bnd (each_res (\<lambda>name. case kw d name of
             None \<Rightarrow> Inr ()
           | Some v \<Rightarrow> (case v of
               JDict m \<Rightarrow> each_res (\<lambda>kv. check_schema rc doc (snd kv)) m
             | _ \<Rightarrow> schema_error ''is an object'')) [''$defs'', ''properties'']) (\<lambda>_.
         bnd (each_res (\<lambda>name. case kw d name of
             None \<Rightarrow> Inr ()
           | Some v \<Rightarrow> (case v of
               JList xs \<Rightarrow>
                 if xs = [] then schema_error ''is a nonempty array'' else each_res (\<lambda>x. check_schema rc doc x) xs
             | _ \<Rightarrow> schema_error ''is a nonempty array'')) [''allOf'', ''anyOf'', ''oneOf'']) (\<lambda>_.
         each_res (\<lambda>name. case kw d name of
             None \<Rightarrow> Inr ()
           | Some v \<Rightarrow> check_schema rc doc v) [''additionalProperties'', ''items'', ''not'', ''if'', ''then'', ''else''])))
   | _ \<Rightarrow> schema_error ''a schema is an object or a Boolean'')"
  by pat_completeness auto
termination
proof (relation "measure (\<lambda>(rc, doc, s). size s)", goal_cases)
  case (2 rc doc schema d w name v m kv)
  then show ?case using size_kw [of d name v] size_member [of kv m] by simp
next
  case (3 rc doc schema d w w' name v xs x)
  then show ?case using size_kw [of d name v] size_element [of x xs] by simp
next
  case (4 rc doc schema d w w' w'' name v)
  then show ?case using size_kw [of d name v] by simp
qed simp

declare check_schema.simps [simp del]

section \<open>The failures of an instance\<close>

definition join_path :: "utext \<Rightarrow> utext \<Rightarrow> utext" where
  "join_path path key = path @ [slash] @ replace_one slash [tilde, 49] (replace_one tilde [tilde, 48] key)"

definition index_key :: "nat \<Rightarrow> utext" where
  "index_key i = u (str_nat i)"

type_synonym failure = "utext \<times> string"

definition here :: "utext \<Rightarrow> utext" where
  "here path = (if path = [] then [slash] else path)"

definition fail_if :: "bool \<Rightarrow> utext \<Rightarrow> string \<Rightarrow> failure list" where
  "fail_if b path t = (if b then [(here path, t)] else [])"

text \<open>The members that \<^verbatim>\<open>for\<close> runs over, and whether Python takes a value as true.\<close>

definition iter :: "jvalue \<Rightarrow> jvalue list res" where
  "iter v = (case v of
     JList xs \<Rightarrow> Inr xs
   | JDict d \<Rightarrow> Inr (map (\<lambda>kv. JStr (fst kv)) d)
   | JStr s \<Rightarrow> Inr (map (\<lambda>c. JStr [c]) s)
   | _ \<Rightarrow> Inl TypeError)"

definition truthy :: "jvalue \<Rightarrow> bool" where
  "truthy v = (case v of
     JNull \<Rightarrow> False | JBool b \<Rightarrow> b | JInt i \<Rightarrow> i \<noteq> 0 | JFloat q \<Rightarrow> q \<noteq> 0 | JStr s \<Rightarrow> s \<noteq> [] | JList xs \<Rightarrow> xs \<noteq> []
   | JDict d \<Rightarrow> d \<noteq> [])"

definition gather :: "('x \<Rightarrow> 'y list res) \<Rightarrow> 'x list \<Rightarrow> 'y list res" where
  "gather f xs = bnd (map_res f xs) (\<lambda>ys. Inr (concat ys))"

text \<open>An instance against a limit that a keyword names; a limit that is no number has no order with one.\<close>

definition limit :: "(rat \<Rightarrow> rat \<Rightarrow> bool) \<Rightarrow> rat \<Rightarrow> (utext, jvalue) dict \<Rightarrow> string \<Rightarrow> utext \<Rightarrow> string \<Rightarrow> failure list res" where
  "limit beyond x d name path t = (case kw d name of
     None \<Rightarrow> Inr []
   | Some v \<Rightarrow> if number_value v \<or> is_bool v then Inr (fail_if (beyond x (num_value v)) path t) else Inl TypeError)"

definition errors_ref :: "(jvalue \<Rightarrow> jvalue \<Rightarrow> utext \<Rightarrow> failure list res) \<Rightarrow> jvalue \<Rightarrow> (utext, jvalue) dict \<Rightarrow> jvalue \<Rightarrow> utext \<Rightarrow> failure list res" where
  "errors_ref e doc d i path = (case kw d ''$ref'' of
     None \<Rightarrow> Inr []
   | Some (JStr r) \<Rightarrow> bnd (pointer doc r) (\<lambda>s. e i s path)
   | Some _ \<Rightarrow> Inl AttributeError)"

definition errors_type :: "(utext, jvalue) dict \<Rightarrow> jvalue \<Rightarrow> utext \<Rightarrow> failure list res" where
  "errors_type d i path = (case kw d ''type'' of
     None \<Rightarrow> Inr []
   | Some v \<Rightarrow>
       if list_ex (is_type i) (type_names v) then Inr []
       else if \<not> list_all is_str (type_names v) then Inl TypeError
       else Inr [(here path, ''not of type'')])"

definition errors_const :: "(utext, jvalue) dict \<Rightarrow> jvalue \<Rightarrow> utext \<Rightarrow> failure list res" where
  "errors_const d i path = (case kw d ''const'' of
     None \<Rightarrow> Inr []
   | Some v \<Rightarrow> Inr (fail_if (\<not> json_equal i v) path ''not the constant''))"

definition errors_enum :: "(utext, jvalue) dict \<Rightarrow> jvalue \<Rightarrow> utext \<Rightarrow> failure list res" where
  "errors_enum d i path = (case kw d ''enum'' of
     None \<Rightarrow> Inr []
   | Some v \<Rightarrow> bnd (iter v) (\<lambda>xs. Inr (fail_if (\<not> list_ex (json_equal i) xs) path ''not one of'')))"

definition required_member :: "(utext, jvalue) dict \<Rightarrow> utext \<Rightarrow> jvalue \<Rightarrow> failure list res" where
  "required_member m path name = (case name of
     JStr s \<Rightarrow> Inr (fail_if (dget m s = None) path ''required member is absent'')
   | JList _ \<Rightarrow> Inl TypeError
   | JDict _ \<Rightarrow> Inl TypeError
   | _ \<Rightarrow> Inr [(here path, ''required member is absent'')])"

text \<open>\<^verbatim>\<open>key in properties\<close>, then \<^verbatim>\<open>properties[key]\<close>.\<close>

definition property_schema :: "(utext, jvalue) dict \<Rightarrow> utext \<Rightarrow> jvalue option res" where
  "property_schema d key = (case kw d ''properties'' of
     None \<Rightarrow> Inr None
   | Some (JDict ps) \<Rightarrow> Inr (dget ps key)
   | Some (JList xs) \<Rightarrow> if JStr key \<in> set xs then Inl TypeError else Inr None
   | Some (JStr s) \<Rightarrow> if contains key s then Inl TypeError else Inr None
   | Some _ \<Rightarrow> Inl TypeError)"

definition member_errors ::
  "(jvalue \<Rightarrow> jvalue \<Rightarrow> utext \<Rightarrow> failure list res) \<Rightarrow> (utext, jvalue) dict \<Rightarrow> utext \<Rightarrow> utext \<times> jvalue \<Rightarrow> failure list res" where
  "member_errors e d path kv = bnd (property_schema d (fst kv)) (\<lambda>p. (case p of
     Some s \<Rightarrow> e (snd kv) s (join_path path (fst kv))
   | None \<Rightarrow> (case kw d ''additionalProperties'' of
       None \<Rightarrow> Inr []
     | Some s \<Rightarrow> e (snd kv) s (join_path path (fst kv)))))"

definition errors_object ::
  "(jvalue \<Rightarrow> jvalue \<Rightarrow> utext \<Rightarrow> failure list res) \<Rightarrow> (utext, jvalue) dict \<Rightarrow> jvalue \<Rightarrow> utext \<Rightarrow> failure list res" where
  "errors_object e d i path = (case i of
     JDict m \<Rightarrow>
       gather id
         [bnd (case kw d ''required'' of None \<Rightarrow> Inr [] | Some v \<Rightarrow> iter v) (gather (required_member m path)),
          gather (member_errors e d path) m]
   | _ \<Rightarrow> Inr [])"

fun repeats :: "jvalue list \<Rightarrow> bool" where
  "repeats [] = False"
| "repeats (x # xs) = (list_ex (json_equal x) xs \<or> repeats xs)"

definition errors_array ::
  "(jvalue \<Rightarrow> jvalue \<Rightarrow> utext \<Rightarrow> failure list res) \<Rightarrow> (utext, jvalue) dict \<Rightarrow> jvalue \<Rightarrow> utext \<Rightarrow> failure list res" where
  "errors_array e d i path = (case i of
     JList xs \<Rightarrow>
       gather id
         [(case kw d ''items'' of
             None \<Rightarrow> Inr []
           | Some s \<Rightarrow> gather (\<lambda>(n, v). e v s (join_path path (index_key n))) (zip [0..<length xs] xs)),
          limit (<) (of_nat (length xs)) d ''minItems'' path ''fewer items'',
          limit (>) (of_nat (length xs)) d ''maxItems'' path ''more items'',
          Inr (fail_if ((case kw d ''uniqueItems'' of None \<Rightarrow> False | Some v \<Rightarrow> truthy v) \<and> repeats xs) path ''items repeat'')]
   | _ \<Rightarrow> Inr [])"

definition errors_string :: "engine \<Rightarrow> (utext, jvalue) dict \<Rightarrow> jvalue \<Rightarrow> utext \<Rightarrow> failure list res" where
  "errors_string rc d i path = (case i of
     JStr t \<Rightarrow>
       gather id
         [limit (<) (of_nat (length t)) d ''minLength'' path ''shorter'',
          limit (>) (of_nat (length t)) d ''maxLength'' path ''longer'',
          (case kw d ''pattern'' of
             None \<Rightarrow> Inr []
           | Some v \<Rightarrow> bnd (compiled rc v) (\<lambda>search. Inr (fail_if (\<not> search (units t)) path ''does not match'')))]
   | _ \<Rightarrow> Inr [])"

definition errors_number :: "(utext, jvalue) dict \<Rightarrow> jvalue \<Rightarrow> utext \<Rightarrow> failure list res" where
  "errors_number d i path =
     (if number_value i
      then gather id [limit (<) (num_value i) d ''minimum'' path ''below'', limit (>) (num_value i) d ''maximum'' path ''above'']
      else Inr [])"

fun any_valid :: "(jvalue \<Rightarrow> failure list res) \<Rightarrow> jvalue list \<Rightarrow> bool res" where
  "any_valid f [] = Inr False"
| "any_valid f (s # ss) = bnd (f s) (\<lambda>fs. if fs = [] then Inr True else any_valid f ss)"

definition errors_combined ::
  "(jvalue \<Rightarrow> jvalue \<Rightarrow> utext \<Rightarrow> failure list res) \<Rightarrow> (utext, jvalue) dict \<Rightarrow> jvalue \<Rightarrow> utext \<Rightarrow> failure list res" where
  "errors_combined e d i path =
     (let f = (\<lambda>s. e i s path) in
      gather id
        [bnd (case kw d ''allOf'' of None \<Rightarrow> Inr [] | Some v \<Rightarrow> iter v) (gather f),
         (case kw d ''anyOf'' of
            None \<Rightarrow> Inr []
          | Some v \<Rightarrow> bnd (bnd (iter v) (any_valid f)) (\<lambda>b. Inr (fail_if (\<not> b) path ''matches none of anyOf''))),
         (case kw d ''oneOf'' of
            None \<Rightarrow> Inr []
          | Some v \<Rightarrow> bnd (bnd (iter v) (map_res f)) (\<lambda>rs.
              Inr (fail_if (length (filter (\<lambda>r. r = []) rs) \<noteq> 1) path ''matches not one of oneOf''))),
         (case kw d ''not'' of
            None \<Rightarrow> Inr []
          | Some s \<Rightarrow> bnd (f s) (\<lambda>r. Inr (fail_if (r = []) path ''matches a schema it must not''))),
         (case kw d ''if'' of
            None \<Rightarrow> Inr []
          | Some s \<Rightarrow> bnd (f s) (\<lambda>r. (case kw d (if r = [] then ''then'' else ''else'') of None \<Rightarrow> Inr [] | Some t \<Rightarrow> f t)))])"

text \<open>
  What a node that is neither an object nor a Boolean raises as a schema: the first keyword that Python finds in it, as
  a member of a list or as a part of a text, indexes it; without one \<^verbatim>\<open>.get\<close> is missing; other values have no \<^verbatim>\<open>in\<close>.
\<close>

definition touches :: "jvalue \<Rightarrow> string list \<Rightarrow> bool" where
  "touches v names = list_ex (\<lambda>k. case v of JList xs \<Rightarrow> JStr (u k) \<in> set xs | JStr s \<Rightarrow> contains (u k) s | _ \<Rightarrow> False) names"

definition odd_error :: "jvalue \<Rightarrow> jvalue \<Rightarrow> py_error" where
  "odd_error i v =
     (if \<not> is_list v \<and> \<not> is_str v \<or> touches v [''$ref'', ''type'', ''const'', ''enum''] then TypeError
      else (case i of
          JList xs \<Rightarrow> if xs \<noteq> [] \<and> touches v [''items''] \<or> touches v [''minItems'', ''maxItems''] then TypeError else AttributeError
        | JStr _ \<Rightarrow> if touches v [''minLength'', ''maxLength'', ''pattern''] then TypeError else AttributeError
        | JInt _ \<Rightarrow> if touches v [''minimum'', ''maximum''] then TypeError else AttributeError
        | JFloat _ \<Rightarrow> if touches v [''minimum'', ''maximum''] then TypeError else AttributeError
        | _ \<Rightarrow> AttributeError))"

primrec errors :: "nat \<Rightarrow> engine \<Rightarrow> jvalue \<Rightarrow> jvalue \<Rightarrow> jvalue \<Rightarrow> utext \<Rightarrow> failure list res" where
  "errors 0 rc doc i schema path = schema_error ''reference depth beyond 200''"
| "errors (Suc rest) rc doc i schema path = (case schema of
     JBool b \<Rightarrow> Inr (fail_if (\<not> b) path ''no value is allowed here'')
   | JDict d \<Rightarrow>
       gather id
         [errors_ref (errors rest rc doc) doc d i path, errors_type d i path, errors_const d i path, errors_enum d i path,
          errors_object (errors rest rc doc) d i path, errors_array (errors rest rc doc) d i path, errors_string rc d i path,
          errors_number d i path, errors_combined (errors rest rc doc) d i path]
   | _ \<Rightarrow> Inl (odd_error i schema))"

definition validate :: "engine \<Rightarrow> jvalue \<Rightarrow> jvalue \<Rightarrow> failure list res" where
  "validate rc i schema = bnd (check_schema rc schema schema) (\<lambda>_. errors 201 rc schema i schema [])"

section \<open>What the keywords mean\<close>

text \<open>
  The reading of the specification: an instance satisfies an object schema when it satisfies each of its keywords.
  \<open>S\<close> is satisfaction of the schemas that a keyword applies, at one step less of depth.
\<close>

definition listed :: "jvalue \<Rightarrow> jvalue set" where
  "listed v = (case iter v of Inr xs \<Rightarrow> set xs | Inl _ \<Rightarrow> {})"

definition sat_object :: "(jvalue \<Rightarrow> jvalue \<Rightarrow> bool) \<Rightarrow> (utext, jvalue) dict \<Rightarrow> (utext, jvalue) dict \<Rightarrow> bool" where
  "sat_object S d m \<longleftrightarrow>
     (\<forall>v. kw d ''required'' = Some v \<longrightarrow> (\<forall>n \<in> listed v. \<exists>k. n = JStr k \<and> dget m k \<noteq> None)) \<and>
     (\<forall>kv \<in> set m. \<forall>p. property_schema d (fst kv) = Inr p \<longrightarrow> (case p of
        Some s \<Rightarrow> S (snd kv) s
      | None \<Rightarrow> (\<forall>s. kw d ''additionalProperties'' = Some s \<longrightarrow> S (snd kv) s)))"

definition sat_array :: "(jvalue \<Rightarrow> jvalue \<Rightarrow> bool) \<Rightarrow> (utext, jvalue) dict \<Rightarrow> jvalue list \<Rightarrow> bool" where
  "sat_array S d xs \<longleftrightarrow>
     (\<forall>s. kw d ''items'' = Some s \<longrightarrow> (\<forall>x \<in> set xs. S x s)) \<and>
     (\<forall>v. kw d ''minItems'' = Some v \<longrightarrow> num_value v \<le> of_nat (length xs)) \<and>
     (\<forall>v. kw d ''maxItems'' = Some v \<longrightarrow> of_nat (length xs) \<le> num_value v) \<and>
     (\<forall>v. kw d ''uniqueItems'' = Some v \<longrightarrow> truthy v \<longrightarrow> (\<forall>i j. i < j \<longrightarrow> j < length xs \<longrightarrow> \<not> json_equal (xs ! i) (xs ! j)))"

definition sat_string :: "engine \<Rightarrow> (utext, jvalue) dict \<Rightarrow> utext \<Rightarrow> bool" where
  "sat_string rc d t \<longleftrightarrow>
     (\<forall>v. kw d ''minLength'' = Some v \<longrightarrow> num_value v \<le> of_nat (length t)) \<and>
     (\<forall>v. kw d ''maxLength'' = Some v \<longrightarrow> of_nat (length t) \<le> num_value v) \<and>
     (\<forall>v search. kw d ''pattern'' = Some v \<longrightarrow> compiled rc v = Inr search \<longrightarrow> search (units t))"

definition sat_number :: "(utext, jvalue) dict \<Rightarrow> rat \<Rightarrow> bool" where
  "sat_number d q \<longleftrightarrow>
     (\<forall>v. kw d ''minimum'' = Some v \<longrightarrow> num_value v \<le> q) \<and> (\<forall>v. kw d ''maximum'' = Some v \<longrightarrow> q \<le> num_value v)"

definition exactly_one :: "(jvalue \<Rightarrow> bool) \<Rightarrow> jvalue list \<Rightarrow> bool" where
  "exactly_one P ss \<longleftrightarrow> (\<exists>!n. n < length ss \<and> P (ss ! n))"

definition sat_combined :: "(jvalue \<Rightarrow> bool) \<Rightarrow> (utext, jvalue) dict \<Rightarrow> bool" where
  "sat_combined P d \<longleftrightarrow>
     (\<forall>v. kw d ''allOf'' = Some v \<longrightarrow> (\<forall>s \<in> listed v. P s)) \<and>
     (\<forall>v. kw d ''anyOf'' = Some v \<longrightarrow> (\<exists>s \<in> listed v. P s)) \<and>
     (\<forall>v ss. kw d ''oneOf'' = Some v \<longrightarrow> iter v = Inr ss \<longrightarrow> exactly_one P ss) \<and>
     (\<forall>s. kw d ''not'' = Some s \<longrightarrow> \<not> P s) \<and>
     (\<forall>s t. kw d ''if'' = Some s \<longrightarrow> P s \<longrightarrow> kw d ''then'' = Some t \<longrightarrow> P t) \<and>
     (\<forall>s t. kw d ''if'' = Some s \<longrightarrow> \<not> P s \<longrightarrow> kw d ''else'' = Some t \<longrightarrow> P t)"

primrec sat :: "nat \<Rightarrow> engine \<Rightarrow> jvalue \<Rightarrow> jvalue \<Rightarrow> jvalue \<Rightarrow> bool" where
  "sat 0 rc doc i schema = False"
| "sat (Suc n) rc doc i schema = (case schema of
     JBool b \<Rightarrow> b
   | JDict d \<Rightarrow>
       (\<forall>r s. kw d ''$ref'' = Some (JStr r) \<longrightarrow> pointer doc r = Inr s \<longrightarrow> sat n rc doc i s) \<and>
       (\<forall>v. kw d ''type'' = Some v \<longrightarrow> (\<exists>name \<in> set (type_names v). is_type i name)) \<and>
       (\<forall>v. kw d ''const'' = Some v \<longrightarrow> json_equal i v) \<and>
       (\<forall>v. kw d ''enum'' = Some v \<longrightarrow> (\<exists>x \<in> listed v. json_equal i x)) \<and>
       (\<forall>m. i = JDict m \<longrightarrow> sat_object (sat n rc doc) d m) \<and>
       (\<forall>xs. i = JList xs \<longrightarrow> sat_array (sat n rc doc) d xs) \<and>
       (\<forall>t. i = JStr t \<longrightarrow> sat_string rc d t) \<and>
       (number_value i \<longrightarrow> sat_number d (num_value i)) \<and>
       sat_combined (sat n rc doc i) d
   | _ \<Rightarrow> False)"

section \<open>The failures are empty exactly for what satisfies the schema\<close>

definition agree :: "failure list res \<Rightarrow> bool \<Rightarrow> bool" where
  "agree r P \<longleftrightarrow> (\<forall>fs. r = Inr fs \<longrightarrow> (fs = [] \<longleftrightarrow> P))"

lemma agree_simps [simp]: "agree (Inl e) P" "agree (Inr fs) P \<longleftrightarrow> (fs = []) = P"
  by (auto simp: agree_def)

lemma fail_if_Nil [simp]: "fail_if b path t = [] \<longleftrightarrow> \<not> b"
  by (simp add: fail_if_def)

lemma gather_Inr: "gather f xs = Inr fs \<longleftrightarrow> (\<exists>ys. map_res f xs = Inr ys \<and> fs = concat ys)"
  by (auto simp: gather_def bnd_eq_Inr)

lemma agree_gather:
  assumes "\<And>x. x \<in> set xs \<Longrightarrow> agree (f x) (P x)"
  shows "agree (gather f xs) (\<forall>x \<in> set xs. P x)"
  unfolding agree_def
proof (intro allI impI)
  fix fs assume "gather f xs = Inr fs"
  then obtain ys where ys: "map_res f xs = Inr ys" "fs = concat ys" by (auto simp: gather_Inr)
  from ys(1) assms show "(fs = []) = (\<forall>x \<in> set xs. P x)" unfolding ys(2)
  proof (induction xs arbitrary: ys)
    case (Cons x xs)
    then obtain y zs where "f x = Inr y" "map_res f xs = Inr zs" "ys = y # zs" by (auto simp: bnd_eq_Inr)
    with Cons show ?case by (auto simp: agree_def)
  qed simp
qed

lemma agree_all [simp]:
  "agree (gather id []) True"
  "agree r P \<Longrightarrow> agree (gather id rs) Q \<Longrightarrow> agree (gather id (r # rs)) (P \<and> Q)"
  by (auto simp: agree_def gather_Inr bnd_eq_Inr)

lemma agree_limit:
  "agree (limit (<) q d name path t) (\<forall>v. kw d name = Some v \<longrightarrow> num_value v \<le> q)"
  "agree (limit (>) q d name path t) (\<forall>v. kw d name = Some v \<longrightarrow> q \<le> num_value v)"
  by (auto simp: limit_def not_less split: option.split)

lemma repeats_iff: "repeats xs \<longleftrightarrow> (\<exists>i j. i < j \<and> j < length xs \<and> json_equal (xs ! i) (xs ! j))"
proof (induction xs)
  case (Cons x xs)
  have "(\<exists>i j. i < j \<and> j < Suc (length xs) \<and> json_equal ((x # xs) ! i) ((x # xs) ! j)) \<longleftrightarrow>
    (\<exists>j < length xs. json_equal x (xs ! j)) \<or> (\<exists>i j. i < j \<and> j < length xs \<and> json_equal (xs ! i) (xs ! j))"
    (is "?L \<longleftrightarrow> ?R")
  proof
    assume ?L
    then obtain i j where "i < j" "j < Suc (length xs)" "json_equal ((x # xs) ! i) ((x # xs) ! j)" by blast
    then show ?R by (cases i; cases j) auto
  next
    assume ?R
    then consider j where "j < length xs" "json_equal x (xs ! j)" | i j where "i < j" "j < length xs" "json_equal (xs ! i) (xs ! j)" by blast
    then show ?L
    proof cases
      case (1 j)
      then show ?thesis by (intro exI [of _ 0] exI [of _ "Suc j"]) simp
    next
      case (2 i j)
      then show ?thesis by (intro exI [of _ "Suc i"] exI [of _ "Suc j"]) simp
    qed
  qed
  moreover have "list_ex (json_equal x) xs \<longleftrightarrow> (\<exists>j < length xs. json_equal x (xs ! j))"
    by (simp add: list_ex_length)
  ultimately show ?case by (simp only: repeats.simps Cons.IH length_Cons)
qed simp

lemma agree_object:
  assumes "\<And>x s p. agree (e x s p) (S x s)"
  shows "agree (errors_object e d i path) (\<forall>m. i = JDict m \<longrightarrow> sat_object S d m)"
proof (cases i)
  case (JDict m)
  have r: "agree (required_member m path n) (\<exists>k. n = JStr k \<and> dget m k \<noteq> None)" for n
    by (cases n) (auto simp: required_member_def)
  have "agree (bnd (case kw d ''required'' of None \<Rightarrow> Inr [] | Some v \<Rightarrow> iter v) (gather (required_member m path)))
    (\<forall>v. kw d ''required'' = Some v \<longrightarrow> (\<forall>n \<in> listed v. \<exists>k. n = JStr k \<and> dget m k \<noteq> None))"
  proof (cases "kw d ''required''")
    case (Some v)
    then show ?thesis using agree_gather [OF r] by (cases "iter v") (simp_all add: listed_def)
  qed (simp add: gather_def)
  moreover have "agree (member_errors e d path kv) (\<forall>p. property_schema d (fst kv) = Inr p \<longrightarrow> (case p of
        Some s \<Rightarrow> S (snd kv) s | None \<Rightarrow> (\<forall>s. kw d ''additionalProperties'' = Some s \<longrightarrow> S (snd kv) s)))" for kv
    using assms by (cases "property_schema d (fst kv)") (auto simp: member_errors_def split: option.split)
  then have "agree (gather (member_errors e d path) m) (\<forall>kv \<in> set m. \<forall>p. property_schema d (fst kv) = Inr p \<longrightarrow> (case p of
        Some s \<Rightarrow> S (snd kv) s | None \<Rightarrow> (\<forall>s. kw d ''additionalProperties'' = Some s \<longrightarrow> S (snd kv) s)))"
    by (rule agree_gather)
  ultimately have "agree (errors_object e d (JDict m) path) (sat_object S d m \<and> True)"
    unfolding errors_object_def sat_object_def jval.case conj_assoc by (intro agree_all)
  then show ?thesis using JDict by simp
qed (simp_all add: errors_object_def)

lemma agree_array:
  assumes "\<And>x s p. agree (e x s p) (S x s)"
  shows "agree (errors_array e d i path) (\<forall>xs. i = JList xs \<longrightarrow> sat_array S d xs)"
proof (cases i)
  case (JList xs)
  have "agree (gather (\<lambda>(n, v). e v s (join_path path (index_key n))) (zip [0..<length xs] xs)) (\<forall>x \<in> set xs. S x s)" for s
  proof -
    have "agree (gather (\<lambda>(n, v). e v s (join_path path (index_key n))) (zip [0..<length xs] xs)) (\<forall>p \<in> set (zip [0..<length xs] xs). S (snd p) s)"
      using assms by (intro agree_gather) auto
    moreover have "snd ` set (zip [0..<length xs] xs) = set xs" by (metis length_upt list.set_map map_snd_zip minus_nat.diff_0)
    then have "(\<forall>p \<in> set (zip [0..<length xs] xs). S (snd p) s) \<longleftrightarrow> (\<forall>x \<in> set xs. S x s)" by (metis (no_types, lifting) image_iff)
    ultimately show ?thesis by simp
  qed
  then have "agree (case kw d ''items'' of None \<Rightarrow> Inr []
     | Some s \<Rightarrow> gather (\<lambda>(n, v). e v s (join_path path (index_key n))) (zip [0..<length xs] xs)) (\<forall>s. kw d ''items'' = Some s \<longrightarrow> (\<forall>x \<in> set xs. S x s))"
    by (cases "kw d ''items''") simp_all
  moreover have "agree (Inr (fail_if ((case kw d ''uniqueItems'' of None \<Rightarrow> False | Some v \<Rightarrow> truthy v) \<and> repeats xs) path ''items repeat''))
    (\<forall>v. kw d ''uniqueItems'' = Some v \<longrightarrow> truthy v \<longrightarrow> (\<forall>i j. i < j \<longrightarrow> j < length xs \<longrightarrow> \<not> json_equal (xs ! i) (xs ! j)))"
    by (cases "kw d ''uniqueItems''") (auto simp: repeats_iff)
  ultimately have "agree (errors_array e d (JList xs) path) (sat_array S d xs \<and> True)"
    unfolding errors_array_def sat_array_def jval.case conj_assoc by (intro agree_all agree_limit)
  then show ?thesis using JList by simp
qed (simp_all add: errors_array_def)

lemma agree_string: "agree (errors_string rc d i path) (\<forall>t. i = JStr t \<longrightarrow> sat_string rc d t)"
proof (cases i)
  case (JStr t)
  have "agree (case kw d ''pattern'' of None \<Rightarrow> Inr []
     | Some v \<Rightarrow> bnd (compiled rc v) (\<lambda>search. Inr (fail_if (\<not> search (units t)) path ''does not match'')))
     (\<forall>v search. kw d ''pattern'' = Some v \<longrightarrow> compiled rc v = Inr search \<longrightarrow> search (units t))"
    by (cases "kw d ''pattern''"; cases "compiled rc (the (kw d ''pattern''))") auto
  then have "agree (errors_string rc d (JStr t) path) (sat_string rc d t \<and> True)"
    unfolding errors_string_def sat_string_def jval.case conj_assoc by (intro agree_all agree_limit)
  then show ?thesis using JStr by simp
qed (simp_all add: errors_string_def)

lemma agree_number: "agree (errors_number d i path) (number_value i \<longrightarrow> sat_number d (num_value i))"
proof (cases "number_value i")
  case True
  then have "agree (errors_number d i path) (sat_number d (num_value i) \<and> True)"
    unfolding errors_number_def sat_number_def if_P [OF True] conj_assoc by (intro agree_all agree_limit)
  then show ?thesis using True by simp
qed (simp add: errors_number_def)

lemma any_valid_iff:
  assumes "any_valid f ss = Inr b" "\<And>s. agree (f s) (P s)"
  shows "b \<longleftrightarrow> (\<exists>s \<in> set ss. P s)"
  using assms(1)
proof (induction ss)
  case (Cons s ss)
  then obtain fs where "f s = Inr fs" "(if fs = [] then Inr True else any_valid f ss) = Inr b" by (auto simp: bnd_eq_Inr)
  with Cons.IH assms(2) [of s] show ?case by (cases "fs = []") auto
qed simp

lemma card_ex1: "card {n. Q n} = 1 \<longleftrightarrow> (\<exists>!n. Q n)"
proof
  assume "card {n. Q n} = 1"
  then obtain x where x: "{n. Q n} = {x}" by (auto simp: card_1_singleton_iff)
  have "Q n \<longleftrightarrow> n \<in> {n. Q n}" for n by (rule mem_Collect_eq [symmetric])
  then have "Q n \<longleftrightarrow> n = x" for n unfolding x singleton_iff .
  then show "\<exists>!n. Q n" by simp
next
  assume "\<exists>!n. Q n"
  then obtain x where x: "Q x" "\<forall>y. Q y \<longrightarrow> y = x" unfolding Ex1_def by blast
  then have "{n. Q n} = {x}" by blast
  then show "card {n. Q n} = 1" by simp
qed

lemma one_valid_iff:
  assumes "map_res f ss = Inr rs" "\<And>s. agree (f s) (P s)"
  shows "length (filter (\<lambda>r. r = []) rs) = 1 \<longleftrightarrow> exactly_one P ss"
proof -
  have "length (filter (\<lambda>r. r = []) rs) = length (filter P ss)"
    using assms(1)
  proof (induction ss arbitrary: rs)
    case (Cons s ss)
    then obtain r qs where "f s = Inr r" "map_res f ss = Inr qs" "rs = r # qs" by (auto simp: bnd_eq_Inr)
    with Cons.IH assms(2) [of s] show ?case by auto
  qed simp
  also have "\<dots> = card {n. n < length ss \<and> P (ss ! n)}" by (rule length_filter_conv_card)
  finally show ?thesis unfolding exactly_one_def by (simp only: card_ex1)
qed

lemma agree_allOf:
  assumes "\<And>s. agree (f s) (P s)"
  shows "agree (bnd (case kw d k of None \<Rightarrow> Inr [] | Some v \<Rightarrow> iter v) (gather f)) (\<forall>v. kw d k = Some v \<longrightarrow> (\<forall>s \<in> listed v. P s))"
proof (cases "kw d k")
  case (Some v)
  then show ?thesis using agree_gather [OF assms] by (cases "iter v") (simp_all add: listed_def)
qed (simp add: gather_def)

lemma agree_anyOf:
  assumes "\<And>s. agree (f s) (P s)"
  shows "agree (case kw d k of None \<Rightarrow> Inr [] | Some v \<Rightarrow> bnd (bnd (iter v) (any_valid f)) (\<lambda>b. Inr (fail_if (\<not> b) path t)))
    (\<forall>v. kw d k = Some v \<longrightarrow> (\<exists>s \<in> listed v. P s))"
proof (cases "kw d k")
  case (Some v)
  have "agree (bnd (bnd (iter v) (any_valid f)) (\<lambda>b. Inr (fail_if (\<not> b) path t))) (\<exists>s \<in> listed v. P s)"
    unfolding agree_def by (auto simp: bnd_eq_Inr listed_def dest!: any_valid_iff [OF _ assms])
  with Some show ?thesis by simp
qed simp

lemma agree_oneOf:
  assumes "\<And>s. agree (f s) (P s)"
  shows "agree (case kw d k of None \<Rightarrow> Inr []
      | Some v \<Rightarrow> bnd (bnd (iter v) (map_res f)) (\<lambda>rs. Inr (fail_if (length (filter (\<lambda>r. r = []) rs) \<noteq> 1) path t)))
    (\<forall>v ss. kw d k = Some v \<longrightarrow> iter v = Inr ss \<longrightarrow> exactly_one P ss)"
proof (cases "kw d k")
  case (Some v)
  have "agree (bnd (bnd (iter v) (map_res f)) (\<lambda>rs. Inr (fail_if (length (filter (\<lambda>r. r = []) rs) \<noteq> 1) path t)))
    (\<forall>ss. iter v = Inr ss \<longrightarrow> exactly_one P ss)"
    unfolding agree_def bnd_eq_Inr using one_valid_iff [OF _ assms] by fastforce
  with Some show ?thesis by simp
qed simp

lemma agree_not:
  assumes "\<And>s. agree (f s) (P s)"
  shows "agree (case kw d k of None \<Rightarrow> Inr [] | Some s \<Rightarrow> bnd (f s) (\<lambda>r. Inr (fail_if (r = []) path t))) (\<forall>s. kw d k = Some s \<longrightarrow> \<not> P s)"
  using assms by (cases "kw d k") (auto simp: agree_def bnd_eq_Inr)

lemma agree_if:
  assumes "\<And>s. agree (f s) (P s)"
  shows "agree (case kw d k of None \<Rightarrow> Inr []
      | Some s \<Rightarrow> bnd (f s) (\<lambda>r. (case kw d (if r = [] then ''then'' else ''else'') of None \<Rightarrow> Inr [] | Some t \<Rightarrow> f t)))
    ((\<forall>s t. kw d k = Some s \<longrightarrow> P s \<longrightarrow> kw d ''then'' = Some t \<longrightarrow> P t) \<and>
     (\<forall>s t. kw d k = Some s \<longrightarrow> \<not> P s \<longrightarrow> kw d ''else'' = Some t \<longrightarrow> P t))"
proof (cases "kw d k")
  case (Some s)
  show ?thesis
  proof (cases "f s")
    case (Inr r)
    with assms [of s] have r: "(r = []) = P s" by simp
    show ?thesis using Some Inr r assms by (cases "P s") (auto split: option.split)
  qed (use Some in simp)
qed simp

lemma agree_combined:
  assumes "\<And>s. agree (e i s path) (S i s)"
  shows "agree (errors_combined e d i path) (sat_combined (S i) d)"
proof -
  note parts = agree_allOf [OF assms] agree_anyOf [OF assms] agree_oneOf [OF assms] agree_not [OF assms] agree_if [OF assms]
  have "agree (errors_combined e d i path) (sat_combined (S i) d \<and> True)"
    unfolding errors_combined_def Let_def sat_combined_def conj_assoc
    using agree_all(2) [OF parts(1) agree_all(2) [OF parts(2) agree_all(2) [OF parts(3) agree_all(2) [OF parts(4)
      agree_all(2) [OF parts(5) agree_all(1)]]]]]
    by (simp only: conj_assoc)
  then show ?thesis by simp
qed

lemma errors_agree: "agree (errors n rc doc i schema path) (sat n rc doc i schema)"
proof (induction n arbitrary: i schema path)
  case (Suc n)
  show ?case
  proof (cases schema)
    case (JDict d)
    have r: "agree (errors_ref (errors n rc doc) doc d i path)
      (\<forall>r s. kw d ''$ref'' = Some (JStr r) \<longrightarrow> pointer doc r = Inr s \<longrightarrow> sat n rc doc i s)"
    proof (cases "kw d ''$ref''")
      case (Some v)
      show ?thesis
      proof (cases v)
        case (JStr r)
        with Some Suc.IH show ?thesis by (cases "pointer doc r") (simp_all add: errors_ref_def)
      qed (simp_all add: errors_ref_def Some)
    qed (simp add: errors_ref_def)
    have t: "agree (errors_type d i path) (\<forall>v. kw d ''type'' = Some v \<longrightarrow> (\<exists>name \<in> set (type_names v). is_type i name))"
      by (cases "kw d ''type''") (auto simp: errors_type_def list_ex_iff)
    have c: "agree (errors_const d i path) (\<forall>v. kw d ''const'' = Some v \<longrightarrow> json_equal i v)"
      by (cases "kw d ''const''") (simp_all add: errors_const_def)
    have e: "agree (errors_enum d i path) (\<forall>v. kw d ''enum'' = Some v \<longrightarrow> (\<exists>x \<in> listed v. json_equal i x))"
      by (cases "kw d ''enum''"; cases "iter (the (kw d ''enum''))") (auto simp: errors_enum_def listed_def list_ex_iff)
    note parts = r t c e agree_object [of "errors n rc doc" "sat n rc doc", OF Suc.IH] agree_array [of "errors n rc doc" "sat n rc doc", OF Suc.IH]
      agree_string agree_number agree_combined [of "errors n rc doc" _ _ "sat n rc doc", OF Suc.IH]
    have "agree (errors (Suc n) rc doc i (JDict d) path) (sat (Suc n) rc doc i (JDict d) \<and> True)"
      unfolding errors.simps sat.simps jval.case conj_assoc by (intro agree_all parts)
    then show ?thesis using JDict by simp
  qed simp_all
qed simp

section \<open>Schemas that are checked wherever they are applied\<close>

text \<open>The nodes that validation can apply as a schema: from the document, through its keywords and references.\<close>

definition SINGLE :: "string list" where
  "SINGLE = [''additionalProperties'', ''items'', ''not'', ''if'', ''then'', ''else'']"

definition MANY :: "string list" where
  "MANY = [''allOf'', ''anyOf'', ''oneOf'']"

inductive applied :: "jvalue \<Rightarrow> jvalue \<Rightarrow> bool" for doc where
  applied_doc: "applied doc doc"
| applied_ref: "applied doc (JDict d) \<Longrightarrow> kw d ''$ref'' = Some (JStr r) \<Longrightarrow> pointer doc r = Inr s \<Longrightarrow> applied doc s"
| applied_one: "applied doc (JDict d) \<Longrightarrow> k \<in> set SINGLE \<Longrightarrow> kw d k = Some s \<Longrightarrow> applied doc s"
| applied_many: "applied doc (JDict d) \<Longrightarrow> k \<in> set MANY \<Longrightarrow> kw d k = Some (JList ss) \<Longrightarrow> s \<in> set ss \<Longrightarrow> applied doc s"
| applied_property: "applied doc (JDict d) \<Longrightarrow> kw d ''properties'' = Some (JDict ps) \<Longrightarrow> (k, s) \<in> set ps \<Longrightarrow> applied doc s"

definition tame :: "'a res \<Rightarrow> bool" where
  "tame r \<longleftrightarrow> (\<forall>e. r = Inl e \<longrightarrow> e = SchemaError ''reference depth beyond 200'')"

lemma tame_Inr [simp]: "tame (Inr x)"
  by (simp add: tame_def)

lemma tame_bnd: "tame m \<Longrightarrow> (\<And>x. m = Inr x \<Longrightarrow> tame (f x)) \<Longrightarrow> tame (bnd m f)"
  by (cases m) (auto simp: tame_def)

lemma tame_map: "(\<And>x. x \<in> set xs \<Longrightarrow> tame (f x)) \<Longrightarrow> tame (map_res f xs)"
  by (induction xs) (auto intro!: tame_bnd)

lemma tame_gather: "(\<And>x. x \<in> set xs \<Longrightarrow> tame (f x)) \<Longrightarrow> tame (gather f xs)"
  by (auto simp: gather_def intro!: tame_bnd tame_map)

lemma tame_any: "(\<And>s. s \<in> set ss \<Longrightarrow> tame (f s)) \<Longrightarrow> tame (any_valid f ss)"
  by (induction ss) (auto intro!: tame_bnd)

lemma tame_limit: "(\<And>v. kw d name = Some v \<Longrightarrow> number_value v) \<Longrightarrow> tame (limit beyond x d name path t)"
  by (auto simp: limit_def split: option.split)

lemma check_dictD:
  assumes "check_schema rc doc (JDict d) = Inr ()"
  shows "check_values rc doc d = Inr ()"
    "k \<in> set MANY \<Longrightarrow> kw d k = Some v \<Longrightarrow> \<exists>ss. v = JList ss"
    "kw d ''properties'' = Some v \<Longrightarrow> \<exists>ps. v = JDict ps"
  using assms unfolding check_schema.simps [of rc doc "JDict d"]
  by (auto simp: bnd_eq_Inr MANY_def split: if_split_asm jval.split_asm)

lemma check_valuesD:
  assumes "check_values rc doc d = Inr ()"
  shows "kw d ''$ref'' = Some v \<Longrightarrow> \<exists>r s. v = JStr r \<and> pointer doc r = Inr s"
    "kw d ''type'' = Some v \<Longrightarrow> list_all is_str (type_names v)"
    "kw d ''enum'' = Some v \<Longrightarrow> \<exists>xs. v = JList xs"
    "kw d ''required'' = Some v \<Longrightarrow> \<exists>xs. v = JList xs \<and> list_all is_str xs"
    "k \<in> set [''minItems'', ''maxItems'', ''minLength'', ''maxLength''] \<Longrightarrow> kw d k = Some v \<Longrightarrow> number_value v"
    "k \<in> set [''minimum'', ''maximum''] \<Longrightarrow> kw d k = Some v \<Longrightarrow> number_value v"
    "kw d ''pattern'' = Some v \<Longrightarrow> \<exists>search. compiled rc v = Inr search"
proof -
  from assms have a: "check_ref doc d = Inr ()" "check_type d = Inr ()" "check_enum d = Inr ()" "check_required d = Inr ()"
    "check_counts d = Inr ()" "check_limits d = Inr ()" "check_pattern rc d = Inr ()"
    by (auto simp: check_values_def bnd_eq_Inr)
  show "kw d ''$ref'' = Some v \<Longrightarrow> \<exists>r s. v = JStr r \<and> pointer doc r = Inr s"
    using a(1) by (cases v) (auto simp: check_ref_def bnd_eq_Inr)
  show "list_all is_str (type_names v)" if "kw d ''type'' = Some v"
  proof -
    from a(2) that have "list_all (\<lambda>n. n \<in> set (map (\<lambda>t. JStr (u t)) TYPES)) (type_names v)" by (simp add: check_type_def split: if_split_asm)
    then show ?thesis by (rule list.pred_mono_strong) (auto simp: is_str_def)
  qed
  show "kw d ''enum'' = Some v \<Longrightarrow> \<exists>xs. v = JList xs" using a(3) by (cases v) (auto simp: check_enum_def)
  show "kw d ''required'' = Some v \<Longrightarrow> \<exists>xs. v = JList xs \<and> list_all is_str xs"
    using a(4) by (cases v) (auto simp: check_required_def split: if_split_asm)
  show "k \<in> set [''minItems'', ''maxItems'', ''minLength'', ''maxLength''] \<Longrightarrow> kw d k = Some v \<Longrightarrow> number_value v"
    using a(5) unfolding check_counts_def each_res_Inr by (cases v) (auto simp: number_value_def)
  show "k \<in> set [''minimum'', ''maximum''] \<Longrightarrow> kw d k = Some v \<Longrightarrow> number_value v"
    using a(6) unfolding check_limits_def each_res_Inr by (auto split: if_split_asm)
  show "kw d ''pattern'' = Some v \<Longrightarrow> \<exists>search. compiled rc v = Inr search"
    using a(7) by (auto simp: check_pattern_def split: sum.split_asm)
qed

text \<open>The parts of \<^verbatim>\<open>_errors\<close> on a checked object schema, where the schemas that it applies are tame.\<close>

lemma tame_object:
  assumes c: "check_schema rc doc (JDict d) = Inr ()"
    and one: "\<And>k t x p. k \<in> set SINGLE \<Longrightarrow> kw d k = Some t \<Longrightarrow> tame (e x t p)"
    and props: "\<And>ps k t x p. kw d ''properties'' = Some (JDict ps) \<Longrightarrow> (k, t) \<in> set ps \<Longrightarrow> tame (e x t p)"
  shows "tame (errors_object e d i path)"
proof (cases i)
  case (JDict m)
  note cd = check_dictD [OF c] and cv = check_valuesD [OF check_dictD(1) [OF c]]
  have "tame (required_member m path x)" if "is_str x" for x using that by (auto simp: required_member_def is_str_iff)
  then have "tame (bnd (case kw d ''required'' of None \<Rightarrow> Inr [] | Some v \<Rightarrow> iter v) (gather (required_member m path)))"
    using cv(4) by (intro tame_bnd tame_gather) (fastforce simp: iter_def list_all_iff split: option.split_asm option.split)+
  moreover have "tame (member_errors e d path kv)" for kv
  proof -
    have p: "tame (property_schema d (fst kv))" using cd(3) by (fastforce simp: property_schema_def split: option.split)
    have q: "tame (e x t p)" if "property_schema d (fst kv) = Inr (Some t)" for x t p
    proof -
      from that cd(3) obtain ps where "kw d ''properties'' = Some (JDict ps)" "dget ps (fst kv) = Some t"
        by (fastforce simp: property_schema_def split: option.split_asm)
      then show ?thesis using props by (auto dest: map_of_SomeD)
    qed
    show ?thesis unfolding member_errors_def
      by (intro tame_bnd p) (auto intro: q one [of "''additionalProperties''"] simp: SINGLE_def split: option.split)
  qed
  ultimately show ?thesis unfolding JDict errors_object_def jval.case by (intro tame_gather) (auto intro: tame_gather)
qed (simp_all add: errors_object_def)

lemma tame_array:
  assumes c: "check_schema rc doc (JDict d) = Inr ()"
    and one: "\<And>k t x p. k \<in> set SINGLE \<Longrightarrow> kw d k = Some t \<Longrightarrow> tame (e x t p)"
  shows "tame (errors_array e d i path)"
proof (cases i)
  case (JList xs)
  note cv = check_valuesD [OF check_dictD(1) [OF c]]
  have "tame (case kw d ''items'' of None \<Rightarrow> Inr []
       | Some s \<Rightarrow> gather (\<lambda>(n, v). e v s (join_path path (index_key n))) (zip [0..<length xs] xs))"
    by (auto intro!: tame_gather one [of "''items''"] simp: SINGLE_def split: option.split)
  moreover have "tame (limit b x d k path t)" if "k \<in> set [''minItems'', ''maxItems'']" for b x k t
    using that by (intro tame_limit cv(5) [of k]) auto
  ultimately show ?thesis unfolding JList errors_array_def jval.case by (intro tame_gather) auto
qed (simp_all add: errors_array_def)

lemma tame_string:
  assumes "check_schema rc doc (JDict d) = Inr ()"
  shows "tame (errors_string rc d i path)"
proof (cases i)
  case (JStr t)
  note cv = check_valuesD [OF check_dictD(1) [OF assms]]
  have "tame (case kw d ''pattern'' of None \<Rightarrow> Inr []
       | Some v \<Rightarrow> bnd (compiled rc v) (\<lambda>search. Inr (fail_if (\<not> search (units t)) path ''does not match'')))"
    using cv(7) by (fastforce split: option.split)
  moreover have "tame (limit b x d k path t)" if "k \<in> set [''minLength'', ''maxLength'']" for b x k t
    using that by (intro tame_limit cv(5) [of k]) auto
  ultimately show ?thesis unfolding JStr errors_string_def jval.case by (intro tame_gather) auto
qed (simp_all add: errors_string_def)

lemma tame_values:
  assumes "check_schema rc doc (JDict d) = Inr ()"
  shows "tame (errors_type d i path)" "tame (errors_const d i path)" "tame (errors_enum d i path)" "tame (errors_number d i path)"
proof -
  note cv = check_valuesD [OF check_dictD(1) [OF assms]]
  show "tame (errors_type d i path)" using cv(2) by (auto simp: errors_type_def split: option.split)
  show "tame (errors_const d i path)" by (auto simp: errors_const_def split: option.split)
  show "tame (errors_enum d i path)" using cv(3) by (fastforce simp: errors_enum_def iter_def split: option.split)
  have "tame (limit b x d k path t)" if "k \<in> set [''minimum'', ''maximum'']" for b x k t
    using that by (intro tame_limit cv(6) [of k]) auto
  then show "tame (errors_number d i path)" unfolding errors_number_def by (auto intro!: tame_gather)
qed

lemma tame_combined:
  assumes c: "check_schema rc doc (JDict d) = Inr ()"
    and one: "\<And>k t x p. k \<in> set SINGLE \<Longrightarrow> kw d k = Some t \<Longrightarrow> tame (e x t p)"
    and many: "\<And>k ts t x p. k \<in> set MANY \<Longrightarrow> kw d k = Some (JList ts) \<Longrightarrow> t \<in> set ts \<Longrightarrow> tame (e x t p)"
  shows "tame (errors_combined e d i path)"
  unfolding errors_combined_def Let_def
proof (intro tame_gather, goal_cases)
  case (1 r)
  have m: "\<exists>ts. v = JList ts \<and> iter v = Inr ts" if "kw d k = Some v" "k \<in> set MANY" for k v
    using check_dictD(2) [OF c that(2,1)] by (auto simp: iter_def)
  have a: "tame (bnd (case kw d ''allOf'' of None \<Rightarrow> Inr [] | Some v \<Rightarrow> iter v) (gather (\<lambda>s. e i s path)))"
    using m [of "''allOf''"] many [of "''allOf''"] by (cases "kw d ''allOf''") (auto simp: MANY_def gather_def intro!: tame_bnd tame_map)
  have b: "tame (bnd (bnd (iter v) (any_valid (\<lambda>s. e i s path))) (\<lambda>b. Inr (fail_if (\<not> b) path t)))" if "kw d ''anyOf'' = Some v" for v t
    using m [OF that] many [of "''anyOf''"] that by (auto simp: MANY_def intro!: tame_bnd tame_any)
  have o': "tame (bnd (bnd (iter v) (map_res (\<lambda>s. e i s path))) (\<lambda>rs. Inr (fail_if (f rs) path t)))" if "kw d ''oneOf'' = Some v" for v f t
    using m [OF that] many [of "''oneOf''"] that by (auto simp: MANY_def intro!: tame_bnd tame_map)
  have s: "kw d ''not'' = Some t \<Longrightarrow> tame (e i t path)" "kw d ''if'' = Some t \<Longrightarrow> tame (e i t path)"
    "kw d ''then'' = Some t \<Longrightarrow> tame (e i t path)" "kw d ''else'' = Some t \<Longrightarrow> tame (e i t path)" for t
    by (erule one [rotated]; simp add: SINGLE_def)+
  have f: "tame (bnd (e i x path) (\<lambda>r. (case kw d (if r = [] then ''then'' else ''else'') of None \<Rightarrow> Inr [] | Some t \<Rightarrow> e i t path)))"
    if "kw d ''if'' = Some x" for x
    by (intro tame_bnd s(2) [OF that]) (auto split: option.split simp: s(3,4))
  have n: "tame (bnd (e i x path) (\<lambda>r. Inr (fail_if (r = []) path t)))" if "kw d ''not'' = Some x" for x t
    by (intro tame_bnd s(1) [OF that]) simp
  from 1 a show ?case by (auto split: option.split simp: b o' f n)
qed

lemma errors_tame:
  assumes all: "\<And>s. applied doc s \<Longrightarrow> check_schema rc doc s = Inr ()"
  shows "applied doc s \<Longrightarrow> tame (errors n rc doc i s path)"
proof (induction n arbitrary: i s path)
  case 0
  then show ?case by (simp add: tame_def)
next
  case (Suc n)
  let ?e = "errors n rc doc"
  note c = all [OF Suc.prems]
  show ?case
  proof (cases s)
    case (JDict d)
    note ap = Suc.prems [unfolded JDict] and cd = c [unfolded JDict]
    have one: "tame (?e x t p)" if "k \<in> set SINGLE" "kw d k = Some t" for x t p k
      using Suc.IH [OF applied_one [OF ap that]] .
    have many: "tame (?e x t p)" if "k \<in> set MANY" "kw d k = Some (JList ts)" "t \<in> set ts" for x t p k ts
      using Suc.IH [OF applied_many [OF ap that]] .
    have props: "tame (?e x t p)" if "kw d ''properties'' = Some (JDict ps)" "(k, t) \<in> set ps" for x t p k ps
      using Suc.IH [OF applied_property [OF ap that]] .
    have "tame (errors_ref ?e doc d i path)"
      using check_valuesD(1) [OF check_dictD(1) [OF cd]] Suc.IH [OF applied_ref [OF ap]] by (fastforce simp: errors_ref_def split: option.split)
    then show ?thesis unfolding JDict errors.simps jval.case
      using tame_values [OF cd] tame_object [OF cd one props] tame_array [OF cd one] tame_string [OF cd] tame_combined [OF cd one many]
      by (intro tame_gather) auto
  qed (use c in \<open>simp_all add: check_schema.simps\<close>)
qed

section \<open>Pointers\<close>

definition escape_key :: "utext \<Rightarrow> utext" where
  "escape_key key = replace_one slash [tilde, 49] (replace_one tilde [tilde, 48] key)"

lemma escape_key_simps [simp]:
  "escape_key [] = []"
  "escape_key (c # s) = (if c = tilde then [tilde, 48] else if c = slash then [tilde, 49] else [c]) @ escape_key s"
  by (simp_all add: escape_key_def replace_one_def slash_def tilde_def)

lemma replace_pair_other: "x \<noteq> a \<Longrightarrow> replace_pair a b c (x # s) = x # replace_pair a b c s"
  by (cases s) simp_all

lemma unescape_escape: "unescape (escape_key key) = key"
proof -
  have "replace_pair tilde 49 slash (escape_key key) = replace_one tilde [tilde, 48] key"
    by (induction key) (simp_all add: replace_pair_other replace_one_def slash_def tilde_def)
  moreover have "replace_pair tilde 48 tilde (replace_one tilde [tilde, 48] key) = key"
    by (induction key) (simp_all add: replace_pair_other replace_one_def tilde_def)
  ultimately show ?thesis by (simp add: unescape_def)
qed

lemma no_slash: "slash \<notin> set (escape_key key)"
  by (induction key) (auto simp: slash_def tilde_def)

lemma join_keys: "foldl join_path path keys = path @ concat (map (\<lambda>k. slash # escape_key k) keys)"
  by (induction keys arbitrary: path) (simp_all add: join_path_def escape_key_def)

lemma split_keys: "split_char slash (escape_key k @ concat (map (\<lambda>k. slash # escape_key k) ks)) = escape_key k # map escape_key ks"
proof (induction ks arbitrary: k)
  case Nil
  then show ?case using split_char_no_sep [OF no_slash] by simp
next
  case (Cons l ks)
  then show ?case using split_char_append [OF no_slash] by simp
qed

lemma fold_res_map: "fold_res f s (map g xs) = fold_res (\<lambda>s x. f s (g x)) s xs"
  by (induction xs arbitrary: s) simp_all

lemma escape_key_Nil [simp]: "escape_key k = [] \<longleftrightarrow> k = []"
  by (cases k) simp_all

text \<open>
  C27: References read what the failure pointers write. For every sequence of member names and indexes, whatever
  characters they hold, \<^verbatim>\<open>_pointer\<close> of the path that \<^verbatim>\<open>_join\<close> builds follows exactly those keys from the document,
  and fails exactly where one of them is missing; with the one exception that the path of the single empty key,
  \<^verbatim>\<open>#/\<close>, gives the document itself and not its member with the empty name.
\<close>

theorem pointer_join:
  "pointer doc (u ''#'' @ foldl join_path [] keys) = (if keys = [[]] then Inr doc else fold_res pointer_step doc keys)"
proof (cases keys)
  case Nil
  then show ?thesis by (simp add: pointer_def u_def)
next
  case (Cons k ks)
  define body where "body = escape_key k @ concat (map (\<lambda>k. slash # escape_key k) ks)"
  have path: "u ''#'' @ foldl join_path [] keys = 35 # 47 # body" by (simp only: join_keys) (simp add: Cons u_def slash_def body_def)
  have "body = [] \<longleftrightarrow> keys = [[]]" by (cases ks) (simp_all add: body_def Cons)
  moreover have "fold_res (\<lambda>node token. pointer_step node (unescape token)) doc (split_char slash body) = fold_res pointer_step doc keys"
    by (simp add: body_def split_keys fold_res_map unescape_escape Cons)
  ultimately show ?thesis unfolding path by (simp add: pointer_def u_def)
qed

section \<open>The validator\<close>

definition sample_engine :: engine where
  "sample_engine t = Some (\<lambda>s. True)"

definition sample_schema :: jvalue where
  "sample_schema = JDict [(u ''$ref'', JStr (u ''#/$defs/entry'')), (u ''$defs'', JDict [(u ''entry'', JDict
     [(u ''type'', JStr (u ''object'')), (u ''required'', JList [JStr (u ''a'')]),
      (u ''properties'', JDict [(u ''a'', JDict [(u ''type'', JStr (u ''integer'')), (u ''minimum'', JInt 1)])]),
      (u ''additionalProperties'', JBool False)])])]"

text \<open>
  C13: Where the validator returns, the schema passed the check, and its failures are empty exactly for the instances
  that satisfy the schema: every reference, type, constant, enumeration, member, item, length, pattern, limit and
  combination that it names, applied down to the depth of 200.
\<close>

theorem validate_exact:
  assumes "validate rc i schema = Inr fs"
  shows "check_schema rc schema schema = Inr () \<and> (fs = [] \<longleftrightarrow> sat 201 rc schema i schema)"
proof -
  from assms have "check_schema rc schema schema = Inr ()" "errors 201 rc schema i schema [] = Inr fs"
    by (auto simp: validate_def bnd_eq_Inr)
  then show ?thesis using errors_agree [of 201 rc schema i schema "[]"] by (simp add: agree_def)
qed

theorem validate_exact_witness:
  "validate sample_engine (JDict [(u ''a'', JInt 3)]) sample_schema = Inr [] \<and> sat 201 sample_engine sample_schema (JDict [(u ''a'', JInt 3)]) sample_schema"
proof -
  have "validate sample_engine (JDict [(u ''a'', JInt 3)]) sample_schema = Inr []" by code_simp
  from validate_exact [OF this] this show ?thesis by simp
qed

text \<open>
  C14: A document whose references all lead to checked schemas is applied without a Python error: the validator
  returns its failures, or refuses at the reference depth of 200.
\<close>

theorem validate_tame:
  assumes "\<forall>s. applied doc s \<longrightarrow> check_schema rc doc s = Inr ()"
  shows "(\<exists>fs. validate rc i doc = Inr fs) \<or> validate rc i doc = schema_error ''reference depth beyond 200''"
proof -
  have "check_schema rc doc doc = Inr ()" using assms applied_doc by blast
  moreover have "tame (errors 201 rc doc i doc [])" using errors_tame assms applied_doc by blast
  ultimately show ?thesis by (cases "errors 201 rc doc i doc []") (auto simp: validate_def tame_def)
qed

text \<open>The nodes that a node applies, for the check that a list of nodes is closed.\<close>

definition applies :: "jvalue \<Rightarrow> jvalue \<Rightarrow> jvalue list" where
  "applies doc s = (case s of
     JDict d \<Rightarrow>
       (case kw d ''$ref'' of Some (JStr r) \<Rightarrow> (case pointer doc r of Inr t \<Rightarrow> [t] | Inl _ \<Rightarrow> []) | _ \<Rightarrow> []) @
       concat (map (\<lambda>k. case kw d k of Some t \<Rightarrow> [t] | None \<Rightarrow> []) SINGLE) @
       concat (map (\<lambda>k. case kw d k of Some (JList ts) \<Rightarrow> ts | _ \<Rightarrow> []) MANY) @
       (case kw d ''properties'' of Some (JDict ps) \<Rightarrow> map snd ps | _ \<Rightarrow> [])
   | _ \<Rightarrow> [])"

lemma applied_closed:
  assumes "doc \<in> set ns" and "list_all (\<lambda>s. list_all (\<lambda>t. t \<in> set ns) (applies doc s)) ns"
  shows "applied doc s \<Longrightarrow> s \<in> set ns"
proof (induction rule: applied.induct)
  case applied_doc
  then show ?case by (rule assms(1))
next
  case (applied_ref d r s)
  then have "s \<in> set (applies doc (JDict d))" by (simp add: applies_def)
  with applied_ref(4) assms(2) show ?case by (auto simp: list_all_iff)
next
  case (applied_one d k s)
  then have "s \<in> set (applies doc (JDict d))" by (force simp: applies_def)
  with applied_one(4) assms(2) show ?case by (auto simp: list_all_iff)
next
  case (applied_many d k ss s)
  then have "s \<in> set (applies doc (JDict d))" by (force simp: applies_def)
  with applied_many(5) assms(2) show ?case by (auto simp: list_all_iff)
next
  case (applied_property d ps k s)
  then have "s \<in> set (applies doc (JDict d))" by (force simp: applies_def)
  with applied_property(4) assms(2) show ?case by (auto simp: list_all_iff)
qed

definition sample_nodes :: "jvalue list" where
  "sample_nodes = [sample_schema, projr (pointer sample_schema (u ''#/$defs/entry'')),
     projr (pointer sample_schema (u ''#/$defs/entry/properties/a'')), JBool False]"

lemma sample_nodes_closed:
  "sample_schema \<in> set sample_nodes" "list_all (\<lambda>s. list_all (\<lambda>t. t \<in> set sample_nodes) (applies sample_schema s)) sample_nodes"
  "list_all (\<lambda>s. check_schema sample_engine sample_schema s = Inr ()) sample_nodes"
  by code_simp+

theorem validate_tame_witness: "\<exists>fs. validate sample_engine (JInt 3) sample_schema = Inr fs \<and> fs \<noteq> []"
proof -
  have "\<forall>s. applied sample_schema s \<longrightarrow> check_schema sample_engine sample_schema s = Inr ()"
    using applied_closed [OF sample_nodes_closed(1,2)] sample_nodes_closed(3) by (auto simp: list_all_iff)
  from validate_tame [OF this, of "JInt 3"]
  have "(\<exists>fs. validate sample_engine (JInt 3) sample_schema = Inr fs) \<or>
    validate sample_engine (JInt 3) sample_schema = schema_error ''reference depth beyond 200''" .
  moreover have "map_sum id length (validate sample_engine (JInt 3) sample_schema) = Inr 1" by code_simp
  ultimately show ?thesis by auto
qed


end
