(* ===== verification/Private_Directory.thy ===== *)
theory Private_Directory
  imports Caiman
begin

text \<open>
  The private directories of \<^verbatim>\<open>scripts/pixel/install_zip.py\<close>: \<^verbatim>\<open>PrivateDirectory\<close>, the registry \<^verbatim>\<open>OWNED\<close>, the
  backstops and the sweep at the interpreter's exit. The state holds what is at the paths and what this
  process knows of them; what the operating system answers (whether \<^verbatim>\<open>mkdir\<close> or \<^verbatim>\<open>rmtree\<close> fail, whether
  filling the directory raises) is an argument of each operation, so every theorem holds for all answers.
\<close>

section \<open>State\<close>

text \<open>
  \<open>present\<close> are the paths at which something exists; \<open>made\<close> are the directories of this process among them,
  which the program does not record itself; \<open>owned\<close> is \<^verbatim>\<open>OWNED\<close>; \<open>backstops\<close> are the armed finalizers.
\<close>

record dirs =
  present :: "string set"
  made :: "string set"
  owned :: "string list"
  backstops :: "string list"
  warned :: "string list"

definition no_dirs :: "string set \<Rightarrow> dirs" where
  "no_dirs p = \<lparr>present = p, made = {}, owned = [], backstops = [], warned = []\<rparr>"

section \<open>Removal\<close>

text \<open>\<open>rm\<close> says whether \<^verbatim>\<open>shutil.rmtree\<close> succeeds where there is something to remove.\<close>

definition remove_private :: "bool \<Rightarrow> string \<Rightarrow> bool \<Rightarrow> dirs \<Rightarrow> dirs res" where
  "remove_private rm work missing_ok st =
     (if missing_ok \<and> work \<notin> present st then Inr st
      else if work \<in> present st \<and> rm then Inr (st\<lparr>present := present st - {work}, made := made st - {work}\<rparr>)
      else refuse ''the private directory could not be removed'')"

text \<open>\<open>took\<close> says whether stderr took the warning.\<close>

definition warn_left :: "bool \<Rightarrow> string \<Rightarrow> dirs \<Rightarrow> dirs \<times> bool" where
  "warn_left took work st = (if took then (st\<lparr>warned := warned st @ [work]\<rparr>, True) else (st, False))"

definition remove_leftover :: "bool \<Rightarrow> bool \<Rightarrow> string \<Rightarrow> dirs \<Rightarrow> dirs \<times> bool" where
  "remove_leftover rm took work st =
     (if work \<in> set (owned st)
      then (case remove_private rm work True st of
          Inr st' \<Rightarrow> (st'\<lparr>owned := removeAll work (owned st')\<rparr>, True)
        | Inl e \<Rightarrow> warn_left took work st)
      else (st, True))"

text \<open>The answers to one directory of the sweep: to the removal and to the second try.\<close>

type_synonym answers = "string \<Rightarrow> (bool \<times> bool) \<times> (bool \<times> bool)"

definition sweep_one :: "answers \<Rightarrow> dirs \<Rightarrow> string \<Rightarrow> dirs" where
  "sweep_one ans st work = (case ans work of ((rm1, took1), (rm2, took2)) \<Rightarrow>
     (case remove_leftover rm1 took1 work st of
        (st', True) \<Rightarrow> st'
      | (st', False) \<Rightarrow> fst (remove_leftover rm2 took2 work st')))"

definition sweep_at_exit :: "answers \<Rightarrow> dirs \<Rightarrow> dirs" where
  "sweep_at_exit ans st = foldl (sweep_one ans) st (sort (owned st))"

definition after_in_child :: "dirs \<Rightarrow> dirs" where
  "after_in_child st = st\<lparr>owned := [], made := {}\<rparr>"

section \<open>The object\<close>

definition disown :: "string \<Rightarrow> dirs \<Rightarrow> dirs" where
  "disown work st = st\<lparr>owned := removeAll work (owned st), backstops := removeAll work (backstops st)\<rparr>"

text \<open>What happens as the directory is made and filled; \<open>Taken\<close> is another process that makes it first.\<close>

datatype making = Taken | Mkdir_fails | Fill_fails | Filled

definition own :: "string \<Rightarrow> dirs \<Rightarrow> dirs" where
  "own work st = st\<lparr>owned := (if work \<in> set (owned st) then owned st else work # owned st),
     backstops := work # backstops st\<rparr>"

definition mkdir :: "string \<Rightarrow> dirs \<Rightarrow> dirs" where
  "mkdir work st = st\<lparr>present := insert work (present st), made := insert work (made st)\<rparr>"

definition enter :: "making \<Rightarrow> bool \<Rightarrow> string \<Rightarrow> dirs \<Rightarrow> dirs \<times> string res" where
  "enter m rm work st =
     (if work \<in> present st then (st, refuse ''the private directory exists already'')
      else
        let st1 = own work st in
        (case m of
           Taken \<Rightarrow> (disown work (st1\<lparr>present := insert work (present st1)\<rparr>), refuse ''the private directory exists already'')
         | Mkdir_fails \<Rightarrow> (disown work st1, Inl (OSError ''mkdir''))
         | Fill_fails \<Rightarrow>
             (case remove_private rm work True (mkdir work st1) of
                Inr st2 \<Rightarrow> (disown work st2, Inl (OSError ''fill''))
              | Inl e \<Rightarrow> (mkdir work st1, Inl e))
         | Filled \<Rightarrow> (mkdir work st1, Inr work)))"

definition exit_block :: "bool \<Rightarrow> string \<Rightarrow> dirs \<Rightarrow> dirs \<times> unit res" where
  "exit_block rm work st = (case remove_private rm work False st of
     Inr st' \<Rightarrow> (disown work st', Inr ())
   | Inl e \<Rightarrow> (st, Inl e))"

text \<open>A finalizer runs when the object is dropped or at the exit, once.\<close>

definition run_backstop :: "bool \<Rightarrow> bool \<Rightarrow> string \<Rightarrow> dirs \<Rightarrow> dirs" where
  "run_backstop rm took work st =
     (if work \<in> set (backstops st)
      then fst (remove_leftover rm took work (st\<lparr>backstops := removeAll work (backstops st)\<rparr>)) else st)"

section \<open>Runs\<close>

text \<open>
  The steps of a process: entering and leaving blocks, a dropped object, the sweep, a fork, after which the run
  goes on in the child, and other processes that make or remove what is theirs. An interruption of the program between two operations is the next step.
\<close>

inductive own_step :: "dirs \<Rightarrow> dirs \<Rightarrow> bool" where
  step_enter: "own_step st (fst (enter m rm work st))"
| step_exit: "work \<in> set (owned st) \<Longrightarrow> own_step st (fst (exit_block rm work st))"
| step_drop: "own_step st (run_backstop rm took work st)"
| step_sweep: "own_step st (sweep_at_exit ans st)"
| step_fork: "own_step st (after_in_child st)"

inductive reachable :: "dirs \<Rightarrow> dirs \<Rightarrow> bool" for init where
  reach_refl: "reachable init init"
| reach_own: "reachable init st \<Longrightarrow> own_step st st' \<Longrightarrow> reachable init st'"
| reach_others: "reachable init st \<Longrightarrow> made st \<subseteq> p \<Longrightarrow> reachable init (st\<lparr>present := p\<rparr>)"

text \<open>
  The invariant: the process owns exactly the directories that it made and that still exist.
\<close>

definition kept :: "dirs \<Rightarrow> bool" where
  "kept st \<longleftrightarrow> set (owned st) = made st \<and> made st \<subseteq> present st \<and> distinct (owned st)"

text \<open>What others had at their paths is still there, and still theirs.\<close>

definition others_kept :: "dirs \<Rightarrow> dirs \<Rightarrow> bool" where
  "others_kept st st' \<longleftrightarrow> present st - made st \<subseteq> present st' - made st'"

lemma others_kept_refl [simp]: "others_kept st st"
  by (simp add: others_kept_def)

lemma others_kept_trans: "others_kept a b \<Longrightarrow> others_kept b c \<Longrightarrow> others_kept a c"
  unfolding others_kept_def by blast

lemmas dir_ops = remove_private_def warn_left_def remove_leftover_def disown_def own_def mkdir_def

lemma remove_leftover_kept:
  assumes "kept st"
  shows "kept (fst (remove_leftover rm took work st))" "others_kept st (fst (remove_leftover rm took work st))"
    "owned (fst (remove_leftover rm took work st)) =
       (if work \<in> set (owned st) \<and> rm then removeAll work (owned st) else owned st)"
    "snd (remove_leftover rm took work st) \<Longrightarrow> work \<in> set (owned (fst (remove_leftover rm took work st))) \<Longrightarrow>
       work \<in> set (warned (fst (remove_leftover rm took work st)))"
    "set (warned st) \<subseteq> set (warned (fst (remove_leftover rm took work st)))"
  using assms by (cases "work \<in> set (owned st)"; cases rm; cases took;
    auto simp: dir_ops kept_def others_kept_def distinct_removeAll)+

lemma enter_kept:
  assumes "kept st"
  shows "kept (fst (enter m rm work st)) \<and> others_kept st (fst (enter m rm work st))"
proof (cases "work \<in> present st")
  case True
  then show ?thesis using assms by (simp add: enter_def)
next
  case False
  with assms have "work \<notin> set (owned st)" "work \<notin> made st" by (auto simp: kept_def)
  with False assms show ?thesis
    by (cases m; cases rm) (auto simp: enter_def Let_def dir_ops kept_def others_kept_def distinct_removeAll)
qed

lemma exit_block_kept:
  assumes "kept st" and "work \<in> set (owned st)"
  shows "kept (fst (exit_block rm work st)) \<and> others_kept st (fst (exit_block rm work st))"
  using assms by (cases rm) (auto simp: exit_block_def dir_ops kept_def others_kept_def distinct_removeAll)

lemma run_backstop_kept:
  assumes "kept st"
  shows "kept (run_backstop rm took work st) \<and> others_kept st (run_backstop rm took work st)"
proof -
  let ?st = "st\<lparr>backstops := removeAll work (backstops st)\<rparr>"
  have "kept ?st" "others_kept st ?st" using assms by (simp_all add: kept_def others_kept_def)
  with remove_leftover_kept(1,2) [of ?st rm took work] assms show ?thesis
    by (auto simp: run_backstop_def intro: others_kept_trans)
qed

text \<open>One directory of the sweep: it is removed when a removal succeeds, else it is named or was tried twice.\<close>

lemma sweep_one_kept:
  assumes "kept st"
  shows "kept (sweep_one ans st work)" "others_kept st (sweep_one ans st work)"
    "set (owned (sweep_one ans st work)) \<subseteq> set (owned st)"
    "set (owned st) - {work} \<subseteq> set (owned (sweep_one ans st work))"
    "fst (fst (ans work)) \<Longrightarrow> work \<notin> set (owned (sweep_one ans st work))"
    "set (warned st) \<subseteq> set (warned (sweep_one ans st work))"
    "present (sweep_one ans st work) = present st - (made st - made (sweep_one ans st work))"
    "snd (fst (ans work)) \<or> snd (snd (ans work)) \<Longrightarrow> work \<in> set (owned (sweep_one ans st work)) \<Longrightarrow>
       work \<in> set (warned (sweep_one ans st work))"
proof -
  obtain rm1 took1 rm2 took2 where a: "ans work = ((rm1, took1), (rm2, took2))" by (metis prod.exhaust)
  show "kept (sweep_one ans st work)" "others_kept st (sweep_one ans st work)"
    "set (owned (sweep_one ans st work)) \<subseteq> set (owned st)"
    "set (owned st) - {work} \<subseteq> set (owned (sweep_one ans st work))"
    "fst (fst (ans work)) \<Longrightarrow> work \<notin> set (owned (sweep_one ans st work))"
    "set (warned st) \<subseteq> set (warned (sweep_one ans st work))"
    "present (sweep_one ans st work) = present st - (made st - made (sweep_one ans st work))"
    "snd (fst (ans work)) \<or> snd (snd (ans work)) \<Longrightarrow> work \<in> set (owned (sweep_one ans st work)) \<Longrightarrow>
       work \<in> set (warned (sweep_one ans st work))"
    using assms by (cases "work \<in> set (owned st)"; cases rm1; cases took1; cases rm2; cases took2;
      auto simp: sweep_one_def a dir_ops kept_def others_kept_def distinct_removeAll)+
qed

lemma sweep_fold:
  assumes "kept st"
  shows "kept (foldl (sweep_one ans) st ws) \<and> others_kept st (foldl (sweep_one ans) st ws) \<and>
    set (owned (foldl (sweep_one ans) st ws)) \<subseteq> set (owned st) \<and>
    set (warned st) \<subseteq> set (warned (foldl (sweep_one ans) st ws)) \<and>
    present (foldl (sweep_one ans) st ws) = present st - (made st - made (foldl (sweep_one ans) st ws)) \<and>
    (\<forall>w \<in> set ws. fst (fst (ans w)) \<longrightarrow> w \<notin> set (owned (foldl (sweep_one ans) st ws))) \<and>
    (\<forall>w \<in> set ws. snd (fst (ans w)) \<or> snd (snd (ans w)) \<longrightarrow>
       w \<in> set (owned (foldl (sweep_one ans) st ws)) \<longrightarrow> w \<in> set (warned (foldl (sweep_one ans) st ws)))"
  using assms
proof (induction ws arbitrary: st)
  case (Cons w ws)
  note one = sweep_one_kept [OF Cons.prems, where ans = ans and work = w]
  note IH = Cons.IH [OF one(1)]
  from IH one have "made (foldl (sweep_one ans) (sweep_one ans st w) ws) \<subseteq> made (sweep_one ans st w)"
    "made (sweep_one ans st w) \<subseteq> made st" using Cons.prems by (auto simp: kept_def)
  with IH one show ?case
    unfolding foldl.simps by (intro conjI ballI impI) (auto intro: others_kept_trans, blast+)
qed simp

lemma own_step_kept:
  assumes "own_step st st'" and "kept st"
  shows "kept st' \<and> others_kept st st'"
  using assms
proof (induction rule: own_step.induct)
  case (step_sweep st ans)
  then show ?case using sweep_fold [of st ans "sort (owned st)"] by (simp add: sweep_at_exit_def)
next
  case (step_fork st)
  then show ?case by (auto simp: kept_def others_kept_def after_in_child_def)
qed (simp_all add: enter_kept exit_block_kept run_backstop_kept)

lemma reachable_kept: "reachable (no_dirs p) st \<Longrightarrow> kept st"
proof (induction rule: reachable.induct)
  case reach_refl
  then show ?case by (simp add: kept_def no_dirs_def)
next
  case (reach_own st st')
  then show ?case using own_step_kept by blast
next
  case (reach_others st p)
  then show ?case by (simp add: kept_def)
qed

section \<open>The properties\<close>


definition sample_work :: string where
  "sample_work = ''zip-0''"

definition sample_entered :: dirs where
  "sample_entered = fst (enter Filled True sample_work (no_dirs {''other''}))"

lemma sample_reachable: "reachable (no_dirs {''other''}) sample_entered"
  unfolding sample_entered_def by (intro reach_own [OF reach_refl] step_enter)

lemma sample_entered_eq:
  "sample_entered = \<lparr>present = {sample_work, ''other''}, made = {sample_work}, owned = [sample_work], backstops = [sample_work],
     warned = []\<rparr>"
  by (simp add: sample_entered_def enter_def no_dirs_def Let_def mkdir_def own_def sample_work_def)




text \<open>
  C17: The sweep at the exit leaves no copy behind unnoticed: a directory whose removal succeeds is gone, and a
  directory that stays is named in a warning where stderr takes a warning at the first or the second try.
\<close>

theorem sweep_leaves_nothing_unnamed:
  assumes "reachable (no_dirs p) st" and "work \<in> made st"
  shows "(fst (fst (ans work)) \<longrightarrow> work \<notin> present (sweep_at_exit ans st)) \<and>
    (snd (fst (ans work)) \<or> snd (snd (ans work)) \<longrightarrow>
      work \<notin> present (sweep_at_exit ans st) \<or> work \<in> set (warned (sweep_at_exit ans st)))"
proof -
  have k: "kept st" by (rule reachable_kept [OF assms(1)])
  then have "work \<in> set (sort (owned st))" using assms(2) by (simp add: kept_def)
  with sweep_fold [OF k, of ans "sort (owned st)"] assms(2) show ?thesis
    by (auto simp: sweep_at_exit_def kept_def)
qed

theorem sweep_leaves_nothing_unnamed_witness:
  "sample_work \<in> present sample_entered \<and>
   sample_work \<notin> present (sweep_at_exit (\<lambda>_. ((True, True), (True, True))) sample_entered)"
  using sweep_leaves_nothing_unnamed [OF sample_reachable, of sample_work "\<lambda>_. ((True, True), (True, True))"]
  by (simp add: sample_entered_eq)

end
