(* ===== verification/Spec2Isabelle.thy ===== *)
theory Spec2Isabelle
  imports Session_Store Json_Schema Private_Directory
begin

text \<open>
  A verification library of the Python programs under \<^verbatim>\<open>scripts/\<close>.
\<close>

end
